(* ===== verification/Vllm_Prelude.thy ===== *)
theory Vllm_Prelude
  imports Complex_Main "HOL-Library.Word" "HOL-Library.Multiset"
begin

text \<open>
  The shared vocabulary of the development.

  \<^item> \<open>py_error\<close> and \<open>'a res\<close>: a Python operation that may raise returns \<open>Inl\<close> of
    the exception class or \<open>Inr\<close> of its result; \<open>bindE\<close> sequences two such
    operations and \<open>fold_res\<close> is a \<^verbatim>\<open>for\<close> loop whose body may raise.
  \<^item> \<open>py_get\<close> and \<open>py_slice\<close>: subscripts and slices of a list, with the
    \<^verbatim>\<open>IndexError\<close> branch and with negative indices counted from the end.
  \<^item> \<open>cdiv\<close>: ceiling division, as \<^verbatim>\<open>vllm/utils/math_utils.py\<close> writes it.
  \<^item> \<open>res_simps\<close>: the simplification rules for the above, and the invariant rule
    \<open>fold_res_invariant\<close> that carries the proofs about loops.
\<close>

section \<open>Exceptions as values\<close>

datatype py_error =
    ValueError
  | RuntimeError
  | AssertionError
  | IndexError
  | KeyError
  | OverflowError
  | NotImplementedError
  | ZeroDivisionError
  | TypeError
  | StopIteration

type_synonym 'a res = "py_error + 'a"

type_synonym byte_string = "8 word list"

named_theorems res_simps \<open>evaluation rules for operations that may raise\<close>

definition bindE :: "'a res \<Rightarrow> ('a \<Rightarrow> 'b res) \<Rightarrow> 'b res" where
  "bindE m f = (case m of Inl e \<Rightarrow> Inl e | Inr x \<Rightarrow> f x)"

lemma bindE_Inr [simp, res_simps]: "bindE (Inr x) f = f x"
  by (simp add: bindE_def)

lemma bindE_Inl [simp, res_simps]: "bindE (Inl e) f = Inl e"
  by (simp add: bindE_def)

lemma bindE_eq_Inr:
  "bindE m f = Inr y \<longleftrightarrow> (\<exists>x. m = Inr x \<and> f x = Inr y)"
  by (cases m) auto

lemma bindE_eq_Inl:
  "bindE m f = Inl e \<longleftrightarrow> m = Inl e \<or> (\<exists>x. m = Inr x \<and> f x = Inl e)"
  by (cases m) auto

lemma bindE_assoc: "bindE (bindE m f) g = bindE m (\<lambda>x. bindE (f x) g)"
  by (cases m) auto

definition assertE :: "bool \<Rightarrow> 'a res \<Rightarrow> 'a res" where
  "assertE b k = (if b then k else Inl AssertionError)"

lemma assertE_True [simp, res_simps]: "b \<Longrightarrow> assertE b k = k"
  by (simp add: assertE_def)

lemma assertE_eq_Inr: "assertE b k = Inr x \<longleftrightarrow> b \<and> k = Inr x"
  by (simp add: assertE_def)

fun fold_res :: "('a \<Rightarrow> 's \<Rightarrow> 's res) \<Rightarrow> 'a list \<Rightarrow> 's \<Rightarrow> 's res" where
  "fold_res f [] s = Inr s"
| "fold_res f (x # xs) s = bindE (f x s) (fold_res f xs)"

lemma fold_res_append:
  "fold_res f (xs @ ys) s = bindE (fold_res f xs s) (fold_res f ys)"
proof (induction xs arbitrary: s)
  case (Cons x xs)
  then show ?case by (cases "f x s") auto
qed simp

text \<open>
  A loop that cannot raise and keeps an invariant relating the elements done, the
  elements to come and the state.
\<close>

lemma fold_res_invariant:
  assumes step: "\<And>before x todo s. xs = before @ x # todo \<Longrightarrow> I before s \<Longrightarrow>
      \<exists>s'. f x s = Inr s' \<and> I (before @ [x]) s'"
    and start: "I [] s0"
  shows "\<exists>s'. fold_res f xs s0 = Inr s' \<and> I xs s'"
proof -
  have "\<exists>s'. fold_res f todo s = Inr s' \<and> I xs s'"
    if "xs = before @ todo" "I before s" for before todo s
    using that
  proof (induction todo arbitrary: before s)
    case Nil
    then show ?case by simp
  next
    case (Cons x todo)
    then obtain s' where s': "f x s = Inr s'" "I (before @ [x]) s'"
      using step by blast
    with Cons.IH [of "before @ [x]" s'] Cons.prems show ?case by simp
  qed
  from this [of "[]" xs s0] start show ?thesis by simp
qed

text \<open>Partial correctness of a loop: a property of the state that every body keeps.\<close>

lemma fold_res_preserves:
  assumes "fold_res f xs s = Inr s'" and "P s"
    and "\<And>x s s'. x \<in> set xs \<Longrightarrow> P s \<Longrightarrow> f x s = Inr s' \<Longrightarrow> P s'"
  shows "P s'"
  using assms by (induction xs arbitrary: s) (auto simp: bindE_eq_Inr)

text \<open>A loop that returns \<^verbatim>\<open>False\<close> at the first element that fails a test.\<close>

fun all_res :: "('a \<Rightarrow> bool res) \<Rightarrow> 'a list \<Rightarrow> bool res" where
  "all_res t [] = Inr True"
| "all_res t (x # xs) = bindE (t x) (\<lambda>b. if b then all_res t xs else Inr False)"

lemma all_res_total:
  "(\<And>x. x \<in> set xs \<Longrightarrow> t x = Inr (P x)) \<Longrightarrow> all_res t xs = Inr (\<forall>x \<in> set xs. P x)"
  by (induction xs) auto

text \<open>A comprehension whose element expression may raise.\<close>

fun map_res :: "('a \<Rightarrow> 'b res) \<Rightarrow> 'a list \<Rightarrow> 'b list res" where
  "map_res f [] = Inr []"
| "map_res f (x # xs) = bindE (f x) (\<lambda>y. bindE (map_res f xs) (\<lambda>ys. Inr (y # ys)))"

lemma map_res_total: "(\<And>x. x \<in> set xs \<Longrightarrow> f x = Inr (g x)) \<Longrightarrow> map_res f xs = Inr (map g xs)"
  by (induction xs) auto

section \<open>Lists the way Python indexes them\<close>

text \<open>
  \<open>py_position\<close> is the position a subscript denotes in a sequence of \<open>len\<close> elements, and
  \<open>py_bound\<close> the position a slice bound is clamped to; a slice never raises.
\<close>

definition py_position :: "nat \<Rightarrow> int \<Rightarrow> nat option" where
  "py_position len i =
     (if 0 \<le> i then (if nat i < len then Some (nat i) else None)
      else if nat (- i) \<le> len then Some (len - nat (- i)) else None)"

definition py_get :: "'a list \<Rightarrow> int \<Rightarrow> 'a res" where
  "py_get xs i =
     (case py_position (length xs) i of None \<Rightarrow> Inl IndexError | Some k \<Rightarrow> Inr (xs ! k))"

lemma py_get_nonneg [res_simps]:
  "0 \<le> i \<Longrightarrow> i < int (length xs) \<Longrightarrow> py_get xs i = Inr (xs ! nat i)"
  by (simp add: py_get_def py_position_def nat_less_iff)

lemma py_get_last [res_simps]: "xs \<noteq> [] \<Longrightarrow> py_get xs (- 1) = Inr (last xs)"
  by (cases xs rule: rev_cases) (simp_all add: py_get_def py_position_def)

lemma py_get_total: "py_get xs i = Inr x \<Longrightarrow> x \<in> set xs"
  by (auto simp: py_get_def py_position_def split: option.splits if_splits)

definition py_bound :: "nat \<Rightarrow> int \<Rightarrow> nat" where
  "py_bound len i = (if 0 \<le> i then min len (nat i) else len - nat (- i))"

definition py_slice :: "'a list \<Rightarrow> int \<Rightarrow> int \<Rightarrow> 'a list" where
  "py_slice xs i j = drop (py_bound (length xs) i) (take (py_bound (length xs) j) xs)"

lemma py_slice_nonneg [res_simps]:
  "0 \<le> i \<Longrightarrow> 0 \<le> j \<Longrightarrow> py_slice xs i j = drop (nat i) (take (nat j) xs)"
proof -
  assume ij: "0 \<le> i" "0 \<le> j"
  have "take (min (length xs) (nat j)) xs = take (nat j) xs"
    by (cases "length xs \<le> nat j") (simp_all add: min_def)
  moreover have "drop (min (length xs) (nat i)) ys = drop (nat i) ys" if "length ys \<le> length xs"
    for ys :: "'a list"
    using that by (simp add: min_def)
  ultimately show ?thesis using ij by (simp add: py_slice_def py_bound_def)
qed

lemma count_list_distinct: "distinct xs \<Longrightarrow> count_list xs x = (if x \<in> set xs then 1 else 0)"
  by (induction xs) auto

section \<open>Arithmetic\<close>

lemma le_div_iff_mult_le:
  fixes b n x :: int
  assumes "0 < b"
  shows "x \<le> n div b \<longleftrightarrow> x * b \<le> n"
proof
  assume "x \<le> n div b"
  then have "x * b \<le> n div b * b" using assms by (simp add: mult_right_mono)
  also have "\<dots> \<le> n" using div_mult_mod_eq [of n b] pos_mod_sign [OF assms, of n] by linarith
  finally show "x * b \<le> n" .
next
  assume "x * b \<le> n"
  then have "x * b div b \<le> n div b" using assms by (rule zdiv_mono1)
  with assms show "x \<le> n div b" by simp
qed

definition cdiv :: "int \<Rightarrow> int \<Rightarrow> int" where
  "cdiv a b = - (a div (- b))"

lemma cdiv_bounds:
  assumes "0 < b"
  shows "a \<le> cdiv a b * b" and "(cdiv a b - 1) * b < a"
proof -
  define q r where "q = a div (- b)" and "r = a mod (- b)"
  have "a = (- b) * q + r" unfolding q_def r_def by (rule mult_div_mod_eq [symmetric])
  moreover have "- b < r" "r \<le> 0"
    using assms by (simp_all add: r_def neg_mod_bound neg_mod_sign)
  ultimately show "a \<le> cdiv a b * b" and "(cdiv a b - 1) * b < a"
    by (simp_all add: cdiv_def q_def [symmetric] algebra_simps)
qed

lemma cdiv_le_iff: "0 < b \<Longrightarrow> cdiv a b \<le> k \<longleftrightarrow> a \<le> k * b"
proof -
  assume b: "0 < b"
  show ?thesis
  proof
    assume "cdiv a b \<le> k"
    then have "cdiv a b * b \<le> k * b" using b by (simp add: mult_right_mono)
    with cdiv_bounds(1) [OF b, of a] show "a \<le> k * b" by simp
  next
    assume "a \<le> k * b"
    with cdiv_bounds(2) [OF b, of a] have "(cdiv a b - 1) * b < k * b" by simp
    with b have "cdiv a b - 1 < k" by (simp add: mult_less_cancel_right)
    then show "cdiv a b \<le> k" by simp
  qed
qed

lemma cdiv_nonneg: "0 < b \<Longrightarrow> 0 \<le> a \<Longrightarrow> 0 \<le> cdiv a b"
  using cdiv_le_iff [of b a "-1"] by auto

lemma cdiv_mono: "0 < b \<Longrightarrow> a \<le> a' \<Longrightarrow> cdiv a b \<le> cdiv a' b"
  using cdiv_le_iff [of b a "cdiv a' b"] cdiv_bounds(1) [of b a'] by simp

lemma div_le_cdiv: "0 < b \<Longrightarrow> a div b \<le> cdiv a b"
proof -
  assume b: "0 < b"
  have "a div b * b \<le> a"
    using b div_mult_mod_eq [of a b] pos_mod_sign [of b a] by linarith
  with cdiv_bounds(1) [OF b, of a] have "a div b * b \<le> cdiv a b * b" by simp
  with b show ?thesis by simp
qed

end
