(* ===== verification/Free_Block_Queue.thy ===== *)
theory Free_Block_Queue
  imports Vllm_Prelude
begin

text \<open>
  \<^verbatim>\<open>KVCacheBlock\<close> and \<^verbatim>\<open>FreeKVCacheBlockQueue\<close> of \<^verbatim>\<open>vllm/v1/core/kv_cache_utils.py\<close>.

  The queue is an intrusive doubly linked list: the links are two attributes of the
  block objects, and the queue object only holds two sentinel blocks and a counter.
  Objects are references (\<open>ref\<close>), attributes live in an explicit store
  (\<open>heap :: ref \<Rightarrow> kv_cache_block\<close>), so that an assignment to an attribute of a block
  is seen through every alias of that block, as in Python.

  \<open>queue_rep q xs\<close> relates the linked representation to the list \<open>xs\<close> of free
  blocks in eviction order. Each operation is shown to implement a list operation
  under it: \<open>popleft\<close> is \<open>tl\<close>, \<open>popleft_n\<close> is \<open>take\<close>/\<open>drop\<close>, \<open>remove\<close> deletes
  one block, \<open>append\<close> and \<open>append_n\<close> append, and the walk of
  \<open>get_all_free_blocks\<close> stops and returns \<open>xs\<close>. The locale \<open>free_block_list\<close> states
  these laws as the interface the block pool uses.
\<close>

section \<open>Blocks and the store\<close>

text \<open>\<open>Blk i\<close> is the object \<^verbatim>\<open>block_pool.blocks[i]\<close>.\<close>

datatype ref = FakeHead | FakeTail | Blk nat

record kv_cache_block =
  block_id :: int
  ref_cnt :: int
  block_hash :: "byte_string option"
  prev_free_block :: "ref option"
  next_free_block :: "ref option"
  is_null :: bool

type_synonym store = "ref \<Rightarrow> kv_cache_block"

definition new_kv_cache_block :: "int \<Rightarrow> kv_cache_block" where
  "new_kv_cache_block idx =
     \<lparr>block_id = idx, ref_cnt = 0, block_hash = None,
      prev_free_block = None, next_free_block = None, is_null = False\<rparr>"

text \<open>The property setter of \<^verbatim>\<open>block_hash\<close> refuses to overwrite a hash.\<close>

definition set_block_hash :: "store \<Rightarrow> ref \<Rightarrow> byte_string \<Rightarrow> store res" where
  "set_block_hash h b key =
     assertE (block_hash (h b) = None) (Inr (h(b := (h b)\<lparr>block_hash := Some key\<rparr>)))"

definition reset_hash :: "store \<Rightarrow> ref \<Rightarrow> store" where
  "reset_hash h b = h(b := (h b)\<lparr>block_hash := None\<rparr>)"

definition set_prev :: "ref \<Rightarrow> ref option \<Rightarrow> store \<Rightarrow> store" where
  "set_prev b p h = h(b := (h b)\<lparr>prev_free_block := p\<rparr>)"

definition set_next :: "ref \<Rightarrow> ref option \<Rightarrow> store \<Rightarrow> store" where
  "set_next b p h = h(b := (h b)\<lparr>next_free_block := p\<rparr>)"

section \<open>The queue operations\<close>

record free_queue =
  heap :: store
  num_free_blocks :: int

definition link_step :: "ref list \<Rightarrow> nat \<Rightarrow> store \<Rightarrow> store" where
  "link_step blocks i h =
     (let h1 = (if 0 < i then set_prev (blocks ! i) (Some (blocks ! (i - 1))) h else h)
      in if i < length blocks - 1 then set_next (blocks ! i) (Some (blocks ! (i + 1))) h1
         else h1)"

definition init_free_queue :: "store \<Rightarrow> ref list \<Rightarrow> free_queue" where
  "init_free_queue h blocks =
     (let h1 = fold (link_step blocks) [0..<length blocks] h;
          h2 = h1(FakeHead := new_kv_cache_block (-1), FakeTail := new_kv_cache_block (-1));
          h3 = (if 0 < length blocks
                then set_next (last blocks) (Some FakeTail)
                       (set_prev FakeTail (Some (last blocks))
                         (set_prev (hd blocks) (Some FakeHead)
                           (set_next FakeHead (Some (hd blocks)) h2)))
                else set_prev FakeTail (Some FakeHead) (set_next FakeHead (Some FakeTail) h2))
      in \<lparr>heap = h3, num_free_blocks = int (length blocks)\<rparr>)"

definition popleft :: "free_queue \<Rightarrow> (ref \<times> free_queue) res" where
  "popleft q =
     (case next_free_block (heap q FakeHead) of
        None \<Rightarrow> assertE (num_free_blocks q = 0) (Inl ValueError)
      | Some first_block \<Rightarrow>
          if first_block = FakeTail then assertE (num_free_blocks q = 0) (Inl ValueError)
          else (case next_free_block (heap q first_block) of
                  None \<Rightarrow> Inl RuntimeError
                | Some second \<Rightarrow>
                    let h1 = set_next FakeHead (Some second) (heap q);
                        h2 = set_prev second (Some FakeHead) h1;
                        h3 = set_next first_block None (set_prev first_block None h2)
                    in Inr (first_block,
                            q\<lparr>heap := h3, num_free_blocks := num_free_blocks q - 1\<rparr>)))"

text \<open>The loop of \<^verbatim>\<open>popleft_n\<close>: the store, the current block and the blocks popped so far.\<close>

fun popleft_n_loop ::
    "nat \<Rightarrow> store \<Rightarrow> ref option \<Rightarrow> ref list \<Rightarrow> (store \<times> ref option \<times> ref list) res" where
  "popleft_n_loop 0 h cur ret = Inr (h, cur, ret)"
| "popleft_n_loop (Suc k) h None ret = Inl AssertionError"
| "popleft_n_loop (Suc k) h (Some b) ret =
     popleft_n_loop k (set_next b None (set_prev b None h)) (next_free_block (h b)) (ret @ [b])"

definition popleft_n :: "int \<Rightarrow> free_queue \<Rightarrow> (ref list \<times> free_queue) res" where
  "popleft_n n q =
     (if n = 0 then Inr ([], q)
      else assertE (n \<le> num_free_blocks q)
        (bindE (popleft_n_loop (nat n) (heap q) (next_free_block (heap q FakeHead)) [])
          (\<lambda>(h, cur, ret).
             Inr (ret,
               \<lparr>heap = (case cur of
                          None \<Rightarrow> h
                        | Some c \<Rightarrow> set_prev c (Some FakeHead) (set_next FakeHead (Some c) h)),
                num_free_blocks = num_free_blocks q - n\<rparr>))))"

definition remove :: "ref \<Rightarrow> free_queue \<Rightarrow> free_queue res" where
  "remove b q =
     (case (prev_free_block (heap q b), next_free_block (heap q b)) of
        (Some p, Some n) \<Rightarrow>
          let h1 = set_next p (Some n) (heap q);
              h2 = set_prev n (Some p) h1;
              h3 = set_next b None (set_prev b None h2)
          in Inr (q\<lparr>heap := h3, num_free_blocks := num_free_blocks q - 1\<rparr>)
      | _ \<Rightarrow> Inl RuntimeError)"

definition append_block :: "ref \<Rightarrow> free_queue \<Rightarrow> free_queue res" where
  "append_block b q =
     (case prev_free_block (heap q FakeTail) of
        None \<Rightarrow> Inl RuntimeError
      | Some last_block \<Rightarrow>
          let h1 = set_prev b (Some last_block) (set_next last_block (Some b) (heap q));
              h2 = set_prev FakeTail (Some b) (set_next b (Some FakeTail) h1)
          in Inr (q\<lparr>heap := h2, num_free_blocks := num_free_blocks q + 1\<rparr>))"

fun append_n_loop :: "ref list \<Rightarrow> store \<Rightarrow> ref \<Rightarrow> store \<times> ref" where
  "append_n_loop [] h last_block = (h, last_block)"
| "append_n_loop (b # bs) h last_block =
     append_n_loop bs (set_next last_block (Some b) (set_prev b (Some last_block) h)) b"

definition append_n :: "ref list \<Rightarrow> free_queue \<Rightarrow> free_queue res" where
  "append_n bs q =
     (if bs = [] then Inr q
      else (case prev_free_block (heap q FakeTail) of
              None \<Rightarrow> Inl AssertionError
            | Some last_block \<Rightarrow>
                let (h, lb) = append_n_loop bs (heap q) last_block
                in Inr \<lparr>heap = set_prev FakeTail (Some lb) (set_next lb (Some FakeTail) h),
                        num_free_blocks = num_free_blocks q + int (length bs)\<rparr>))"

text \<open>
  The walk of \<^verbatim>\<open>get_all_free_blocks\<close>. On a cyclic store it would not return, so the
  result is an option: \<open>None\<close> is "does not return".
\<close>

partial_function (option) collect_free :: "store \<Rightarrow> ref \<Rightarrow> ref list \<Rightarrow> ref list option" where
  "collect_free h cur ret =
     (case next_free_block (h cur) of
        None \<Rightarrow> Some ret
      | Some n \<Rightarrow> collect_free h n (ret @ [cur]))"

definition get_all_free_blocks :: "free_queue \<Rightarrow> (ref list) res option" where
  "get_all_free_blocks q =
     (case next_free_block (heap q FakeHead) of
        None \<Rightarrow> Some (Inl RuntimeError)
      | Some first \<Rightarrow> map_option Inr (collect_free (heap q) first []))"

section \<open>The list a queue represents\<close>

fun linked :: "store \<Rightarrow> ref list \<Rightarrow> bool" where
  "linked h (a # b # rest) \<longleftrightarrow>
     next_free_block (h a) = Some b \<and> prev_free_block (h b) = Some a \<and> linked h (b # rest)"
| "linked h _ \<longleftrightarrow> True"

definition chain :: "ref list \<Rightarrow> ref list" where
  "chain xs = FakeHead # xs @ [FakeTail]"

definition unlinked_outside :: "store \<Rightarrow> ref list \<Rightarrow> bool" where
  "unlinked_outside h xs \<longleftrightarrow>
     prev_free_block (h FakeHead) = None \<and> next_free_block (h FakeTail) = None \<and>
     (\<forall>b. b \<notin> set (chain xs) \<longrightarrow> prev_free_block (h b) = None \<and> next_free_block (h b) = None)"

definition queue_rep :: "free_queue \<Rightarrow> ref list \<Rightarrow> bool" where
  "queue_rep q xs \<longleftrightarrow>
     distinct (chain xs) \<and> linked (heap q) (chain xs) \<and> unlinked_outside (heap q) xs \<and>
     num_free_blocks q = int (length xs)"


section \<open>Facts about links\<close>

named_theorems link_simps \<open>reading an attribute after a link was written\<close>

lemma set_prev_fields [link_simps]:
  "prev_free_block (set_prev b p h c) = (if c = b then p else prev_free_block (h c))"
  "next_free_block (set_prev b p h c) = next_free_block (h c)"
  "block_id (set_prev b p h c) = block_id (h c)"
  "ref_cnt (set_prev b p h c) = ref_cnt (h c)"
  "block_hash (set_prev b p h c) = block_hash (h c)"
  "is_null (set_prev b p h c) = is_null (h c)"
  by (auto simp: set_prev_def)

lemma set_next_fields [link_simps]:
  "next_free_block (set_next b p h c) = (if c = b then p else next_free_block (h c))"
  "prev_free_block (set_next b p h c) = prev_free_block (h c)"
  "block_id (set_next b p h c) = block_id (h c)"
  "ref_cnt (set_next b p h c) = ref_cnt (h c)"
  "block_hash (set_next b p h c) = block_hash (h c)"
  "is_null (set_next b p h c) = is_null (h c)"
  by (auto simp: set_next_def)

text \<open>
  Two stores agree on everything but the links: what the queue operations change, and,
  the other way round, \<open>same_links\<close> is what they leave to the block pool.
\<close>

definition same_data :: "store \<Rightarrow> store \<Rightarrow> bool" where
  "same_data h h' \<longleftrightarrow>
     (\<forall>b. block_id (h' b) = block_id (h b) \<and> ref_cnt (h' b) = ref_cnt (h b) \<and>
          block_hash (h' b) = block_hash (h b) \<and> is_null (h' b) = is_null (h b))"

definition same_links :: "store \<Rightarrow> store \<Rightarrow> bool" where
  "same_links h h' \<longleftrightarrow>
     (\<forall>b. prev_free_block (h' b) = prev_free_block (h b) \<and>
          next_free_block (h' b) = next_free_block (h b))"

lemma same_data_refl [simp]: "same_data h h"
  by (simp add: same_data_def)

lemma same_data_trans: "same_data h h' \<Longrightarrow> same_data h' h'' \<Longrightarrow> same_data h h''"
  by (simp add: same_data_def)

lemma same_data_set_prev [simp]: "same_data h (set_prev b p h') = same_data h h'"
  by (simp add: same_data_def link_simps)

lemma same_data_set_next [simp]: "same_data h (set_next b p h') = same_data h h'"
  by (simp add: same_data_def link_simps)

lemma linked_cong:
  assumes "\<And>b. b \<in> set (butlast xs) \<Longrightarrow> next_free_block (h' b) = next_free_block (h b)"
    and "\<And>b. b \<in> set (tl xs) \<Longrightarrow> prev_free_block (h' b) = prev_free_block (h b)"
  shows "linked h' xs = linked h xs"
  using assms by (induction h xs rule: linked.induct) auto

lemma linked_append:
  "linked h (xs @ b # ys) \<longleftrightarrow> linked h (xs @ [b]) \<and> linked h (b # ys)"
proof (induction xs)
  case (Cons a xs)
  then show ?case by (cases xs) auto
qed simp

lemma linked_tl: "linked h (a # xs) \<Longrightarrow> linked h xs"
  by (cases xs) auto

lemma queue_rep_same_links:
  assumes "queue_rep q xs" and "same_links (heap q) h"
  shows "queue_rep (q\<lparr>heap := h\<rparr>) xs"
proof -
  have "linked h (chain xs) = linked (heap q) (chain xs)"
    using assms(2) by (intro linked_cong) (auto simp: same_links_def)
  with assms show ?thesis
    by (simp add: queue_rep_def unlinked_outside_def same_links_def)
qed

lemma queue_rep_free_list_unique:
  assumes "queue_rep q xs" and "queue_rep q ys"
  shows "xs = ys"
proof -
  have "xs = ys"
    if "linked h (a # xs @ [FakeTail])" "linked h (a # ys @ [FakeTail])"
       "FakeTail \<notin> set xs" "FakeTail \<notin> set ys" for h a xs ys
    using that
  proof (induction xs arbitrary: a ys)
    case Nil
    then show ?case by (cases ys) auto
  next
    case (Cons x xs)
    then show ?case by (cases ys) auto
  qed
  with assms show ?thesis
    by (auto simp: queue_rep_def chain_def)
qed

section \<open>The operations implement list operations\<close>

lemma chain_simps [simp]:
  "set (chain xs) = insert FakeHead (insert FakeTail (set xs))"
  "chain [] = [FakeHead, FakeTail]"
  "distinct (chain xs) \<longleftrightarrow> distinct xs \<and> FakeHead \<notin> set xs \<and> FakeTail \<notin> set xs"
  by (auto simp: chain_def)

text \<open>Unlinking the first block, the step shared by the two pops.\<close>

lemma linked_skip_first:
  assumes "linked h (FakeHead # ys @ c # zs)" and "distinct (FakeHead # ys @ c # zs)"
    and "\<And>b. b \<in> set (c # zs) \<Longrightarrow> next_free_block (h' b) = next_free_block (h b)"
    and "\<And>b. b \<in> set zs \<Longrightarrow> prev_free_block (h' b) = prev_free_block (h b)"
    and "next_free_block (h' FakeHead) = Some c" and "prev_free_block (h' c) = Some FakeHead"
  shows "linked h' (FakeHead # c # zs)"
proof -
  from assms(1) have "linked h (c # zs)"
    using linked_append [of h "FakeHead # ys" c zs] by simp
  then have "linked h' (c # zs)"
    using assms(3,4) by (subst linked_cong [of _ h' h]) (auto dest: in_set_butlastD split: if_splits)
  with assms(5,6) show ?thesis by simp
qed

text \<open>What a queue holds at its front and at its back.\<close>

lemma queue_rep_first:
  assumes "queue_rep q xs"
  shows "next_free_block (heap q FakeHead) = Some (hd (xs @ [FakeTail]))"
  using assms by (cases xs) (auto simp: queue_rep_def chain_def)

lemma linked_snoc_prev:
  "linked h (a # xs @ [t]) \<Longrightarrow> prev_free_block (h t) = Some (last (a # xs))"
  by (induction xs arbitrary: a) auto

lemma queue_rep_last:
  assumes "queue_rep q xs"
  shows "prev_free_block (heap q FakeTail) = Some (last (FakeHead # xs))"
  using assms linked_snoc_prev [of "heap q" FakeHead xs FakeTail]
  by (simp add: queue_rep_def chain_def)

lemma popleft_empty: "queue_rep q [] \<Longrightarrow> popleft q = Inl ValueError"
  using queue_rep_first [of q "[]"] by (simp add: popleft_def queue_rep_def)

lemma popleft_refines:
  assumes rep: "queue_rep q (x # xs)"
  shows "\<exists>q'. popleft q = Inr (x, q') \<and> queue_rep q' xs \<and> same_data (heap q) (heap q')"
proof -
  obtain c zs where c: "xs @ [FakeTail] = c # zs" by (cases "xs @ [FakeTail]") auto
  have x: "x \<noteq> FakeTail" "x \<noteq> FakeHead" "x \<notin> set xs" "distinct xs"
    "FakeHead \<notin> set xs" "FakeTail \<notin> set xs"
    using rep by (auto simp: queue_rep_def)
  have set_c: "set (c # zs) = insert FakeTail (set xs)" by (simp flip: c)
  have dist: "distinct (c # zs)" using x by (simp flip: c)
  have lk: "linked (heap q) (FakeHead # [x] @ c # zs)"
    using rep c by (simp add: queue_rep_def chain_def)
  then have nx: "next_free_block (heap q x) = Some c" by simp
  define h3 where "h3 = set_next x None (set_prev x None
      (set_prev c (Some FakeHead) (set_next FakeHead (Some c) (heap q))))"
  define q' where "q' = q\<lparr>heap := h3, num_free_blocks := num_free_blocks q - 1\<rparr>"
  have pop: "popleft q = Inr (x, q')"
    using queue_rep_first [OF rep] x nx by (simp add: popleft_def q'_def h3_def Let_def)
  have sep: "x \<noteq> c" "x \<notin> set zs" "FakeHead \<notin> set (c # zs)" "c \<notin> set zs"
    using x set_c dist by auto
  have "linked h3 (FakeHead # c # zs)"
    using lk dist sep x by (intro linked_skip_first [of "heap q" "[x]"]) (auto simp: h3_def link_simps)
  then have "linked h3 (chain xs)" using c by (simp add: chain_def)
  moreover have "unlinked_outside h3 xs"
    using rep x set_c sep
    by (auto simp: queue_rep_def unlinked_outside_def h3_def link_simps)
  ultimately have "queue_rep q' xs"
    using rep x by (simp add: q'_def queue_rep_def)
  moreover have "same_data (heap q) (heap q')" by (simp add: q'_def h3_def)
  ultimately show ?thesis using pop by blast
qed

text \<open>The store after the loop of \<open>popleft_n\<close>: the links of the popped blocks are reset.\<close>

definition clear_links :: "ref list \<Rightarrow> store \<Rightarrow> store" where
  "clear_links bs h = fold (\<lambda>b h. set_next b None (set_prev b None h)) bs h"

lemma clear_links_fields [link_simps]:
  "next_free_block (clear_links bs h c) = (if c \<in> set bs then None else next_free_block (h c))"
  "prev_free_block (clear_links bs h c) = (if c \<in> set bs then None else prev_free_block (h c))"
  by (induction bs arbitrary: h) (auto simp: clear_links_def link_simps)

lemma same_data_clear_links [simp]: "same_data h (clear_links bs h') = same_data h h'"
  by (induction bs arbitrary: h') (simp_all add: clear_links_def)

lemma popleft_n_loop_pops:
  assumes "linked h (ys @ c # zs)" and "distinct (ys @ c # zs)"
  shows "popleft_n_loop (length ys) h (Some (hd (ys @ [c]))) ret =
           Inr (clear_links ys h, Some c, ret @ ys)"
  using assms
proof (induction ys arbitrary: h ret)
  case Nil
  then show ?case by (simp add: clear_links_def)
next
  case (Cons y ys)
  define h' where "h' = set_next y None (set_prev y None h)"
  have "linked h' (ys @ c # zs) = linked h (ys @ c # zs)"
    using Cons.prems(2)
    by (intro linked_cong) (auto simp: h'_def link_simps dest!: in_set_butlastD list.set_sel(2) [rotated])
  then have "linked h' (ys @ c # zs)"
    using Cons.prems(1) linked_tl by simp
  then have "popleft_n_loop (length ys) h' (Some (hd (ys @ [c]))) (ret @ [y]) =
      Inr (clear_links ys h', Some c, (ret @ [y]) @ ys)"
    using Cons.prems(2) by (intro Cons.IH) auto
  moreover have "next_free_block (h y) = Some (hd (ys @ [c]))"
    using Cons.prems(1) by (cases ys) auto
  ultimately show ?case by (simp add: h'_def clear_links_def)
qed

lemma popleft_n_refines:
  assumes rep: "queue_rep q xs" and n: "0 \<le> n" "n \<le> int (length xs)"
  shows "\<exists>q'. popleft_n n q = Inr (take (nat n) xs, q') \<and>
              queue_rep q' (drop (nat n) xs) \<and> same_data (heap q) (heap q')"
proof (cases "n = 0")
  case True
  with rep show ?thesis by (simp add: popleft_n_def)
next
  case False
  define ys where "ys = take (nat n) xs"
  obtain c zs where c: "drop (nat n) xs @ [FakeTail] = c # zs"
    by (cases "drop (nat n) xs @ [FakeTail]") auto
  have all: "xs @ [FakeTail] = ys @ c # zs"
    unfolding ys_def using c by (metis append.assoc append_take_drop_id)
  have len: "length ys = nat n" using n by (simp add: ys_def)
  have dist: "distinct (FakeHead # ys @ c # zs)"
    using rep by (auto simp: queue_rep_def simp flip: all)
  have lk: "linked (heap q) (FakeHead # ys @ c # zs)"
    using rep by (simp add: queue_rep_def chain_def all)
  have set_all: "insert FakeTail (set xs) = set ys \<union> set (c # zs)"
    using arg_cong [OF all, of set] by simp
  have set_d: "set (c # zs) = insert FakeTail (set (drop (nat n) xs))" by (simp flip: c)
  have loop: "popleft_n_loop (nat n) (heap q) (next_free_block (heap q FakeHead)) [] =
      Inr (clear_links ys (heap q), Some c, ys)"
  proof -
    have "hd (xs @ [FakeTail]) = hd (ys @ [c])" using all by (cases ys) auto
    with popleft_n_loop_pops [OF linked_tl [OF lk], of "[]"] dist queue_rep_first [OF rep]
    show ?thesis by (simp flip: len)
  qed
  define h where "h = set_prev c (Some FakeHead) (set_next FakeHead (Some c) (clear_links ys (heap q)))"
  define q' where "q' = \<lparr>heap = h, num_free_blocks = num_free_blocks q - n\<rparr>"
  have pop: "popleft_n n q = Inr (ys, q')"
    using False rep n loop by (simp add: popleft_n_def q'_def h_def queue_rep_def)
  have "linked h (FakeHead # c # zs)"
    using lk dist by (intro linked_skip_first [of "heap q" ys]) (auto simp: h_def link_simps)
  then have "linked h (chain (drop (nat n) xs))" using c by (simp add: chain_def)
  moreover have "unlinked_outside h (drop (nat n) xs)"
    using rep set_all set_d dist
    by (auto simp: queue_rep_def unlinked_outside_def h_def link_simps)
  moreover have "distinct (chain (drop (nat n) xs))"
    using rep by (auto simp: queue_rep_def dest: in_set_dropD)
  ultimately have "queue_rep q' (drop (nat n) xs)"
    using rep n by (simp add: q'_def queue_rep_def of_nat_diff)
  moreover have "same_data (heap q) (heap q')" by (simp add: q'_def h_def)
  ultimately show ?thesis using pop by (auto simp: ys_def)
qed

lemma remove_refines:
  assumes rep: "queue_rep q (ys @ b # zs)"
  shows "\<exists>q'. remove b q = Inr q' \<and> queue_rep q' (ys @ zs) \<and> same_data (heap q) (heap q')"
proof -
  define p n where "p = last (FakeHead # ys)" and "n = hd (zs @ [FakeTail])"
  obtain ps where p: "FakeHead # ys = ps @ [p]"
    using append_butlast_last_id [of "FakeHead # ys"] by (metis p_def list.distinct(1))
  obtain ns where n: "zs @ [FakeTail] = n # ns"
    unfolding n_def by (cases zs) auto
  have "chain (ys @ b # zs) = (FakeHead # ys) @ b # (zs @ [FakeTail])"
    "chain (ys @ zs) = (FakeHead # ys) @ (zs @ [FakeTail])" by (simp_all add: chain_def)
  then have ch: "chain (ys @ b # zs) = ps @ p # b # n # ns" "chain (ys @ zs) = ps @ p # n # ns"
    unfolding p n by simp_all
  have dist: "distinct (ps @ p # b # n # ns)"
    using rep unfolding queue_rep_def ch by blast
  have lk: "linked (heap q) (ps @ p # b # n # ns)"
    using rep unfolding queue_rep_def ch by blast
  then have lk': "linked (heap q) (ps @ [p])" "linked (heap q) (n # ns)"
    "prev_free_block (heap q b) = Some p" "next_free_block (heap q b) = Some n"
    by (simp_all add: linked_append [of "heap q" ps p "b # n # ns"])
  define h3 where "h3 = set_next b None (set_prev b None (set_prev n (Some p) (set_next p (Some n) (heap q))))"
  define q' where "q' = q\<lparr>heap := h3, num_free_blocks := num_free_blocks q - 1\<rparr>"
  have rm: "remove b q = Inr q'"
    using lk' by (simp add: remove_def q'_def h3_def Let_def)
  have "linked h3 (ps @ [p]) = linked (heap q) (ps @ [p])"
    using dist by (intro linked_cong) (auto simp: h3_def link_simps dest!: list.set_sel(2) [rotated])
  moreover have "linked h3 (n # ns) = linked (heap q) (n # ns)"
    using dist by (intro linked_cong) (auto simp: h3_def link_simps dest!: in_set_butlastD split: if_splits)
  ultimately have "linked h3 (chain (ys @ zs))"
    using lk' dist unfolding ch linked_append [of h3 ps p "n # ns"]
    by (auto simp: h3_def link_simps)
  moreover have "set (chain (ys @ b # zs)) = insert b (set (chain (ys @ zs)))" by auto
  moreover have "{p, n} \<subseteq> set (chain (ys @ zs))" "b \<notin> {p, n}" unfolding ch using dist by auto
  moreover have "b \<noteq> FakeHead" "b \<noteq> FakeTail" "p \<noteq> FakeTail" "n \<noteq> FakeHead"
  proof -
    have "p \<in> set (FakeHead # ys)" "n \<in> set (zs @ [FakeTail])"
      unfolding p_def n_def by (intro last_in_set hd_in_set; simp)+
    with rep show "b \<noteq> FakeHead" "b \<noteq> FakeTail" "p \<noteq> FakeTail" "n \<noteq> FakeHead"
      by (auto simp: queue_rep_def)
  qed
  ultimately have "queue_rep q' (ys @ zs)"
    using rep by (auto simp: q'_def queue_rep_def unlinked_outside_def h3_def link_simps)
  moreover have "same_data (heap q) (heap q')" by (simp add: q'_def h3_def)
  ultimately show ?thesis using rm by blast
qed

lemma remove_not_free:
  assumes "queue_rep q xs" and "b \<notin> set xs"
  shows "remove b q = Inl RuntimeError"
  using assms by (cases b) (auto simp: queue_rep_def unlinked_outside_def remove_def split: option.splits)

text \<open>The loop of \<open>append_n\<close> builds a linked segment after \<open>last_block\<close>.\<close>

lemma append_n_loop_links:
  assumes "distinct (lb # bs)" and "append_n_loop bs h lb = (h', lb')"
  shows "lb' = last (lb # bs)" and "linked h' (lb # bs)" and "same_data h h'"
    and "c \<notin> set bs \<Longrightarrow> prev_free_block (h' c) = prev_free_block (h c)"
    and "c \<notin> set (butlast (lb # bs)) \<Longrightarrow> next_free_block (h' c) = next_free_block (h c)"
proof -
  have "lb' = last (lb # bs) \<and> linked h' (lb # bs) \<and> same_data h h' \<and>
      (\<forall>c. c \<notin> set bs \<longrightarrow> prev_free_block (h' c) = prev_free_block (h c)) \<and>
      (\<forall>c. c \<notin> set (butlast (lb # bs)) \<longrightarrow> next_free_block (h' c) = next_free_block (h c))"
    using assms
  proof (induction bs arbitrary: h lb)
    case (Cons b bs)
    define h1 where "h1 = set_next lb (Some b) (set_prev b (Some lb) h)"
    have IH: "lb' = last (b # bs) \<and> linked h' (b # bs) \<and> same_data h1 h' \<and>
        (\<forall>c. c \<notin> set bs \<longrightarrow> prev_free_block (h' c) = prev_free_block (h1 c)) \<and>
        (\<forall>c. c \<notin> set (butlast (b # bs)) \<longrightarrow> next_free_block (h' c) = next_free_block (h1 c))"
      using Cons.prems by (intro Cons.IH) (auto simp: h1_def)
    have "lb \<notin> set (butlast (b # bs))" using Cons.prems(1) by (auto dest: in_set_butlastD)
    with IH have "next_free_block (h' lb) = Some b" by (simp add: h1_def link_simps)
    moreover have "prev_free_block (h' b) = Some lb"
      using IH Cons.prems(1) by (simp add: h1_def link_simps)
    moreover have "same_data h h'"
      using IH by (auto intro: same_data_trans [of _ h1] simp: h1_def)
    ultimately show ?case using IH by (auto simp: h1_def link_simps)
  qed simp
  then show "lb' = last (lb # bs)" and "linked h' (lb # bs)" and "same_data h h'"
    and "c \<notin> set bs \<Longrightarrow> prev_free_block (h' c) = prev_free_block (h c)"
    and "c \<notin> set (butlast (lb # bs)) \<Longrightarrow> next_free_block (h' c) = next_free_block (h c)"
    by blast+
qed

text \<open>
  Appending blocks that are not in the queue and are not listed twice: the store gets
  the segment, and the old last block is linked to it.
\<close>

lemma append_n_refines:
  assumes rep: "queue_rep q xs" and new: "distinct bs" "set bs \<inter> set (chain xs) = {}"
  shows "\<exists>q'. append_n bs q = Inr q' \<and> queue_rep q' (xs @ bs) \<and> same_data (heap q) (heap q')"
proof (cases "bs = []")
  case True
  with rep show ?thesis by (simp add: append_n_def)
next
  case False
  define lb where "lb = last (FakeHead # xs)"
  obtain ps where ps: "FakeHead # xs = ps @ [lb]"
    using append_butlast_last_id [of "FakeHead # xs"] by (metis lb_def list.distinct(1))
  obtain h lb' where loop: "append_n_loop bs (heap q) lb = (h, lb')" by fastforce
  have "set (FakeHead # xs) = set (ps @ [lb])" using ps by simp
  then have set_ps: "insert FakeHead (set xs) = insert lb (set ps)" by simp
  have "distinct (ps @ [lb])" using rep by (simp add: queue_rep_def flip: ps)
  moreover have "lb \<in> insert FakeHead (set xs)" using set_ps by blast
  ultimately have dist: "distinct (lb # bs)" "lb \<notin> set ps"
    using new by auto
  have sep: "set bs \<inter> insert lb (set ps) = {}" using new by (simp flip: set_ps)
  note L = append_n_loop_links [OF dist(1) loop]
  define h' where "h' = set_prev FakeTail (Some lb') (set_next lb' (Some FakeTail) h)"
  define q' where "q' = \<lparr>heap = h', num_free_blocks = num_free_blocks q + int (length bs)\<rparr>"
  have app: "append_n bs q = Inr q'"
    using False queue_rep_last [OF rep] loop
    by (simp add: append_n_def q'_def h'_def lb_def)
  have lb': "lb' = last bs" "lb' \<in> set bs" using L(1) False by auto
  have tail: "FakeTail \<notin> set (ps @ lb # bs)" "FakeHead \<notin> set bs" "FakeTail \<noteq> lb'"
    using rep new set_ps lb' by (auto simp: queue_rep_def)
  have "chain xs = ps @ lb # [FakeTail]" using ps by (simp add: chain_def)
  then have "linked (heap q) (ps @ [lb])"
    using rep linked_append [of "heap q" ps lb "[FakeTail]"] by (simp add: queue_rep_def)
  moreover have "linked h' (ps @ [lb]) = linked (heap q) (ps @ [lb])"
  proof (rule linked_cong)
    fix b assume "b \<in> set (butlast (ps @ [lb]))"
    then have "b \<in> set ps" "b \<noteq> lb'" "b \<notin> set (butlast (lb # bs))"
      using dist sep lb' by (auto dest!: in_set_butlastD split: if_splits)
    then show "next_free_block (h' b) = next_free_block (heap q b)"
      by (simp add: h'_def link_simps L(5))
  next
    fix b assume "b \<in> set (tl (ps @ [lb]))"
    then have "b \<in> insert lb (set ps)" by (cases ps) auto
    then have "b \<notin> set bs" "b \<noteq> FakeTail" using sep tail by auto
    then show "prev_free_block (h' b) = prev_free_block (heap q b)"
      by (simp add: h'_def link_simps L(4))
  qed
  moreover have "linked h' (lb # bs @ [FakeTail])"
  proof -
    obtain cs where cs: "lb # bs = cs @ [lb']"
      using append_butlast_last_id [of "lb # bs"] L(1) by (metis list.distinct(1))
    have cs': "distinct (cs @ [lb'])" "set (tl (cs @ [lb'])) = set bs"
      using dist(1) by (simp_all flip: cs)
    have "linked h' (cs @ [lb']) = linked h (cs @ [lb'])"
      using cs' tail by (intro linked_cong) (auto simp: h'_def link_simps)
    then have "linked h' (cs @ [lb'])" using L(2) cs by simp
    then have "linked h' (cs @ [lb', FakeTail])"
      unfolding linked_append [of h' cs lb' "[FakeTail]"] using tail by (simp add: h'_def link_simps)
    moreover have "lb # bs @ [FakeTail] = cs @ [lb', FakeTail]"
      using arg_cong [OF cs, of "\<lambda>l. l @ [FakeTail]"] by simp
    ultimately show ?thesis by (simp only:)
  qed
  moreover have "chain (xs @ bs) = ps @ lb # bs @ [FakeTail]"
    using arg_cong [OF ps, of "\<lambda>l. l @ bs @ [FakeTail]"] by (simp add: chain_def)
  ultimately have "linked h' (chain (xs @ bs))"
    by (simp add: linked_append [of h' ps lb "bs @ [FakeTail]"])
  moreover have "unlinked_outside h' (xs @ bs)"
  proof -
    have "prev_free_block (h' FakeHead) = None"
      using rep tail by (simp add: h'_def link_simps L(4) queue_rep_def unlinked_outside_def)
    moreover have "next_free_block (h' FakeTail) = None"
    proof -
      have "FakeTail \<notin> set (butlast (lb # bs))" using tail by (auto dest: in_set_butlastD)
      then show ?thesis
        using rep tail by (simp add: h'_def link_simps L(5) queue_rep_def unlinked_outside_def)
    qed
    moreover have "prev_free_block (h' b) = None \<and> next_free_block (h' b) = None"
      if b: "b \<notin> set (chain (xs @ bs))" for b
    proof -
      have "b \<notin> set bs" "b \<notin> set (butlast (lb # bs))" "b \<noteq> lb'" "b \<noteq> FakeTail"
        using b lb' set_ps by (auto dest!: in_set_butlastD split: if_splits)
      then show ?thesis
        using rep b by (simp add: h'_def link_simps L(4,5) queue_rep_def unlinked_outside_def)
    qed
    ultimately show ?thesis by (simp add: unlinked_outside_def)
  qed
  ultimately have "queue_rep q' (xs @ bs)"
    using rep new by (auto simp: q'_def queue_rep_def)
  moreover have "same_data (heap q) (heap q')" using L(3) by (simp add: q'_def h'_def)
  ultimately show ?thesis using app by blast
qed

text \<open>Appending one block is the singleton case, although the code writes the links in another order.\<close>

lemma append_block_eq_append_n:
  assumes "b \<noteq> FakeTail" and "prev_free_block (heap q FakeTail) \<noteq> Some b"
    and "prev_free_block (heap q FakeTail) \<noteq> None"
  shows "append_block b q = append_n [b] q"
  using assms
  by (auto simp: append_block_def append_n_def set_prev_def set_next_def fun_eq_iff)

lemma append_block_refines:
  assumes "queue_rep q xs" and "b \<notin> set (chain xs)"
  shows "\<exists>q'. append_block b q = Inr q' \<and> queue_rep q' (xs @ [b]) \<and> same_data (heap q) (heap q')"
proof -
  have "last (FakeHead # xs) \<in> set (chain xs)"
    using last_in_set [of "FakeHead # xs"] by (simp split: if_splits)
  then have "append_block b q = append_n [b] q"
    using assms queue_rep_last [OF assms(1)] by (intro append_block_eq_append_n) auto
  with append_n_refines [OF assms(1), of "[b]"] assms(2) show ?thesis by auto
qed

text \<open>The walk over a well-formed queue ends at the fake tail.\<close>

lemma collect_free_walk:
  assumes "linked h (xs @ [t])" and "next_free_block (h t) = None"
  shows "collect_free h (hd (xs @ [t])) ret = Some (ret @ xs)"
  using assms(1)
proof (induction xs arbitrary: ret)
  case Nil
  then show ?case using assms(2) by (simp add: collect_free.simps)
next
  case (Cons x xs)
  then have "next_free_block (h x) = Some (hd (xs @ [t]))" "linked h (xs @ [t])"
    by (cases xs; simp)+
  with Cons.IH [of "ret @ [x]"] show ?case by (simp add: collect_free.simps [of h x])
qed

lemma get_all_free_blocks_rep:
  assumes "queue_rep q xs"
  shows "get_all_free_blocks q = Some (Inr xs)"
proof -
  have "linked (heap q) (xs @ [FakeTail])" "next_free_block (heap q FakeTail) = None"
    using assms linked_tl [of "heap q" FakeHead "xs @ [FakeTail]"]
    by (auto simp: queue_rep_def chain_def unlinked_outside_def)
  from collect_free_walk [OF this] queue_rep_first [OF assms] show ?thesis
    by (simp add: get_all_free_blocks_def)
qed

section \<open>The constructor\<close>

lemma linked_nth:
  "linked h xs \<longleftrightarrow>
     (\<forall>i. Suc i < length xs \<longrightarrow>
        next_free_block (h (xs ! i)) = Some (xs ! Suc i) \<and>
        prev_free_block (h (xs ! Suc i)) = Some (xs ! i))"
proof (induction h xs rule: linked.induct)
  case (1 h a b rest)
  then show ?case by (auto simp: nth_Cons' less_Suc_eq_0_disj)
qed auto

lemma fold_link_step_data: "same_data h (fold (link_step bs) is h') = same_data h h'"
  by (induction "is" arbitrary: h') (simp_all add: link_step_def Let_def)

lemma link_step_other:
  assumes "c \<notin> set bs" and "i < length bs"
  shows "link_step bs i h c = h c"
proof -
  have "c \<noteq> bs ! i" using assms by auto
  then show ?thesis by (simp add: link_step_def Let_def set_prev_def set_next_def)
qed

lemma fold_link_step_other:
  "c \<notin> set bs \<Longrightarrow> set is \<subseteq> {..<length bs} \<Longrightarrow> fold (link_step bs) is h c = h c"
  by (induction "is" arbitrary: h) (simp_all add: link_step_other)

lemma fold_link_step_links:
  assumes "distinct bs" and "k \<le> length bs" and "j < length bs"
  shows "prev_free_block (fold (link_step bs) [0..<k] h (bs ! j)) =
           (if 0 < j \<and> j < k then Some (bs ! (j - 1)) else prev_free_block (h (bs ! j))) \<and>
         next_free_block (fold (link_step bs) [0..<k] h (bs ! j)) =
           (if j < k \<and> j < length bs - 1 then Some (bs ! (j + 1)) else next_free_block (h (bs ! j)))"
  using assms(2)
proof (induction k)
  case (Suc k)
  have ne: "bs ! j = bs ! k \<longleftrightarrow> j = k" using Suc.prems assms by (simp add: nth_eq_iff_index_eq)
  show ?case using Suc ne by (auto simp: link_step_def Let_def link_simps)
qed simp

lemma init_free_queue_rep:
  assumes bs: "distinct bs" "FakeHead \<notin> set bs" "FakeTail \<notin> set bs"
    and fresh: "\<And>b. prev_free_block (h b) = None \<and> next_free_block (h b) = None"
  shows "queue_rep (init_free_queue h bs) bs"
    and "\<And>b. b \<noteq> FakeHead \<Longrightarrow> b \<noteq> FakeTail \<Longrightarrow>
           block_id (heap (init_free_queue h bs) b) = block_id (h b) \<and>
           ref_cnt (heap (init_free_queue h bs) b) = ref_cnt (h b) \<and>
           block_hash (heap (init_free_queue h bs) b) = block_hash (h b) \<and>
           is_null (heap (init_free_queue h bs) b) = is_null (h b)"
proof -
  define h1 where "h1 = fold (link_step bs) [0..<length bs] h"
  define h2 where "h2 = h1(FakeHead := new_kv_cache_block (-1), FakeTail := new_kv_cache_block (-1))"
  have data: "same_data h h1" by (simp add: h1_def fold_link_step_data)
  have other: "h1 c = h c" if "c \<notin> set bs" for c
    unfolding h1_def using that by (intro fold_link_step_other) auto
  have h2: "prev_free_block (h2 c) = (if c = FakeHead \<or> c = FakeTail then None else prev_free_block (h1 c))"
    "next_free_block (h2 c) = (if c = FakeHead \<or> c = FakeTail then None else next_free_block (h1 c))" for c
    by (simp_all add: h2_def new_kv_cache_block_def)
  have lk1: "linked h1 bs"
    using bs by (auto simp: linked_nth h1_def fold_link_step_links)
  show "queue_rep (init_free_queue h bs) bs"
  proof (cases "bs = []")
    case True
    then show ?thesis
      using fresh h2 other
      by (auto simp: init_free_queue_def queue_rep_def unlinked_outside_def link_simps
          new_kv_cache_block_def)
  next
    case False
    define h3 where "h3 = set_next (last bs) (Some FakeTail) (set_prev FakeTail (Some (last bs))
        (set_prev (hd bs) (Some FakeHead) (set_next FakeHead (Some (hd bs)) h2)))"
    have q: "init_free_queue h bs = \<lparr>heap = h3, num_free_blocks = int (length bs)\<rparr>"
      using False by (simp add: init_free_queue_def h3_def h2_def h1_def)
    have ends: "hd bs \<in> set bs" "last bs \<in> set bs" using False by auto
    obtain cs where cs: "bs = cs @ [last bs]" using False by (metis append_butlast_last_id)
    have "linked h3 bs = linked h1 bs"
    proof (rule linked_cong)
      fix b assume "b \<in> set (butlast bs)"
      then have "b \<noteq> last bs" "b \<in> set bs"
        using bs(1) cs by (metis butlast_snoc distinct_append disjoint_insert(1) list.set(2), metis in_set_butlastD)
      then show "next_free_block (h3 b) = next_free_block (h1 b)"
        using bs by (auto simp: h3_def link_simps h2)
    next
      fix b assume "b \<in> set (tl bs)"
      then have "b \<noteq> hd bs" "b \<in> set bs"
        using bs(1) False by (cases bs; auto)+
      then show "prev_free_block (h3 b) = prev_free_block (h1 b)"
        using bs by (auto simp: h3_def link_simps h2)
    qed
    with lk1 have "linked h3 (FakeHead # bs)"
      using False bs ends by (cases bs) (auto simp: h3_def link_simps)
    then have "linked h3 (chain bs)"
    proof -
      assume "linked h3 (FakeHead # bs)"
      then have "linked h3 ((FakeHead # cs) @ [last bs])" using cs by simp
      then have "linked h3 ((FakeHead # cs) @ last bs # [FakeTail])"
        unfolding linked_append [of h3 "FakeHead # cs" "last bs" "[FakeTail]"]
        using bs ends by (auto simp: h3_def link_simps)
      moreover have "chain bs = (FakeHead # cs) @ last bs # [FakeTail]"
        using arg_cong [OF cs, of chain] by (simp add: chain_def)
      ultimately show ?thesis by (simp only:)
    qed
    moreover have "unlinked_outside h3 bs"
      using bs ends fresh other by (auto simp: unlinked_outside_def h3_def link_simps h2)
    ultimately show ?thesis using bs by (simp add: q queue_rep_def)
  qed
  show "block_id (heap (init_free_queue h bs) b) = block_id (h b) \<and>
        ref_cnt (heap (init_free_queue h bs) b) = ref_cnt (h b) \<and>
        block_hash (heap (init_free_queue h bs) b) = block_hash (h b) \<and>
        is_null (heap (init_free_queue h bs) b) = is_null (h b)"
    if "b \<noteq> FakeHead" "b \<noteq> FakeTail" for b
    using that data
    by (simp add: init_free_queue_def Let_def link_simps h1_def [symmetric] same_data_def)
qed

section \<open>The interface the block pool relies on\<close>

text \<open>
  The free list as its client sees it: a queue with a store inside, the list of free
  blocks it stands for, and the three operations of the pool. Writing an attribute that
  is not a link leaves the list as it is.
\<close>

locale free_block_list =
  fixes rep :: "'q \<Rightarrow> ref list \<Rightarrow> bool"
    and store_of :: "'q \<Rightarrow> store"
    and put_store :: "store \<Rightarrow> 'q \<Rightarrow> 'q"
    and free_count :: "'q \<Rightarrow> int"
    and pop_n :: "int \<Rightarrow> 'q \<Rightarrow> (ref list \<times> 'q) res"
    and del :: "ref \<Rightarrow> 'q \<Rightarrow> 'q res"
    and app_n :: "ref list \<Rightarrow> 'q \<Rightarrow> 'q res"
  assumes rep_distinct: "rep q xs \<Longrightarrow> distinct xs"
    and rep_count: "rep q xs \<Longrightarrow> free_count q = int (length xs)"
    and rep_put_store: "rep q xs \<Longrightarrow> same_links (store_of q) h \<Longrightarrow> rep (put_store h q) xs"
    and store_put_store: "store_of (put_store h q) = h"
    and pop_n_law: "rep q xs \<Longrightarrow> 0 \<le> n \<Longrightarrow> n \<le> int (length xs) \<Longrightarrow>
      \<exists>q'. pop_n n q = Inr (take (nat n) xs, q') \<and> rep q' (drop (nat n) xs) \<and>
           same_data (store_of q) (store_of q')"
    and del_law: "rep q xs \<Longrightarrow> b \<in> set xs \<Longrightarrow>
      \<exists>q'. del b q = Inr q' \<and> rep q' (remove1 b xs) \<and> same_data (store_of q) (store_of q')"
    and app_n_law: "rep q xs \<Longrightarrow> distinct bs \<Longrightarrow> set bs \<inter> set xs = {} \<Longrightarrow> set bs \<subseteq> range Blk \<Longrightarrow>
      \<exists>q'. app_n bs q = Inr q' \<and> rep q' (xs @ bs) \<and> same_data (store_of q) (store_of q')"
begin

text \<open>Blocks given back and taken again come out oldest first, whatever was free before.\<close>

lemma recycle_order:
  assumes "rep q xs" and "distinct bs" and "set bs \<inter> set xs = {}" and "set bs \<subseteq> range Blk"
  shows "\<exists>q' q''. app_n bs q = Inr q' \<and>
    pop_n (int (length xs + length bs)) q' = Inr (xs @ bs, q'') \<and> rep q'' []"
proof -
  obtain q' where q': "app_n bs q = Inr q'" "rep q' (xs @ bs)"
    using app_n_law [OF assms] by blast
  obtain q'' where "pop_n (int (length xs + length bs)) q' = Inr (xs @ bs, q'')" "rep q'' []"
    using pop_n_law [OF q'(2), of "int (length xs + length bs)"] by (auto simp: nat_int_add)
  with q'(1) show ?thesis by blast
qed

text \<open>The number the client reads is always the number of blocks it can take.\<close>

lemma pop_n_count:
  assumes "rep q xs" and "0 \<le> n" and "n \<le> free_count q"
  shows "\<exists>bs q'. pop_n n q = Inr (bs, q') \<and> int (length bs) = n \<and>
    free_count q' = free_count q - n"
proof -
  have n: "n \<le> int (length xs)" using assms rep_count by simp
  then obtain q' where q': "pop_n n q = Inr (take (nat n) xs, q')" "rep q' (drop (nat n) xs)"
    using pop_n_law [OF assms(1,2)] by blast
  have "free_count q' = free_count q - n"
    using rep_count [OF q'(2)] rep_count [OF assms(1)] n assms(2) by (simp add: of_nat_diff)
  with q' n assms(2) show ?thesis by auto
qed

end

interpretation lq: free_block_list queue_rep heap "\<lambda>h q. q\<lparr>heap := h\<rparr>" num_free_blocks
  popleft_n remove append_n
proof (unfold_locales, goal_cases)
  case (1 q xs)
  then show ?case by (simp add: queue_rep_def)
next
  case (2 q xs)
  then show ?case by (simp add: queue_rep_def)
next
  case (3 q xs h)
  then show ?case by (rule queue_rep_same_links)
next
  case (4 h q)
  show ?case by simp
next
  case (5 q xs n)
  then show ?case by (rule popleft_n_refines)
next
  case (6 q xs b)
  then obtain ys zs where "xs = ys @ b # zs" "b \<notin> set ys"
    by (meson split_list_first)
  with 6 remove_refines [of q ys b zs] show ?case by (auto simp: remove1_append)
next
  case (7 q xs bs)
  then have "set bs \<inter> set (chain xs) = {}" by auto
  with 7 append_n_refines [of q xs bs] show ?case by blast
qed

section \<open>Simulation\<close>

text \<open>
  The linked queue against the list it stands for, over whole sequences of operations:
  \<open>queue_op_abs\<close> is the specification, on lists, errors included.
\<close>

datatype queue_op = PopLeft | PopLeftN int | Remove ref | Append ref | AppendN "ref list"

fun queue_op_run :: "queue_op \<Rightarrow> free_queue \<Rightarrow> (ref list \<times> free_queue) res" where
  "queue_op_run PopLeft q = bindE (popleft q) (\<lambda>(b, q'). Inr ([b], q'))"
| "queue_op_run (PopLeftN n) q = popleft_n n q"
| "queue_op_run (Remove b) q = bindE (remove b q) (\<lambda>q'. Inr ([], q'))"
| "queue_op_run (Append b) q = bindE (append_block b q) (\<lambda>q'. Inr ([], q'))"
| "queue_op_run (AppendN bs) q = bindE (append_n bs q) (\<lambda>q'. Inr ([], q'))"

fun queue_op_abs :: "queue_op \<Rightarrow> ref list \<Rightarrow> (ref list \<times> ref list) res" where
  "queue_op_abs PopLeft xs = (case xs of [] \<Rightarrow> Inl ValueError | x # ys \<Rightarrow> Inr ([x], ys))"
| "queue_op_abs (PopLeftN n) xs =
     (if n \<le> int (length xs) then Inr (take (nat n) xs, drop (nat n) xs) else Inl AssertionError)"
| "queue_op_abs (Remove b) xs = (if b \<in> set xs then Inr ([], remove1 b xs) else Inl RuntimeError)"
| "queue_op_abs (Append b) xs = Inr ([], xs @ [b])"
| "queue_op_abs (AppendN bs) xs = Inr ([], xs @ bs)"

text \<open>What a caller owes: it appends real blocks that are not free already.\<close>

fun queue_op_ok :: "queue_op \<Rightarrow> ref list \<Rightarrow> bool" where
  "queue_op_ok PopLeft xs \<longleftrightarrow> True"
| "queue_op_ok (PopLeftN n) xs \<longleftrightarrow> 0 \<le> n"
| "queue_op_ok (Remove b) xs \<longleftrightarrow> True"
| "queue_op_ok (Append b) xs \<longleftrightarrow> b \<noteq> FakeHead \<and> b \<noteq> FakeTail \<and> b \<notin> set xs"
| "queue_op_ok (AppendN bs) xs \<longleftrightarrow>
     distinct bs \<and> FakeHead \<notin> set bs \<and> FakeTail \<notin> set bs \<and> set bs \<inter> set xs = {}"

fun queue_ops_run :: "queue_op list \<Rightarrow> free_queue \<Rightarrow> (ref list list \<times> free_queue) res" where
  "queue_ops_run [] q = Inr ([], q)"
| "queue_ops_run (a # as) q =
     bindE (queue_op_run a q) (\<lambda>(out, q').
       bindE (queue_ops_run as q') (\<lambda>(outs, q''). Inr (out # outs, q'')))"

fun queue_ops_abs :: "queue_op list \<Rightarrow> ref list \<Rightarrow> (ref list list \<times> ref list) res" where
  "queue_ops_abs [] xs = Inr ([], xs)"
| "queue_ops_abs (a # as) xs =
     bindE (queue_op_abs a xs) (\<lambda>(out, ys).
       bindE (queue_ops_abs as ys) (\<lambda>(outs, zs). Inr (out # outs, zs)))"

fun queue_ops_ok :: "queue_op list \<Rightarrow> ref list \<Rightarrow> bool" where
  "queue_ops_ok [] xs \<longleftrightarrow> True"
| "queue_ops_ok (a # as) xs \<longleftrightarrow>
     queue_op_ok a xs \<and>
     (case queue_op_abs a xs of Inl _ \<Rightarrow> True | Inr (_, ys) \<Rightarrow> queue_ops_ok as ys)"

definition queue_sim :: "('o \<times> free_queue) res \<Rightarrow> ('o \<times> ref list) res \<Rightarrow> bool" where
  "queue_sim c a \<longleftrightarrow>
     (case a of
        Inl e \<Rightarrow> c = Inl e
      | Inr (out, xs) \<Rightarrow> (\<exists>q. c = Inr (out, q) \<and> queue_rep q xs))"

lemma queue_op_simulation:
  assumes rep: "queue_rep q xs" and ok: "queue_op_ok a xs"
  shows "queue_sim (queue_op_run a q) (queue_op_abs a xs)"
proof (cases a)
  case PopLeft
  show ?thesis
  proof (cases xs)
    case Nil
    with PopLeft rep show ?thesis by (simp add: queue_sim_def popleft_empty)
  next
    case (Cons x ys)
    with PopLeft rep popleft_refines [of q x ys] show ?thesis by (auto simp: queue_sim_def)
  qed
next
  case (PopLeftN n)
  show ?thesis
  proof (cases "n \<le> int (length xs)")
    case True
    with PopLeftN rep ok popleft_n_refines [of q xs n] show ?thesis
      by (auto simp: queue_sim_def)
  next
    case False
    with PopLeftN rep ok show ?thesis
      by (simp add: queue_sim_def popleft_n_def queue_rep_def assertE_def)
  qed
next
  case (Remove b)
  with rep show ?thesis
    using lq.del_law [OF rep, of b] by (auto simp: queue_sim_def remove_not_free)
next
  case (Append b)
  with rep ok append_block_refines [of q xs b] show ?thesis by (auto simp: queue_sim_def)
next
  case (AppendN bs)
  with rep ok append_n_refines [of q xs bs] show ?thesis by (auto simp: queue_sim_def)
qed

lemma queue_ops_simulation:
  "queue_rep q xs \<Longrightarrow> queue_ops_ok as xs \<Longrightarrow> queue_sim (queue_ops_run as q) (queue_ops_abs as xs)"
proof (induction as arbitrary: q xs)
  case Nil
  then show ?case by (simp add: queue_sim_def)
next
  case (Cons a as)
  then have sim: "queue_sim (queue_op_run a q) (queue_op_abs a xs)"
    by (simp add: queue_op_simulation)
  show ?case
  proof (cases "queue_op_abs a xs")
    case (Inl e)
    with sim show ?thesis by (simp add: queue_sim_def)
  next
    case (Inr r)
    obtain out ys where r: "r = (out, ys)" by (cases r)
    with sim Inr obtain q' where q': "queue_op_run a q = Inr (out, q')" "queue_rep q' ys"
      by (auto simp: queue_sim_def)
    then have "queue_sim (queue_ops_run as q') (queue_ops_abs as ys)"
      using Cons.IH [of q' ys] Cons.prems(2) Inr r by simp
    with q' Inr r show ?thesis
      by (auto simp: queue_sim_def split: sum.splits prod.splits)
  qed
qed

section \<open>The queue property\<close>

text \<open>
  C9. Build a queue over any distinct real blocks and run any sequence of \<^verbatim>\<open>popleft\<close>,
  \<^verbatim>\<open>popleft_n\<close>, \<^verbatim>\<open>remove\<close>, \<^verbatim>\<open>append\<close> and \<^verbatim>\<open>append_n\<close> in which appended blocks are
  not free already. The linked queue raises the exception, or returns the blocks, that
  the plain list of free blocks gives, and \<^verbatim>\<open>get_all_free_blocks\<close> then terminates and
  returns that list in eviction order.
\<close>

theorem free_queue_simulates_list:
  assumes "distinct bs" and "FakeHead \<notin> set bs" and "FakeTail \<notin> set bs"
    and "\<forall>b. prev_free_block (h b) = None \<and> next_free_block (h b) = None"
    and "queue_ops_ok as bs"
  shows "case queue_ops_abs as bs of
           Inl e \<Rightarrow> queue_ops_run as (init_free_queue h bs) = Inl e
         | Inr (outs, xs) \<Rightarrow>
             (\<exists>q. queue_ops_run as (init_free_queue h bs) = Inr (outs, q) \<and>
                  num_free_blocks q = int (length xs) \<and>
                  get_all_free_blocks q = Some (Inr xs))"
proof -
  have "queue_rep (init_free_queue h bs) bs"
    using assms by (intro init_free_queue_rep) auto
  from queue_ops_simulation [OF this assms(5)] show ?thesis
    by (auto simp: queue_sim_def get_all_free_blocks_rep lq.rep_count
        split: sum.splits prod.splits)
qed

theorem free_queue_simulates_list_witness:
  "\<exists>q. queue_ops_run [PopLeftN 2, Append (Blk 0), Remove (Blk 3), PopLeft]
         (init_free_queue (\<lambda>_. new_kv_cache_block 0) [Blk 0, Blk 1, Blk 2, Blk 3]) =
         Inr ([[Blk 0, Blk 1], [], [], [Blk 2]], q) \<and>
       num_free_blocks q = int (length [Blk 0]) \<and> get_all_free_blocks q = Some (Inr [Blk 0])"
  using free_queue_simulates_list
    [of "[Blk 0, Blk 1, Blk 2, Blk 3]" "\<lambda>_. new_kv_cache_block 0"
       "[PopLeftN 2, Append (Blk 0), Remove (Blk 3), PopLeft]"]
  by (simp add: new_kv_cache_block_def)

end
