(* ===== verification/Block_Map.thy ===== *)
theory Block_Map
  imports Free_Block_Queue "HOL-Library.AList"
begin

text \<open>
  \<^verbatim>\<open>BlockHashToBlockMap\<close> of \<^verbatim>\<open>vllm/v1/core/block_pool.py\<close>: from a cache key to one block or,
  when several blocks hold the same content, to a dictionary of them by block id in insertion
  order.

  \<open>blocks_at m key\<close> is the set of blocks a key stands for. The locale \<open>block_cache\<close> states what
  the pool relies on (an insertion adds one block to one key, a pop removes one, a lookup gives a
  block of the key or nothing exactly when there is none) and is interpreted on the map.
\<close>

datatype cached_blocks = OneBlock ref | BlockDict "(int \<times> ref) list"

type_synonym block_map = "byte_string \<Rightarrow> cached_blocks option"

text \<open>\<^verbatim>\<open>next(iter(...))\<close> raises on an empty dictionary.\<close>

definition get_one_block :: "block_map \<Rightarrow> byte_string \<Rightarrow> ref option res" where
  "get_one_block m key =
     (case m key of
        None \<Rightarrow> Inr None
      | Some (OneBlock b) \<Rightarrow> Inr (Some b)
      | Some (BlockDict d) \<Rightarrow> (case d of [] \<Rightarrow> Inl StopIteration | (_, b) # _ \<Rightarrow> Inr (Some b)))"

text \<open>\<open>ids\<close> reads the attribute \<^verbatim>\<open>block_id\<close> of a block.\<close>

definition map_insert :: "(ref \<Rightarrow> int) \<Rightarrow> byte_string \<Rightarrow> ref \<Rightarrow> block_map \<Rightarrow> block_map" where
  "map_insert ids key b m =
     (case m key of
        None \<Rightarrow> m(key \<mapsto> OneBlock b)
      | Some (OneBlock b0) \<Rightarrow> m(key \<mapsto> BlockDict (AList.update (ids b) b [(ids b0, b0)]))
      | Some (BlockDict d) \<Rightarrow> m(key \<mapsto> BlockDict (AList.update (ids b) b d)))"

definition map_pop :: "(ref \<Rightarrow> int) \<Rightarrow> byte_string \<Rightarrow> int \<Rightarrow> block_map \<Rightarrow> ref option \<times> block_map" where
  "map_pop ids key bid m =
     (case m key of
        None \<Rightarrow> (None, m(key := None))
      | Some (OneBlock b) \<Rightarrow>
          if ids b = bid then (Some b, m(key := None)) else (None, m(key \<mapsto> OneBlock b))
      | Some (BlockDict d) \<Rightarrow>
          let d' = AList.delete bid d
          in (map_of d bid, if 0 < length d' then m(key \<mapsto> BlockDict d') else m(key := None)))"

section \<open>What the map stands for\<close>

fun blocks_of :: "cached_blocks option \<Rightarrow> ref set" where
  "blocks_of None = {}"
| "blocks_of (Some (OneBlock b)) = {b}"
| "blocks_of (Some (BlockDict d)) = snd ` set d"

definition blocks_at :: "block_map \<Rightarrow> byte_string \<Rightarrow> ref set" where
  "blocks_at m key = blocks_of (m key)"

fun entry_wf :: "(ref \<Rightarrow> int) \<Rightarrow> cached_blocks option \<Rightarrow> bool" where
  "entry_wf ids (Some (BlockDict d)) \<longleftrightarrow>
     d \<noteq> [] \<and> distinct (map fst d) \<and> (\<forall>p \<in> set d. fst p = ids (snd p))"
| "entry_wf ids _ \<longleftrightarrow> True"

definition map_wf :: "(ref \<Rightarrow> int) \<Rightarrow> block_map \<Rightarrow> bool" where
  "map_wf ids m \<longleftrightarrow> (\<forall>key. entry_wf ids (m key))"

lemma map_wf_empty [simp]: "map_wf ids Map.empty"
  by (simp add: map_wf_def)

lemma blocks_at_empty [simp]: "blocks_at Map.empty key = {}"
  by (simp add: blocks_at_def)

lemma get_one_block_some:
  assumes "map_wf ids m"
  shows "\<exists>r. get_one_block m key = Inr r \<and> (r = None \<longleftrightarrow> blocks_at m key = {}) \<and>
           (\<forall>b. r = Some b \<longrightarrow> b \<in> blocks_at m key)"
proof (cases "m key")
  case (Some c)
  have "entry_wf ids (m key)" using assms by (simp add: map_wf_def)
  with Some show ?thesis
    by (cases c) (auto simp: get_one_block_def blocks_at_def split: list.splits)
qed (simp add: get_one_block_def blocks_at_def)

lemma map_insert_wf: "map_wf ids m \<Longrightarrow> map_wf ids (map_insert ids key b m)"
proof -
  assume wf: "map_wf ids m"
  have upd: "\<forall>p \<in> set (AList.update (ids b) b d). fst p = ids (snd p)"
    if "\<forall>p \<in> set d. fst p = ids (snd p)" for d
    using that by (induction d) auto
  have "entry_wf ids (map_insert ids key b m k)" for k
  proof (cases "k = key")
    case True
    have "entry_wf ids (m key)" using wf by (simp add: map_wf_def)
    then show ?thesis
    proof (cases "m key")
      case (Some c)
      with \<open>entry_wf ids (m key)\<close> True upd show ?thesis
        by (cases c) (auto simp: map_insert_def distinct_update update_nonempty)
    qed (simp add: map_insert_def True)
  next
    case False
    then have "map_insert ids key b m k = m k"
      by (auto simp: map_insert_def split: option.splits cached_blocks.splits)
    then show ?thesis using wf by (simp add: map_wf_def)
  qed
  then show ?thesis by (simp add: map_wf_def)
qed

lemma snd_set_update:
  assumes "\<forall>p \<in> set d. fst p = ids (snd p)" "inj_on ids (insert b (snd ` set d))"
  shows "snd ` set (AList.update (ids b) b d) = insert b (snd ` set d)"
  using assms
proof (induction d)
  case (Cons p d)
  obtain j c where p: "p = (j, c)" by (cases p)
  have j: "j = ids c" using Cons.prems(1) p by simp
  show ?case
  proof (cases "ids c = ids b")
    case True
    then have "c = b" using inj_onD [OF Cons.prems(2) True] p by simp
    with True j p show ?thesis by simp
  next
    case False
    moreover have "inj_on ids (insert b (snd ` set d))"
      using Cons.prems(2) by (rule inj_on_subset) auto
    ultimately show ?thesis using Cons j p by auto
  qed
qed simp

lemma blocks_at_insert:
  assumes "map_wf ids m" "inj_on ids (insert b (blocks_at m key))"
  shows "blocks_at (map_insert ids key b m) k =
           (if k = key then insert b (blocks_at m key) else blocks_at m k)"
proof (cases "k = key")
  case False
  then show ?thesis
    by (auto simp: blocks_at_def map_insert_def split: option.splits cached_blocks.splits)
next
  case True
  have wf: "entry_wf ids (m key)" using assms(1) by (simp add: map_wf_def)
  show ?thesis
  proof (cases "m key")
    case (Some c)
    show ?thesis
    proof (cases c)
      case (OneBlock b0)
      with Some have "ids b = ids b0 \<Longrightarrow> b = b0"
        using inj_onD [OF assms(2), of b b0] by (simp add: blocks_at_def)
      with Some OneBlock True show ?thesis by (auto simp: blocks_at_def map_insert_def)
    next
      case (BlockDict d)
      with Some wf assms(2) True snd_set_update [of d ids b] show ?thesis
        by (simp add: blocks_at_def map_insert_def)
    qed
  qed (simp add: True blocks_at_def map_insert_def)
qed

lemma map_pop_wf:
  assumes "map_wf ids m"
  shows "map_wf ids (snd (map_pop ids key bid m))"
proof -
  have "entry_wf ids (snd (map_pop ids key bid m) k)" for k
  proof (cases "k = key")
    case True
    have wf: "entry_wf ids (m key)" using assms by (simp add: map_wf_def)
    then show ?thesis using True
      by (cases "m key" rule: blocks_of.cases)
        (auto simp: map_pop_def Let_def AList.delete_eq distinct_map_filter)
  next
    case False
    then have "snd (map_pop ids key bid m) k = m k"
      by (auto simp: map_pop_def Let_def split: option.splits cached_blocks.splits)
    then show ?thesis using assms by (simp add: map_wf_def)
  qed
  then show ?thesis by (simp add: map_wf_def)
qed

lemma snd_set_delete:
  assumes "\<forall>p \<in> set d. fst p = ids (snd p)" "inj_on ids (insert b (snd ` set d))"
  shows "snd ` set (AList.delete (ids b) d) = snd ` set d - {b}"
proof -
  have key: "ids b \<noteq> fst p \<longleftrightarrow> snd p \<noteq> b" if "p \<in> set d" for p
    using that assms(1) inj_onD [OF assms(2), of "snd p" b] by auto
  have "set (AList.delete (ids b) d) = {p \<in> set d. ids b \<noteq> fst p}"
    by (auto simp: AList.delete_eq)
  also have "\<dots> = {p \<in> set d. snd p \<noteq> b}" using key by blast
  finally show ?thesis by auto
qed

lemma map_of_ids:
  assumes "\<forall>p \<in> set d. fst p = ids (snd p)" "inj_on ids (insert b (snd ` set d))"
  shows "map_of d (ids b) = (if b \<in> snd ` set d then Some b else None)"
proof (cases "b \<in> snd ` set d")
  case True
  then obtain c where c: "map_of d (ids b) = Some c"
    using assms(1) by (metis (no_types, lifting) image_iff map_of_eq_None_iff not_Some_eq)
  then have "(ids b, c) \<in> set d" by (rule map_of_SomeD)
  with assms(1) have "c \<in> snd ` set d" "ids b = ids c" by force+
  with inj_onD [OF assms(2), of b c] c True show ?thesis by simp
next
  case False
  then have "map_of d (ids b) = None"
    using assms(1) inj_onD [OF assms(2), of b] by (force simp: map_of_eq_None_iff)
  with False show ?thesis by simp
qed

lemma map_pop_spec:
  assumes "map_wf ids m" "inj_on ids (insert b (blocks_at m key))"
  shows "fst (map_pop ids key (ids b) m) = (if b \<in> blocks_at m key then Some b else None)"
    and "blocks_at (snd (map_pop ids key (ids b) m)) k =
           (if k = key then blocks_at m key - {b} else blocks_at m k)"
proof -
  have wf: "entry_wf ids (m key)" using assms(1) by (simp add: map_wf_def)
  consider "m key = None" | b0 where "m key = Some (OneBlock b0)" | d where "m key = Some (BlockDict d)"
    by (cases "m key" rule: blocks_of.cases) auto
  then show "fst (map_pop ids key (ids b) m) = (if b \<in> blocks_at m key then Some b else None)"
  proof cases
    case (2 b0)
    with inj_onD [OF assms(2), of b b0] show ?thesis by (auto simp: map_pop_def blocks_at_def)
  next
    case (3 d)
    with wf assms(2) map_of_ids [of d ids b] show ?thesis
      by (simp add: map_pop_def blocks_at_def Let_def)
  qed (simp add: map_pop_def blocks_at_def)
  show "blocks_at (snd (map_pop ids key (ids b) m)) k =
           (if k = key then blocks_at m key - {b} else blocks_at m k)"
  proof (cases "k = key")
    case False
    then show ?thesis
      by (auto simp: blocks_at_def map_pop_def Let_def split: option.splits cached_blocks.splits)
  next
    case True
    consider "m key = None" | b0 where "m key = Some (OneBlock b0)" | d where "m key = Some (BlockDict d)"
      by (cases "m key" rule: blocks_of.cases) auto
    then show ?thesis
    proof cases
      case (2 b0)
      with True inj_onD [OF assms(2), of b b0] show ?thesis by (auto simp: map_pop_def blocks_at_def)
    next
      case (3 d)
      with True wf assms(2) snd_set_delete [of d ids b] show ?thesis
        by (auto simp: map_pop_def blocks_at_def Let_def)
    qed (simp add: map_pop_def blocks_at_def True)
  qed
qed

section \<open>The interface of the cache map\<close>

locale block_cache =
  fixes wf :: "(ref \<Rightarrow> int) \<Rightarrow> 'm \<Rightarrow> bool"
    and at_key :: "'m \<Rightarrow> byte_string \<Rightarrow> ref set"
    and lookup :: "'m \<Rightarrow> byte_string \<Rightarrow> ref option res"
    and ins :: "(ref \<Rightarrow> int) \<Rightarrow> byte_string \<Rightarrow> ref \<Rightarrow> 'm \<Rightarrow> 'm"
    and pop :: "(ref \<Rightarrow> int) \<Rightarrow> byte_string \<Rightarrow> int \<Rightarrow> 'm \<Rightarrow> ref option \<times> 'm"
  assumes lookup_law: "wf ids m \<Longrightarrow> \<exists>r. lookup m key = Inr r \<and> (r = None \<longleftrightarrow> at_key m key = {}) \<and>
      (\<forall>b. r = Some b \<longrightarrow> b \<in> at_key m key)"
    and ins_wf: "wf ids m \<Longrightarrow> wf ids (ins ids key b m)"
    and pop_wf: "wf ids m \<Longrightarrow> wf ids (snd (pop ids key bid m))"
    and ins_law: "wf ids m \<Longrightarrow> inj_on ids (insert b (at_key m key)) \<Longrightarrow>
      at_key (ins ids key b m) k = (if k = key then insert b (at_key m key) else at_key m k)"
    and pop_law: "wf ids m \<Longrightarrow> inj_on ids (insert b (at_key m key)) \<Longrightarrow>
      fst (pop ids key (ids b) m) = (if b \<in> at_key m key then Some b else None) \<and>
      at_key (snd (pop ids key (ids b) m)) k = (if k = key then at_key m key - {b} else at_key m k)"
begin

lemma insert_then_lookup:
  assumes "wf ids m" and "inj_on ids (insert b (at_key m key))"
  shows "\<exists>c. lookup (ins ids key b m) key = Inr (Some c)"
  using lookup_law [OF ins_wf [OF assms(1)], of key b key] ins_law [OF assms, of key] by auto

text \<open>Popping what was inserted last restores the other blocks of the key.\<close>

lemma insert_then_pop:
  assumes "wf ids m" and "inj_on ids (insert b (at_key m key))" and "b \<notin> at_key m key"
  shows "fst (pop ids key (ids b) (ins ids key b m)) = Some b"
    and "at_key (snd (pop ids key (ids b) (ins ids key b m))) k = at_key m k"
  using pop_law [OF ins_wf [OF assms(1)], of b key b key] ins_law [OF assms(1,2)] assms(2,3) by auto

end

interpretation bm: block_cache map_wf blocks_at get_one_block map_insert map_pop
  by unfold_locales
    (simp_all add: get_one_block_some map_insert_wf map_pop_wf blocks_at_insert map_pop_spec)

end
