(* ===== verification/Request_Model.thy ===== *)
theory Request_Model
  imports Vllm_Prelude "HOL-Library.List_Lexorder" "HOL-Library.Char_ord"
begin

text \<open>
  \<^verbatim>\<open>Request\<close>, \<^verbatim>\<open>RequestStatus\<close> and \<^verbatim>\<open>StreamingUpdate\<close> of \<^verbatim>\<open>vllm/v1/request.py\<close>, with
  \<^verbatim>\<open>PlaceholderRange\<close> of \<^verbatim>\<open>vllm/multimodal/inputs.py\<close> and the parameter records they
  read.

  The object identity that \<^verbatim>\<open>__lt__\<close> falls back to is the field \<open>obj_id\<close>; readings of
  \<^verbatim>\<open>time.time()\<close> are arguments named \<open>now\<close>; floats are real numbers. The block hasher a
  request is built with is an argument of the operations that call it, because it takes
  the request itself; it returns the request too, whose memo of embedding hashes it may
  extend. Connector parameters and trace headers are opaque to these operations and left
  out.

  Shown: the constructor establishes and \<^verbatim>\<open>append_output_token_ids\<close> keeps the invariant
  \<open>request_wf\<close> (all tokens are the prompt followed by the output, the short-lifetime
  probability is a probability); \<^verbatim>\<open>__lt__\<close> is a strict total order; the embedding
  indices of a placeholder count its mask.
\<close>

section \<open>Placeholders\<close>

record placeholder_range =
  offset :: int
  pr_length :: int
  is_embed :: "bool list option"

fun cumsum_from :: "int \<Rightarrow> bool list \<Rightarrow> int list" where
  "cumsum_from acc [] = []"
| "cumsum_from acc (b # bs) = (acc + of_bool b) # cumsum_from (acc + of_bool b) bs"

definition embeds_cumsum :: "placeholder_range \<Rightarrow> int list option" where
  "embeds_cumsum p = map_option (cumsum_from 0) (is_embed p)"

definition get_num_embeds :: "placeholder_range \<Rightarrow> int" where
  "get_num_embeds p =
     (case embeds_cumsum p of
        None \<Rightarrow> pr_length p
      | Some cs \<Rightarrow> if cs \<noteq> [] then last cs else 0)"

definition get_embeds_indices_in_range ::
    "placeholder_range \<Rightarrow> int \<Rightarrow> int \<Rightarrow> (int \<times> int) res" where
  "get_embeds_indices_in_range p start_idx end_idx =
     (case embeds_cumsum p of
        None \<Rightarrow> Inr (start_idx, end_idx)
      | Some cs \<Rightarrow>
          bindE (if 0 < start_idx then py_get cs (start_idx - 1) else Inr 0) (\<lambda>embeds_start.
          bindE (if 0 < end_idx then py_get cs (end_idx - 1) else Inr 0) (\<lambda>embeds_end.
          Inr (embeds_start, embeds_end))))"

record mm_feature_spec =
  mm_identifier :: string
  mm_position :: placeholder_range

section \<open>Request data\<close>

datatype request_status =
    WAITING
  | WAITING_FOR_STRUCTURED_OUTPUT_GRAMMAR
  | WAITING_FOR_REMOTE_KVS
  | WAITING_FOR_STREAMING_REQ
  | RUNNING
  | PREEMPTED
  | FINISHED_STOPPED
  | FINISHED_LENGTH_CAPPED
  | FINISHED_ABORTED
  | FINISHED_IGNORED
  | FINISHED_ERROR
  | FINISHED_REPETITION

text \<open>The integer of each member of the \<^verbatim>\<open>IntEnum\<close>, by \<^verbatim>\<open>enum.auto()\<close> from 1.\<close>

fun status_value :: "request_status \<Rightarrow> nat" where
  "status_value WAITING = 1"
| "status_value WAITING_FOR_STRUCTURED_OUTPUT_GRAMMAR = 2"
| "status_value WAITING_FOR_REMOTE_KVS = 3"
| "status_value WAITING_FOR_STREAMING_REQ = 4"
| "status_value RUNNING = 5"
| "status_value PREEMPTED = 6"
| "status_value FINISHED_STOPPED = 7"
| "status_value FINISHED_LENGTH_CAPPED = 8"
| "status_value FINISHED_ABORTED = 9"
| "status_value FINISHED_IGNORED = 10"
| "status_value FINISHED_ERROR = 11"
| "status_value FINISHED_REPETITION = 12"

datatype finish_reason = FR_STOP | FR_LENGTH | FR_ABORT | FR_ERROR | FR_REPETITION

definition status_is_finished :: "request_status \<Rightarrow> bool" where
  "status_is_finished s \<longleftrightarrow> status_value PREEMPTED < status_value s"

fun finished_reason_map :: "request_status \<Rightarrow> finish_reason option" where
  "finished_reason_map FINISHED_STOPPED = Some FR_STOP"
| "finished_reason_map FINISHED_LENGTH_CAPPED = Some FR_LENGTH"
| "finished_reason_map FINISHED_ABORTED = Some FR_ABORT"
| "finished_reason_map FINISHED_IGNORED = Some FR_LENGTH"
| "finished_reason_map FINISHED_ERROR = Some FR_ERROR"
| "finished_reason_map WAITING_FOR_STREAMING_REQ = Some FR_STOP"
| "finished_reason_map FINISHED_REPETITION = Some FR_REPETITION"
| "finished_reason_map _ = None"

datatype stop_reason = StopToken int | StopString string

record repetition_detection_params =
  max_pattern_size :: int
  min_pattern_size :: int
  min_count :: int

record sampling_params =
  sp_max_tokens :: "int option"
  min_tokens :: int
  eos_token_id :: "int option"
  stop_token_ids :: "int list option"
  all_stop_token_ids :: "int set"
  structured_outputs :: bool
  repetition_detection :: "repetition_detection_params option"
  sp_skip_reading_prefix_cache :: "bool option"

record pooling_params =
  pp_skip_reading_prefix_cache :: "bool option"

record lora_request =
  lora_name :: string
  lora_int_id :: int

record streaming_update =
  su_mm_features :: "mm_feature_spec list option"
  su_prompt_token_ids :: "int list option"
  su_max_tokens :: int
  su_arrival_time :: real
  su_sampling_params :: "sampling_params option"

datatype event_type = QUEUED | SCHEDULED | EV_PREEMPTED

record prefill_stats =
  ps_num_prompt_tokens :: int
  ps_num_computed_tokens :: int
  ps_num_cached_tokens :: int
  ps_num_local_cached_tokens :: int
  ps_num_external_cached_tokens :: int

definition new_prefill_stats :: prefill_stats where
  "new_prefill_stats =
     \<lparr>ps_num_prompt_tokens = 0, ps_num_computed_tokens = 0, ps_num_cached_tokens = 0,
      ps_num_local_cached_tokens = 0, ps_num_external_cached_tokens = 0\<rparr>"

definition prefill_stats_set :: "int \<Rightarrow> int \<Rightarrow> int \<Rightarrow> prefill_stats res" where
  "prefill_stats_set n_prompt n_local n_external =
     (let n_cached = n_local + n_external
      in assertE (n_cached \<le> n_prompt)
           (Inr \<lparr>ps_num_prompt_tokens = n_prompt, ps_num_computed_tokens = n_prompt - n_cached,
                 ps_num_cached_tokens = n_cached, ps_num_local_cached_tokens = n_local,
                 ps_num_external_cached_tokens = n_external\<rparr>))"

text \<open>
  \<open>prompt_embeds\<close> is the tensor as the list of its rows, each row its raw bytes.
\<close>

record request =
  obj_id :: nat
  request_id :: string
  external_req_id :: "string option"
  client_index :: int
  priority :: int
  sampling_params :: "sampling_params option"
  pooling_params :: "pooling_params option"
  lora_request :: "lora_request option"
  use_structured_output :: bool
  arrival_time :: real
  status :: request_status
  events :: "(event_type \<times> real) list"
  stop_reason :: "stop_reason option"
  max_tokens :: int
  prompt_token_ids :: "int list option"
  prompt_embeds :: "byte_string list option"
  prompt_embeds_per_block_hashes :: "int \<times> int \<Rightarrow> byte_string option"
  num_prompt_tokens :: int
  output_token_ids :: "int list"
  all_token_ids :: "int list"
  num_output_placeholders :: int
  discard_latest_async_tokens :: bool
  spec_token_ids :: "int list"
  num_computed_tokens :: int
  cache_salt :: "string option"
  mm_features :: "mm_feature_spec list"
  is_prefill_chunk :: bool
  num_nans_in_logits :: int
  num_preemptions :: int
  prob_short :: real
  taper_last_token_time :: real
  prefill_stats_of :: "prefill_stats option"
  block_hashes :: "byte_string list"
  skip_reading_prefix_cache :: bool
  resumable :: bool
  streaming_queue :: "streaming_update option list option"
  abort_immediately :: bool

text \<open>The keyword arguments of the constructor, as \<^verbatim>\<open>from_engine_core_request\<close> fills them.\<close>

record engine_core_request =
  ecr_request_id :: string
  ecr_external_req_id :: "string option"
  ecr_client_index :: int
  ecr_prompt_token_ids :: "int list option"
  ecr_prompt_embeds :: "byte_string list option"
  ecr_mm_features :: "mm_feature_spec list option"
  ecr_sampling_params :: "sampling_params option"
  ecr_pooling_params :: "pooling_params option"
  ecr_arrival_time :: "real option"
  ecr_lora_request :: "lora_request option"
  ecr_cache_salt :: "string option"
  ecr_priority :: int
  ecr_resumable :: bool
  ecr_abort_immediately :: bool

type_synonym block_hasher = "request \<Rightarrow> (byte_string list \<times> request) res"


section \<open>Request operations\<close>

definition length_from_prompt_token_ids_or_embeds ::
    "int list option \<Rightarrow> byte_string list option \<Rightarrow> int res" where
  "length_from_prompt_token_ids_or_embeds ids embeds =
     (case ids of
        None \<Rightarrow> (case embeds of None \<Rightarrow> Inl ValueError | Some es \<Rightarrow> Inr (int (length es)))
      | Some ts \<Rightarrow>
          (case embeds of
             Some es \<Rightarrow> if length es \<noteq> length ts then Inl ValueError else Inr (int (length ts))
           | None \<Rightarrow> Inr (int (length ts))))"

definition num_tokens :: "request \<Rightarrow> int" where
  "num_tokens r = int (length (all_token_ids r))"

definition num_tokens_with_spec :: "request \<Rightarrow> int" where
  "num_tokens_with_spec r = int (length (all_token_ids r)) + int (length (spec_token_ids r))"

definition num_output_tokens :: "request \<Rightarrow> int" where
  "num_output_tokens r = int (length (output_token_ids r))"

definition num_encoder_inputs :: "request \<Rightarrow> int" where
  "num_encoder_inputs r = int (length (mm_features r))"

definition has_encoder_inputs :: "request \<Rightarrow> bool" where
  "has_encoder_inputs r \<longleftrightarrow> 0 < num_encoder_inputs r"

definition is_short_lived :: "request \<Rightarrow> bool" where
  "is_short_lived r \<longleftrightarrow> 1 / 2 < prob_short r"

definition update_block_hashes :: "block_hasher option \<Rightarrow> request \<Rightarrow> request res" where
  "update_block_hashes hasher r =
     (case hasher of
        None \<Rightarrow> Inr r
      | Some f \<Rightarrow> bindE (f r) (\<lambda>(hs, r'). Inr (r'\<lparr>block_hashes := block_hashes r' @ hs\<rparr>)))"

definition update_prob_short :: "real option \<Rightarrow> int option \<Rightarrow> request \<Rightarrow> request" where
  "update_prob_short eos_logprob last_token_id r =
     (if (case (sampling_params r, last_token_id) of
            (Some sp, Some t) \<Rightarrow> t \<in> all_stop_token_ids sp
          | _ \<Rightarrow> False)
      then r\<lparr>prob_short := 1\<rparr>
      else
        let prob_from_eos = map_option (\<lambda>l. max 0 (min 1 (exp l))) eos_logprob;
            max_toks = max 1 (max_tokens r);
            length_progress = min 1 (real_of_int (num_output_tokens r) / real_of_int max_toks);
            next_prob = max length_progress (case prob_from_eos of None \<Rightarrow> 0 | Some p \<Rightarrow> p)
        in r\<lparr>prob_short := max (prob_short r) next_prob\<rparr>)"

datatype token_arg = OneToken int | TokenList "int list"

definition append_output_token_ids ::
    "block_hasher option \<Rightarrow> real \<Rightarrow> token_arg \<Rightarrow> request \<Rightarrow> request res" where
  "append_output_token_ids hasher now token_ids r =
     (let (new, last_token_id) =
            (case token_ids of
               OneToken t \<Rightarrow> ([t], Some t)
             | TokenList ts \<Rightarrow> (ts, if ts \<noteq> [] then Some (last ts) else None));
          r1 = r\<lparr>output_token_ids := output_token_ids r @ new,
                 all_token_ids := all_token_ids r @ new\<rparr>;
          r2 = update_prob_short None last_token_id r1
      in update_block_hashes hasher (r2\<lparr>taper_last_token_time := now\<rparr>))"

definition get_skip_reading_prefix_cache :: "request \<Rightarrow> bool" where
  "get_skip_reading_prefix_cache r =
     (case Option.bind (sampling_params r) sp_skip_reading_prefix_cache of
        Some b \<Rightarrow> b
      | None \<Rightarrow>
          (case Option.bind (pooling_params r) pp_skip_reading_prefix_cache of
             Some b \<Rightarrow> b
           | None \<Rightarrow> False))"

text \<open>The attributes as the constructor sets them before it calls the hasher.\<close>

definition new_request ::
    "nat \<Rightarrow> engine_core_request \<Rightarrow> bool \<Rightarrow> real \<Rightarrow> int \<Rightarrow> request_status \<Rightarrow> int \<Rightarrow> request" where
  "new_request oid a so arrival max_toks st n =
     \<lparr>obj_id = oid, request_id = ecr_request_id a,
      external_req_id = ecr_external_req_id a, client_index = ecr_client_index a,
      priority = ecr_priority a, sampling_params = ecr_sampling_params a,
      pooling_params = ecr_pooling_params a, lora_request = ecr_lora_request a,
      use_structured_output = so, arrival_time = arrival, status = st, events = [],
      stop_reason = None, max_tokens = max_toks,
      prompt_token_ids = ecr_prompt_token_ids a, prompt_embeds = ecr_prompt_embeds a,
      prompt_embeds_per_block_hashes = Map.empty, num_prompt_tokens = n,
      output_token_ids = [],
      all_token_ids = (case ecr_prompt_token_ids a of Some ts \<Rightarrow> ts | None \<Rightarrow> replicate (nat n) 0),
      num_output_placeholders = 0, discard_latest_async_tokens = False,
      spec_token_ids = [], num_computed_tokens = 0, cache_salt = ecr_cache_salt a,
      mm_features = (case ecr_mm_features a of Some fs \<Rightarrow> fs | None \<Rightarrow> []),
      is_prefill_chunk = False, num_nans_in_logits = 0, num_preemptions = 0,
      prob_short = 0, taper_last_token_time = arrival,
      prefill_stats_of = Some new_prefill_stats, block_hashes = [],
      skip_reading_prefix_cache = False, resumable = ecr_resumable a,
      streaming_queue = None, abort_immediately = ecr_abort_immediately a\<rparr>"

definition init_request ::
    "block_hasher option \<Rightarrow> real \<Rightarrow> nat \<Rightarrow> engine_core_request \<Rightarrow> request res" where
  "init_request hasher now oid a =
     (let so = (case ecr_sampling_params a of None \<Rightarrow> False | Some sp \<Rightarrow> structured_outputs sp);
          arrival = (case ecr_arrival_time a of Some t \<Rightarrow> t | None \<Rightarrow> now)
      in bindE
        (case ecr_pooling_params a of
           Some _ \<Rightarrow> Inr (1, WAITING)
         | None \<Rightarrow>
             (case ecr_sampling_params a of
                None \<Rightarrow> Inl ValueError
              | Some sp \<Rightarrow>
                  (case sp_max_tokens sp of
                     None \<Rightarrow> Inl AssertionError
                   | Some m \<Rightarrow>
                       Inr (m, if so then WAITING_FOR_STRUCTURED_OUTPUT_GRAMMAR else WAITING))))
        (\<lambda>(max_toks, st).
          bindE (length_from_prompt_token_ids_or_embeds (ecr_prompt_token_ids a) (ecr_prompt_embeds a))
            (\<lambda>n.
              bindE (update_block_hashes hasher (new_request oid a so arrival max_toks st n))
              (\<lambda>r. Inr (r\<lparr>skip_reading_prefix_cache := get_skip_reading_prefix_cache r\<rparr>)))))"

text \<open>A text-only request with default parameters, used in concrete instances.\<close>

definition plain_request :: "nat \<Rightarrow> string \<Rightarrow> int list \<Rightarrow> request" where
  "plain_request oid rid toks =
     new_request oid
       \<lparr>ecr_request_id = rid, ecr_external_req_id = None, ecr_client_index = 0, ecr_prompt_token_ids = Some toks,
        ecr_prompt_embeds = None, ecr_mm_features = None, ecr_sampling_params = None,
        ecr_pooling_params = None, ecr_arrival_time = None, ecr_lora_request = None,
        ecr_cache_salt = None, ecr_priority = 0, ecr_resumable = False,
        ecr_abort_immediately = False\<rparr>
       False 0 16 WAITING (int (length toks))"

lemma plain_request_simps [simp]:
  "obj_id (plain_request oid rid toks) = oid"
  "request_id (plain_request oid rid toks) = rid"
  "all_token_ids (plain_request oid rid toks) = toks"
  "output_token_ids (plain_request oid rid toks) = []"
  "num_prompt_tokens (plain_request oid rid toks) = int (length toks)"
  "prompt_token_ids (plain_request oid rid toks) = Some toks"
  "prompt_embeds (plain_request oid rid toks) = None"
  "prompt_embeds_per_block_hashes (plain_request oid rid toks) = Map.empty"
  "mm_features (plain_request oid rid toks) = []"
  "lora_request (plain_request oid rid toks) = None"
  "cache_salt (plain_request oid rid toks) = None"
  "block_hashes (plain_request oid rid toks) = []"
  "sampling_params (plain_request oid rid toks) = None"
  "pooling_params (plain_request oid rid toks) = None"
  "max_tokens (plain_request oid rid toks) = 16"
  "prob_short (plain_request oid rid toks) = 0"
  "num_computed_tokens (plain_request oid rid toks) = 0"
  "external_req_id (plain_request oid rid toks) = None"
  "num_output_placeholders (plain_request oid rid toks) = 0"
  "is_prefill_chunk (plain_request oid rid toks) = False"
  "taper_last_token_time (plain_request oid rid toks) = 0"
  "spec_token_ids (plain_request oid rid toks) = []"
  "status (plain_request oid rid toks) = WAITING"
  "arrival_time (plain_request oid rid toks) = 0"
  "priority (plain_request oid rid toks) = 0"
  by (simp_all add: plain_request_def new_request_def)

definition streaming_update_from_request :: "request \<Rightarrow> streaming_update option" where
  "streaming_update_from_request r =
     (if \<not> resumable r then None
      else Some \<lparr>su_mm_features = Some (mm_features r), su_prompt_token_ids = prompt_token_ids r,
                 su_max_tokens = max_tokens r, su_arrival_time = arrival_time r,
                 su_sampling_params = sampling_params r\<rparr>)"

definition is_finished :: "request \<Rightarrow> bool" where
  "is_finished r \<longleftrightarrow> status_is_finished (status r)"

definition get_finished_reason :: "request \<Rightarrow> finish_reason option" where
  "get_finished_reason r = finished_reason_map (status r)"

definition get_num_encoder_embeds :: "request \<Rightarrow> int \<Rightarrow> int res" where
  "get_num_encoder_embeds r input_id =
     assertE (input_id < int (length (mm_features r)))
       (bindE (py_get (mm_features r) input_id) (\<lambda>f. Inr (get_num_embeds (mm_position f))))"

definition record_event :: "event_type \<Rightarrow> real \<Rightarrow> request \<Rightarrow> request" where
  "record_event ty now r = r\<lparr>events := events r @ [(ty, now)]\<rparr>"

definition take_events :: "request \<Rightarrow> (event_type \<times> real) list option \<times> request" where
  "take_events r = (if events r = [] then (None, r) else (Some (events r), r\<lparr>events := []\<rparr>))"

definition take_prefill_stats :: "request \<Rightarrow> prefill_stats option \<times> request" where
  "take_prefill_stats r = (prefill_stats_of r, r\<lparr>prefill_stats_of := None\<rparr>)"

definition request_lt :: "request \<Rightarrow> request \<Rightarrow> bool" where
  "request_lt a b \<longleftrightarrow>
     (if priority a \<noteq> priority b then priority a < priority b
      else if arrival_time a \<noteq> arrival_time b then arrival_time a < arrival_time b
      else if request_id a \<noteq> request_id b then request_id a < request_id b
      else obj_id a < obj_id b)"

section \<open>Placeholders count their mask\<close>

definition num_true :: "bool list \<Rightarrow> int" where
  "num_true m = int (length (filter id m))"

lemma length_cumsum_from [simp]: "length (cumsum_from acc m) = length m"
  by (induction m arbitrary: acc) auto

lemma nth_cumsum_from:
  "i < length m \<Longrightarrow> cumsum_from acc m ! i = acc + num_true (take (Suc i) m)"
proof (induction m arbitrary: acc i)
  case (Cons b m)
  then show ?case by (cases i) (auto simp: num_true_def)
qed simp

lemma cumsum_from_snoc:
  "cumsum_from acc (m @ [b]) = cumsum_from acc m @ [acc + num_true (m @ [b])]"
  by (induction m arbitrary: acc) (auto simp: num_true_def)

lemma get_num_embeds_mask: "is_embed p = Some m \<Longrightarrow> get_num_embeds p = num_true m"
  by (cases m rule: rev_cases)
    (simp_all add: get_num_embeds_def embeds_cumsum_def cumsum_from_snoc, simp add: num_true_def)

lemma cumsum_index:
  assumes "0 \<le> i" "i \<le> int (length m)"
  shows "(if 0 < i then py_get (cumsum_from 0 m) (i - 1) else Inr 0) = Inr (num_true (take (nat i) m))"
proof (cases "0 < i")
  case True
  then have "Suc (nat (i - 1)) = nat i" by simp
  with True assms show ?thesis by (simp add: py_get_nonneg nth_cumsum_from)
next
  case False
  with assms show ?thesis by (simp add: num_true_def)
qed

lemma get_embeds_indices_mask:
  assumes "is_embed p = Some m" and "0 \<le> a" "a \<le> b" "b \<le> int (length m)"
  shows "get_embeds_indices_in_range p a b =
           Inr (num_true (take (nat a) m), num_true (take (nat b) m))"
  using assms cumsum_index [of a m] cumsum_index [of b m]
  by (simp add: get_embeds_indices_in_range_def embeds_cumsum_def)

section \<open>The order of requests\<close>

lemma request_lt_irrefl [simp]: "\<not> request_lt a a"
  by (simp add: request_lt_def)

lemma request_lt_trans: "request_lt a b \<Longrightarrow> request_lt b c \<Longrightarrow> request_lt a c"
  by (auto simp: request_lt_def split: if_splits)

lemma request_lt_total: "obj_id a \<noteq> obj_id b \<Longrightarrow> request_lt a b \<or> request_lt b a"
  by (auto simp: request_lt_def split: if_splits)

lemma request_lt_asym: "request_lt a b \<Longrightarrow> \<not> request_lt b a"
  using request_lt_trans [of a b a] by auto

section \<open>The invariant of a request\<close>

definition request_wf :: "request \<Rightarrow> bool" where
  "request_wf r \<longleftrightarrow>
     (\<exists>ps. all_token_ids r = ps @ output_token_ids r \<and> int (length ps) = num_prompt_tokens r \<and>
           (\<forall>ts. prompt_token_ids r = Some ts \<longrightarrow> ps = ts)) \<and>
     0 \<le> prob_short r \<and> prob_short r \<le> 1"

lemma update_prob_short_cases:
  obtains "update_prob_short e t r = r\<lparr>prob_short := 1\<rparr>"
  | x where "update_prob_short e t r = r\<lparr>prob_short := max (prob_short r) x\<rparr>" and "x \<le> 1"
proof -
  define x where "x = max (min 1 (real_of_int (num_output_tokens r) / real_of_int (max 1 (max_tokens r))))
    (case map_option (\<lambda>l. max 0 (min 1 (exp l))) e of None \<Rightarrow> 0 | Some p \<Rightarrow> p)"
  have "x \<le> 1" by (cases e) (simp_all add: x_def)
  moreover have "update_prob_short e t r = r\<lparr>prob_short := 1\<rparr> \<or>
      update_prob_short e t r = r\<lparr>prob_short := max (prob_short r) x\<rparr>"
    unfolding update_prob_short_def Let_def x_def by (rule if_split [THEN iffD2]) blast
  ultimately show thesis using that by blast
qed

lemma update_prob_short_bounds:
  assumes "0 \<le> prob_short r" "prob_short r \<le> 1"
  shows "prob_short r \<le> prob_short (update_prob_short e t r)"
    and "prob_short (update_prob_short e t r) \<le> 1"
  by (cases e t r rule: update_prob_short_cases; use assms in simp)+

lemma update_prob_short_only:
  "\<exists>p. update_prob_short e t r = r\<lparr>prob_short := p\<rparr>"
  by (cases e t r rule: update_prob_short_cases) auto

text \<open>A hasher may only touch the memo of embedding hashes.\<close>

locale request_hasher =
  fixes hasher :: block_hasher
  assumes memo_only:
    "hasher r = Inr (hs, r') \<Longrightarrow> \<exists>m. r' = r\<lparr>prompt_embeds_per_block_hashes := m\<rparr>"
begin

lemma update_block_hashes_only:
  assumes "update_block_hashes (Some hasher) r = Inr r'"
  shows "\<exists>m hs. r' = r\<lparr>prompt_embeds_per_block_hashes := m, block_hashes := block_hashes r @ hs\<rparr>"
proof -
  from assms obtain hs r1 where *: "hasher r = Inr (hs, r1)"
      "r' = r1\<lparr>block_hashes := block_hashes r1 @ hs\<rparr>"
    by (auto simp: update_block_hashes_def bindE_eq_Inr)
  from memo_only [OF *(1)] obtain m where "r1 = r\<lparr>prompt_embeds_per_block_hashes := m\<rparr>" by blast
  with *(2) have "r' = r\<lparr>prompt_embeds_per_block_hashes := m, block_hashes := block_hashes r @ hs\<rparr>"
    by simp
  then show ?thesis by blast
qed

lemma append_output_wf:
  assumes wf: "request_wf r" and run: "append_output_token_ids (Some hasher) now arg r = Inr r'"
  shows "request_wf r'"
    and "\<exists>new. output_token_ids r' = output_token_ids r @ new \<and>
               all_token_ids r' = all_token_ids r @ new"
    and "prob_short r \<le> prob_short r'"
proof -
  define new where "new = (case arg of OneToken t \<Rightarrow> [t] | TokenList ts \<Rightarrow> ts)"
  define r1 where "r1 = r\<lparr>output_token_ids := output_token_ids r @ new,
                         all_token_ids := all_token_ids r @ new\<rparr>"
  obtain t where run': "update_block_hashes (Some hasher)
      ((update_prob_short None t r1)\<lparr>taper_last_token_time := now\<rparr>) = Inr r'"
    using run by (cases arg) (auto simp: append_output_token_ids_def Let_def r1_def new_def)
  obtain p where p: "update_prob_short None t r1 = r1\<lparr>prob_short := p\<rparr>"
    using update_prob_short_only by blast
  have pb: "prob_short r \<le> p" "p \<le> 1"
    using update_prob_short_bounds [of r1 None t] wf p by (simp_all add: r1_def request_wf_def)
  obtain m hs where r': "r' = r1\<lparr>prob_short := p, taper_last_token_time := now,
      prompt_embeds_per_block_hashes := m, block_hashes := block_hashes r @ hs\<rparr>"
    using update_block_hashes_only [OF run'] p by (auto simp: r1_def)
  show "request_wf r'" using wf pb by (auto simp: r' r1_def request_wf_def)
  show "\<exists>new. output_token_ids r' = output_token_ids r @ new \<and>
               all_token_ids r' = all_token_ids r @ new" by (auto simp: r' r1_def)
  show "prob_short r \<le> prob_short r'" using pb by (simp add: r')
qed

lemma init_request_wf:
  assumes "init_request (Some hasher) now oid a = Inr r"
  shows "request_wf r"
proof -
  from assms obtain mt st n so arr r1 where
      n: "length_from_prompt_token_ids_or_embeds (ecr_prompt_token_ids a) (ecr_prompt_embeds a) = Inr n"
    and r1: "update_block_hashes (Some hasher) (new_request oid a so arr mt st n) = Inr r1"
    and r: "r = r1\<lparr>skip_reading_prefix_cache := get_skip_reading_prefix_cache r1\<rparr>"
    by (auto simp only: init_request_def Let_def bindE_eq_Inr split_paired_all split_beta Inr_inject)
  have "request_wf (new_request oid a so arr mt st n)"
    using n by (auto simp: request_wf_def new_request_def length_from_prompt_token_ids_or_embeds_def
        split: option.splits if_splits)
  with update_block_hashes_only [OF r1] show ?thesis by (auto simp: r request_wf_def)
qed

end

end
