(* ===== verification/Block_Hash.thy ===== *)
theory Block_Hash
  imports Request_Model
begin

unbundle bit_operations_syntax

text \<open>
  The block hashing of \<^verbatim>\<open>vllm/v1/core/kv_cache_utils.py\<close>: packing a hash with its group
  id, the extra keys of a block, the hash chain and the incremental hasher of a request,
  the block sizes of the cache groups and the view of a hash list at a coarser size.

  The hash function (\<^verbatim>\<open>caching_hash_fn\<close>), the seed \<^verbatim>\<open>NONE_HASH\<close> and the digest of
  embedding bytes are parameters; what a theorem needs of them (no collision among the
  inputs hashed) is a hypothesis.

  Shown: packing round-trips and is injective; for sorted placeholders the extra keys name
  exactly the multi-modal items that overlap the block; for requests as
  the constructor and appended outputs leave them, the incremental hasher computes the chain of
  all full blocks and never raises, and equal chained hashes mean equal token prefixes and equal
  keys, unless a multi-modal item before the last reaches into a partly filled last prompt block.
  That case and another pair of inputs the scheme does not tell apart are recorded at the end.
\<close>

section \<open>Packed keys\<close>

definition int_to_bytes4 :: "int \<Rightarrow> byte_string res" where
  "int_to_bytes4 g =
     (if 0 \<le> g \<and> g < 2 ^ 32
      then Inr (map (\<lambda>k. word_of_int (g div 256 ^ k)) [3, 2, 1, 0])
      else Inl OverflowError)"

definition int_from_bytes :: "byte_string \<Rightarrow> int" where
  "int_from_bytes bs = foldl (\<lambda>acc b. acc * 256 + uint b) 0 bs"

definition make_block_hash_with_group_id :: "byte_string \<Rightarrow> int \<Rightarrow> byte_string res" where
  "make_block_hash_with_group_id bh group_id =
     bindE (int_to_bytes4 group_id) (\<lambda>g. Inr (bh @ g))"

definition get_block_hash :: "byte_string \<Rightarrow> byte_string" where
  "get_block_hash key = py_slice key 0 (- 4)"

definition get_group_id :: "byte_string \<Rightarrow> int" where
  "get_group_id key = int_from_bytes (py_slice key (- 4) (int (length key)))"

datatype external_block_hash = HashBytes byte_string | HashInt int

text \<open>\<open>use_int\<close> is the environment variable \<^verbatim>\<open>VLLM_KV_EVENTS_USE_INT_BLOCK_HASHES\<close>.\<close>

definition maybe_convert_block_hash :: "bool \<Rightarrow> byte_string \<Rightarrow> external_block_hash" where
  "maybe_convert_block_hash use_int hash_bytes =
     (if \<not> use_int then HashBytes hash_bytes
      else HashInt (int_from_bytes hash_bytes AND (push_bit 64 1 - 1)))"

section \<open>Extra keys of a block\<close>

text \<open>The values Python puts in the tuple of extra keys: a string, a pair, or bytes.\<close>

datatype extra_key = KeyStr string | KeyMm string int | KeyBytes byte_string

definition need_extra_keys :: "request \<Rightarrow> bool" where
  "need_extra_keys r \<longleftrightarrow>
     mm_features r \<noteq> [] \<or> lora_request r \<noteq> None \<or> cache_salt r \<noteq> None"

fun mm_keys_loop ::
    "mm_feature_spec list \<Rightarrow> int \<Rightarrow> int \<Rightarrow> int \<Rightarrow> extra_key list \<Rightarrow> extra_key list \<times> int" where
  "mm_keys_loop [] s e idx ks = (ks, idx)"
| "mm_keys_loop (f # fs) s e idx ks =
     (let off = offset (mm_position f); len = pr_length (mm_position f)
      in if off < e then
           (if off + len \<le> s then mm_keys_loop fs s e (idx + 1) ks
            else
              let ks' = ks @ [KeyMm (mm_identifier f) (off - s)]
              in if off + len \<le> e then mm_keys_loop fs s e (idx + 1) ks' else (ks', idx))
         else (ks, idx))"

definition gen_mm_extra_hash_keys ::
    "request \<Rightarrow> int \<Rightarrow> int \<Rightarrow> int \<Rightarrow> (extra_key list \<times> int) res" where
  "gen_mm_extra_hash_keys r s e start_mm_idx =
     (let fs = mm_features r
      in if fs = [] then Inr ([], start_mm_idx)
         else if offset (mm_position (last fs)) + pr_length (mm_position (last fs)) \<le> s
         then Inr ([], start_mm_idx)
         else if start_mm_idx < 0
         then assertE (- start_mm_idx \<le> int (length fs))
                (let i = int (length fs) + start_mm_idx
                 in Inr (mm_keys_loop (drop (nat i) fs) s e i []))
         else Inr (mm_keys_loop (drop (nat start_mm_idx) fs) s e start_mm_idx []))"

definition gen_lora_extra_hash_keys :: "request \<Rightarrow> extra_key list" where
  "gen_lora_extra_hash_keys r =
     (case lora_request r of None \<Rightarrow> [] | Some l \<Rightarrow> [KeyStr (lora_name l)])"

text \<open>\<open>sha\<close> is \<^verbatim>\<open>hashlib.sha256(...).digest()\<close> on the bytes of the rows in the range.\<close>

definition gen_prompt_embeds_extra_hash_keys ::
    "(byte_string \<Rightarrow> byte_string) \<Rightarrow> request \<Rightarrow> int \<Rightarrow> int \<Rightarrow> extra_key list \<times> request" where
  "gen_prompt_embeds_extra_hash_keys sha r s e =
     (case prompt_embeds r of
        None \<Rightarrow> ([], r)
      | Some rows \<Rightarrow>
          (case prompt_embeds_per_block_hashes r (s, e) of
             Some h \<Rightarrow> ([KeyBytes h], r)
           | None \<Rightarrow>
               let h = sha (concat (py_slice rows s e))
               in ([KeyBytes h],
                   r\<lparr>prompt_embeds_per_block_hashes :=
                        (prompt_embeds_per_block_hashes r)((s, e) \<mapsto> h)\<rparr>)))"

definition gen_cache_salt_keys :: "request \<Rightarrow> int \<Rightarrow> extra_key list" where
  "gen_cache_salt_keys r s =
     (case cache_salt r of
        Some salt \<Rightarrow> if s = 0 \<and> salt \<noteq> [] then [KeyStr salt] else []
      | None \<Rightarrow> [])"

definition generate_block_hash_extra_keys ::
    "(byte_string \<Rightarrow> byte_string) \<Rightarrow> request \<Rightarrow> int \<Rightarrow> int \<Rightarrow> int \<Rightarrow>
     ((extra_key list option \<times> int) \<times> request) res" where
  "generate_block_hash_extra_keys sha r s e start_mm_idx =
     bindE (gen_mm_extra_hash_keys r s e start_mm_idx) (\<lambda>(mm_keys, new_idx).
       let (embeds_keys, r') = gen_prompt_embeds_extra_hash_keys sha r s e;
           ks = gen_lora_extra_hash_keys r @ mm_keys @ gen_cache_salt_keys r s @ embeds_keys
       in Inr ((if ks = [] then None else Some ks, new_idx), r'))"

section \<open>The hash chain\<close>

type_synonym hash_input = "byte_string \<times> int list \<times> extra_key list option"

definition hash_block_tokens ::
    "(hash_input \<Rightarrow> byte_string) \<Rightarrow> byte_string \<Rightarrow> byte_string option \<Rightarrow> int list \<Rightarrow>
     extra_key list option \<Rightarrow> byte_string" where
  "hash_block_tokens fn none_hash parent toks ks =
     fn (case parent of None \<Rightarrow> none_hash | Some p \<Rightarrow> if p = [] then none_hash else p, toks, ks)"

text \<open>
  The loop of the hasher. With a block size of zero or less the source's loop would not
  stop; the test \<open>bs \<le> 0\<close> serves termination only, and every theorem about the loop assumes a
  positive block size.
\<close>

function hash_loop ::
    "(byte_string \<Rightarrow> byte_string) \<Rightarrow> (hash_input \<Rightarrow> byte_string) \<Rightarrow> byte_string \<Rightarrow> int \<Rightarrow> int \<Rightarrow>
     int \<Rightarrow> int \<Rightarrow> byte_string option \<Rightarrow> byte_string list \<Rightarrow> request \<Rightarrow>
     (byte_string list \<times> request) res" where
  "hash_loop sha fn none_hash bs n s mm_idx prev acc r =
     (let e = s + bs
      in if n < e \<or> bs \<le> 0 then Inr (acc, r)
         else
           bindE (generate_block_hash_extra_keys sha r s e mm_idx) (\<lambda>((ks, mm_idx'), r').
             let bh = hash_block_tokens fn none_hash prev (py_slice (all_token_ids r') s e) ks
             in hash_loop sha fn none_hash bs n (s + bs) mm_idx' (Some bh) (acc @ [bh]) r'))"
  by pat_completeness auto
termination
  by (relation "measure (\<lambda>(sha, fn, none_hash, bs, n, s, mm_idx, prev, acc, r). nat (n - s))") auto

declare hash_loop.simps [simp del]

definition request_block_hasher ::
    "(byte_string \<Rightarrow> byte_string) \<Rightarrow> (hash_input \<Rightarrow> byte_string) \<Rightarrow> byte_string \<Rightarrow> int \<Rightarrow>
     block_hasher" where
  "request_block_hasher sha fn none_hash bs r =
     (let s = int (length (block_hashes r)) * bs
      in if num_tokens r < s + bs then Inr ([], r)
         else
           hash_loop sha fn none_hash bs (num_tokens r) s (if 0 < s then - 1 else 0)
             (if block_hashes r \<noteq> [] then Some (last (block_hashes r)) else None) [] r)"

section \<open>Hash lists at a coarser block size\<close>

record block_hash_list =
  bhl_block_hashes :: "byte_string list"
  scale_factor :: int

definition init_block_hash_list ::
    "byte_string list \<Rightarrow> int \<Rightarrow> int \<Rightarrow> block_hash_list res" where
  "init_block_hash_list hashes hash_block_size target_block_size =
     (if hash_block_size = 0 then Inl ZeroDivisionError
      else assertE (target_block_size mod hash_block_size = 0)
        (Inr \<lparr>bhl_block_hashes = hashes, scale_factor = target_block_size div hash_block_size\<rparr>))"

definition bhl_len :: "block_hash_list \<Rightarrow> int res" where
  "bhl_len l =
     (if scale_factor l = 0 then Inl ZeroDivisionError
      else Inr (int (length (bhl_block_hashes l)) div scale_factor l))"

definition bhl_get_value_at :: "block_hash_list \<Rightarrow> int \<Rightarrow> byte_string" where
  "bhl_get_value_at l idx =
     (let base = idx * scale_factor l; fin = base + scale_factor l
      in concat (py_slice (bhl_block_hashes l) base fin))"

text \<open>\<^verbatim>\<open>block_hashes[start:]\<close>; \<^verbatim>\<open>slice.indices\<close> clamps \<open>start\<close> as a list does.\<close>

definition bhl_from :: "block_hash_list \<Rightarrow> int \<Rightarrow> byte_string list res" where
  "bhl_from l start =
     bindE (bhl_len l) (\<lambda>n.
       Inr (map (\<lambda>i. bhl_get_value_at l (int i)) [py_bound (nat n) start..<nat n]))"

section \<open>Packing round-trips\<close>

lemma uint_word_of_int_byte: "uint (word_of_int x :: 8 word) = x mod 256"
  by (simp add: uint_word_of_int)

lemma int_bytes4_round_trip:
  assumes "int_to_bytes4 g = Inr b"
  shows "length b = 4" and "int_from_bytes b = g"
proof -
  from assms have g: "0 \<le> g" "g < 2 ^ 32"
    and b: "b = map (\<lambda>k. word_of_int (g div 256 ^ k)) [3, 2, 1, 0]"
    by (auto simp: int_to_bytes4_def split: if_splits)
  show "length b = 4" by (simp add: b)
  have q: "g div 16777216 = g div 65536 div 256" "g div 65536 = g div 256 div 256"
    by (simp_all add: zdiv_zmult2_eq [symmetric])
  have "g < 4294967296" "0 \<le> g mod 16777216" using g(2) by simp_all
  with div_mult_mod_eq [of g 16777216] have "g div 16777216 < 256" by linarith
  then have "g div 16777216 mod 256 = g div 16777216"
    using g(1) by (simp add: mod_pos_pos_trivial pos_imp_zdiv_nonneg_iff)
  note top = this
  have "int_from_bytes b = g div 16777216 mod 256 * 16777216 + g div 65536 mod 256 * 65536 +
      g div 256 mod 256 * 256 + g mod 256"
    unfolding b int_from_bytes_def by (simp add: uint_word_of_int_byte)
  with top q div_mult_mod_eq [of g 256] div_mult_mod_eq [of "g div 256" 256]
    div_mult_mod_eq [of "g div 65536" 256]
  show "int_from_bytes b = g" by linarith
qed

lemma packed_key_round_trip:
  assumes "make_block_hash_with_group_id bh g = Inr key"
  shows "get_block_hash key = bh" and "get_group_id key = g"
proof -
  from assms obtain b where b: "int_to_bytes4 g = Inr b" and key: "key = bh @ b"
    by (auto simp: make_block_hash_with_group_id_def bindE_eq_Inr)
  note len = int_bytes4_round_trip(1) [OF b]
  show "get_block_hash key = bh" by (simp add: get_block_hash_def key len py_slice_def py_bound_def)
  show "get_group_id key = g"
    by (simp add: get_group_id_def key len py_slice_def py_bound_def int_bytes4_round_trip(2) [OF b])
qed

lemma make_key_total: "0 \<le> g \<Longrightarrow> g < 2 ^ 32 \<Longrightarrow> \<exists>key. make_block_hash_with_group_id bh g = Inr key"
  by (simp add: make_block_hash_with_group_id_def int_to_bytes4_def)

lemma make_key_inj:
  "make_block_hash_with_group_id a g = Inr key \<Longrightarrow> make_block_hash_with_group_id b g' = Inr key \<Longrightarrow>
   a = b \<and> g = g'"
  using packed_key_round_trip by metis

section \<open>Which multi-modal items a block names\<close>

abbreviation mm_end :: "mm_feature_spec \<Rightarrow> int" where
  "mm_end f \<equiv> offset (mm_position f) + pr_length (mm_position f)"

text \<open>Placeholders in prompt order that do not overlap.\<close>

fun mm_sorted :: "mm_feature_spec list \<Rightarrow> bool" where
  "mm_sorted [] \<longleftrightarrow> True"
| "mm_sorted (f # fs) \<longleftrightarrow>
     0 \<le> pr_length (mm_position f) \<and> (\<forall>g \<in> set fs. mm_end f \<le> offset (mm_position g)) \<and> mm_sorted fs"

definition mm_overlap :: "int \<Rightarrow> int \<Rightarrow> mm_feature_spec \<Rightarrow> bool" where
  "mm_overlap s e f \<longleftrightarrow> offset (mm_position f) < e \<and> s < mm_end f"

definition mm_block_keys :: "mm_feature_spec list \<Rightarrow> int \<Rightarrow> int \<Rightarrow> extra_key list" where
  "mm_block_keys fs s e =
     map (\<lambda>f. KeyMm (mm_identifier f) (offset (mm_position f) - s)) (filter (mm_overlap s e) fs)"

lemma mm_sorted_append:
  "mm_sorted (fs @ gs) \<longleftrightarrow>
     mm_sorted fs \<and> mm_sorted gs \<and>
     (\<forall>f \<in> set fs. \<forall>g \<in> set gs. mm_end f \<le> offset (mm_position g))"
  by (induction fs) auto

lemma mm_sorted_nonneg: "mm_sorted fs \<Longrightarrow> f \<in> set fs \<Longrightarrow> 0 \<le> pr_length (mm_position f)"
  by (induction fs) auto

lemma no_overlap_later:
  assumes "mm_sorted fs" "\<forall>f \<in> set fs. e \<le> offset (mm_position f)"
  shows "mm_block_keys fs s e = []"
  using assms by (auto simp: mm_block_keys_def mm_overlap_def filter_empty_conv)

lemma mm_keys_loop_spec:
  assumes "mm_sorted fs" "s \<le> e" "mm_keys_loop fs s e idx ks = (ks', idx')"
  shows "ks' = ks @ mm_block_keys fs s e \<and> idx \<le> idx' \<and>
         (\<forall>f \<in> set (take (nat (idx' - idx)) fs). mm_end f \<le> e)"
  using assms
proof (induction fs arbitrary: idx ks)
  case Nil
  then show ?case by (simp add: mm_block_keys_def)
next
  case (Cons f fs)
  have later: "mm_block_keys fs s e = []" if "e \<le> mm_end f"
  proof (rule no_overlap_later)
    show "mm_sorted fs" using Cons.prems(1) by simp
    show "\<forall>g \<in> set fs. e \<le> offset (mm_position g)"
      using Cons.prems(1) that by (meson mm_sorted.simps(2) order_trans)
  qed
  have rec: "ks' = ks1 @ mm_block_keys fs s e \<and> idx \<le> idx' \<and>
      (\<forall>g \<in> set (take (nat (idx' - idx)) (f # fs)). mm_end g \<le> e)"
    if "mm_keys_loop fs s e (idx + 1) ks1 = (ks', idx')" "mm_end f \<le> e" for ks1
  proof -
    have *: "ks' = ks1 @ mm_block_keys fs s e" "idx + 1 \<le> idx'"
        "\<forall>g \<in> set (take (nat (idx' - (idx + 1))) fs). mm_end g \<le> e"
      using Cons.IH [OF _ Cons.prems(2) that(1)] Cons.prems(1) by simp_all
    moreover have "nat (idx' - idx) = Suc (nat (idx' - (idx + 1)))" using *(2) by simp
    ultimately show ?thesis using that(2) by simp
  qed
  consider (unreached) "e \<le> offset (mm_position f)"
    | (passed) "offset (mm_position f) < e" "mm_end f \<le> s"
    | (within) "offset (mm_position f) < e" "s < mm_end f" "mm_end f \<le> e"
    | (beyond) "offset (mm_position f) < e" "s < mm_end f" "e < mm_end f"
    by linarith
  then show ?case
  proof cases
    case unreached
    then have "ks' = ks" "idx' = idx" "\<not> mm_overlap s e f"
      using Cons.prems(3) by (simp_all add: Let_def mm_overlap_def)
    moreover have "mm_block_keys fs s e = []"
      using unreached Cons.prems(1) by (intro later) simp
    ultimately show ?thesis by (simp add: mm_block_keys_def)
  next
    case passed
    then have "mm_keys_loop fs s e (idx + 1) ks = (ks', idx')" "\<not> mm_overlap s e f" "mm_end f \<le> e"
      using Cons.prems(2,3) by (simp_all add: Let_def mm_overlap_def)
    from rec [OF this(1,3)] this(2) show ?thesis by (simp add: mm_block_keys_def)
  next
    case within
    then have "mm_keys_loop fs s e (idx + 1) (ks @ [KeyMm (mm_identifier f) (offset (mm_position f) - s)])
        = (ks', idx')" "mm_overlap s e f"
      using Cons.prems(3) by (simp_all add: Let_def mm_overlap_def)
    from rec [OF this(1) within(3)] this(2) show ?thesis by (simp add: mm_block_keys_def)
  next
    case beyond
    then have "ks' = ks @ [KeyMm (mm_identifier f) (offset (mm_position f) - s)]" "idx' = idx"
        "mm_overlap s e f"
      using Cons.prems(3) by (simp_all add: Let_def mm_overlap_def)
    moreover have "mm_block_keys fs s e = []" using beyond(3) by (intro later) simp
    ultimately show ?thesis by (simp add: mm_block_keys_def)
  qed
qed

lemma mm_block_keys_append:
  "mm_block_keys (fs @ gs) s e = mm_block_keys fs s e @ mm_block_keys gs s e"
  by (simp add: mm_block_keys_def)

lemma mm_block_keys_passed: "\<forall>f \<in> set fs. mm_end f \<le> s \<Longrightarrow> mm_block_keys fs s e = []"
  by (auto simp: mm_block_keys_def mm_overlap_def filter_empty_conv)

lemma mm_sorted_last_end:
  assumes "mm_sorted fs" "f \<in> set fs"
  shows "mm_end f \<le> mm_end (last fs)"
proof (cases fs rule: rev_cases)
  case (snoc gs g)
  then show ?thesis using assms mm_sorted_nonneg [OF assms(1), of g]
    by (auto simp: mm_sorted_append intro: order_trans [where y = "offset (mm_position g)"])
qed (use assms in simp)

text \<open>The index the hasher resumes from: no item before it reaches the block.\<close>

definition mm_idx_ok :: "mm_feature_spec list \<Rightarrow> int \<Rightarrow> int \<Rightarrow> bool" where
  "mm_idx_ok fs s idx \<longleftrightarrow>
     0 \<le> idx \<and> (\<forall>f \<in> set (take (nat idx) fs). mm_end f \<le> s) \<or>
     idx = - 1 \<and> (\<forall>f \<in> set (butlast fs). mm_end f \<le> s)"

lemma mm_idx_ok_later: "mm_idx_ok fs s idx \<Longrightarrow> s \<le> e \<Longrightarrow> mm_idx_ok fs e idx"
  by (auto simp: mm_idx_ok_def)

lemma mm_loop_from:
  assumes "mm_sorted fs" "s \<le> e" "0 \<le> i" "\<forall>f \<in> set (take (nat i) fs). mm_end f \<le> s"
  shows "\<exists>idx'. mm_keys_loop (drop (nat i) fs) s e i [] = (mm_block_keys fs s e, idx') \<and>
           mm_idx_ok fs e idx'"
proof -
  obtain ks idx' where run: "mm_keys_loop (drop (nat i) fs) s e i [] = (ks, idx')" by fastforce
  have sorted: "mm_sorted (drop (nat i) fs)"
    using assms(1) mm_sorted_append [of "take (nat i) fs" "drop (nat i) fs"] by simp
  note spec = mm_keys_loop_spec [OF sorted assms(2) run]
  have "ks = mm_block_keys fs s e"
    using spec mm_block_keys_passed [OF assms(4)]
      mm_block_keys_append [of "take (nat i) fs" "drop (nat i) fs"] by simp
  moreover have "nat idx' = nat i + nat (idx' - i)" using spec assms(3) by linarith
  then have "take (nat idx') fs = take (nat i) fs @ take (nat (idx' - i)) (drop (nat i) fs)"
    by (simp add: take_add)
  then have "mm_idx_ok fs e idx'"
    using spec assms(2,3,4) by (fastforce simp: mm_idx_ok_def)
  ultimately show ?thesis using run by simp
qed

lemma gen_mm_extra_hash_keys_spec:
  assumes "mm_sorted (mm_features r)" "s \<le> e" "mm_idx_ok (mm_features r) s idx"
  shows "\<exists>idx'. gen_mm_extra_hash_keys r s e idx = Inr (mm_block_keys (mm_features r) s e, idx') \<and>
           mm_idx_ok (mm_features r) e idx'"
proof -
  define fs where "fs = mm_features r"
  consider "fs = [] \<or> (fs \<noteq> [] \<and> mm_end (last fs) \<le> s)"
    | "fs \<noteq> []" "s < mm_end (last fs)" "0 \<le> idx" | "fs \<noteq> []" "s < mm_end (last fs)" "idx < 0"
    by linarith
  then show ?thesis
  proof cases
    case 1
    then have "\<forall>f \<in> set fs. mm_end f \<le> s"
      using mm_sorted_last_end [OF assms(1)] by (auto simp: fs_def intro: order_trans)
    then have "mm_block_keys fs s e = []" by (rule mm_block_keys_passed)
    with 1 mm_idx_ok_later [OF assms(3,2)] show ?thesis
      by (auto simp: gen_mm_extra_hash_keys_def fs_def [symmetric] mm_block_keys_def)
  next
    case 2
    with assms(3) have "\<forall>f \<in> set (take (nat idx) fs). mm_end f \<le> s"
      by (simp add: mm_idx_ok_def fs_def)
    with 2 mm_loop_from [of fs s e idx] assms show ?thesis
      by (auto simp: gen_mm_extra_hash_keys_def fs_def [symmetric])
  next
    case 3
    with assms(3) have idx: "idx = - 1" and before: "\<forall>f \<in> set (butlast fs). mm_end f \<le> s"
      by (auto simp: mm_idx_ok_def fs_def)
    have "nat (int (length fs) - 1) = length fs - 1" by (cases fs) simp_all
    then have "take (nat (int (length fs) - 1)) fs = butlast fs" by (simp add: butlast_conv_take)
    with 3 idx before mm_loop_from [of fs s e "int (length fs) - 1"] assms show ?thesis
      by (cases fs) (auto simp: gen_mm_extra_hash_keys_def fs_def [symmetric])
  qed
qed

section \<open>The reference chain of a request\<close>

definition embeds_block_keys ::
    "(byte_string \<Rightarrow> byte_string) \<Rightarrow> request \<Rightarrow> int \<Rightarrow> int \<Rightarrow> extra_key list" where
  "embeds_block_keys sha r s e =
     (case prompt_embeds r of
        None \<Rightarrow> []
      | Some rows \<Rightarrow> [KeyBytes (sha (concat (py_slice rows s e)))])"

definition block_keys ::
    "(byte_string \<Rightarrow> byte_string) \<Rightarrow> request \<Rightarrow> int \<Rightarrow> int \<Rightarrow> extra_key list option" where
  "block_keys sha r s e =
     (let ks = gen_lora_extra_hash_keys r @ mm_block_keys (mm_features r) s e @
               gen_cache_salt_keys r s @ embeds_block_keys sha r s e
      in if ks = [] then None else Some ks)"

text \<open>What block \<open>k\<close> of a request holds: its tokens and its extra keys.\<close>

definition block_input ::
    "(byte_string \<Rightarrow> byte_string) \<Rightarrow> int \<Rightarrow> request \<Rightarrow> nat \<Rightarrow> int list \<times> extra_key list option" where
  "block_input sha bs r k =
     (py_slice (all_token_ids r) (int k * bs) (int k * bs + bs),
      block_keys sha r (int k * bs) (int k * bs + bs))"

fun chain_from ::
    "(hash_input \<Rightarrow> byte_string) \<Rightarrow> byte_string \<Rightarrow> byte_string option \<Rightarrow>
     (int list \<times> extra_key list option) list \<Rightarrow> byte_string list" where
  "chain_from fn none_hash prev [] = []"
| "chain_from fn none_hash prev (b # blocks) =
     (let h = hash_block_tokens fn none_hash prev (fst b) (snd b)
      in h # chain_from fn none_hash (Some h) blocks)"

definition ref_hashes ::
    "(byte_string \<Rightarrow> byte_string) \<Rightarrow> (hash_input \<Rightarrow> byte_string) \<Rightarrow> byte_string \<Rightarrow> int \<Rightarrow> request \<Rightarrow>
     nat \<Rightarrow> byte_string list" where
  "ref_hashes sha fn none_hash bs r n =
     chain_from fn none_hash None (map (block_input sha bs r) [0..<n])"

definition memo_ok :: "(byte_string \<Rightarrow> byte_string) \<Rightarrow> request \<Rightarrow> bool" where
  "memo_ok sha r \<longleftrightarrow>
     (\<forall>rows s e h. prompt_embeds r = Some rows \<longrightarrow>
        prompt_embeds_per_block_hashes r (s, e) = Some h \<longrightarrow> h = sha (concat (py_slice rows s e)))"

definition hashes_in_step ::
    "(byte_string \<Rightarrow> byte_string) \<Rightarrow> (hash_input \<Rightarrow> byte_string) \<Rightarrow> byte_string \<Rightarrow> int \<Rightarrow> request \<Rightarrow>
     bool" where
  "hashes_in_step sha fn none_hash bs r \<longleftrightarrow>
     memo_ok sha r \<and> int (length (block_hashes r)) * bs \<le> num_tokens r \<and>
     block_hashes r = ref_hashes sha fn none_hash bs r (length (block_hashes r))"

lemma length_chain_from [simp]: "length (chain_from fn none_hash prev bs) = length bs"
  by (induction bs arbitrary: prev) (simp_all add: Let_def)

lemma length_ref_hashes [simp]: "length (ref_hashes sha fn none_hash bs r n) = n"
  by (simp add: ref_hashes_def)

lemma chain_from_append:
  "chain_from fn none_hash prev (xs @ ys) =
     chain_from fn none_hash prev xs @
     chain_from fn none_hash
       (if xs = [] then prev else Some (last (chain_from fn none_hash prev xs))) ys"
proof (induction xs arbitrary: prev)
  case (Cons x xs)
  then show ?case by (cases xs) (simp_all add: Let_def)
qed simp

lemma block_input_memo [simp]:
  "block_input sha bs (r\<lparr>prompt_embeds_per_block_hashes := m\<rparr>) = block_input sha bs r"
  by (rule ext) (simp add: block_input_def block_keys_def embeds_block_keys_def
      gen_lora_extra_hash_keys_def gen_cache_salt_keys_def)

lemma block_input_hashes [simp]:
  "block_input sha bs (r\<lparr>block_hashes := hs\<rparr>) = block_input sha bs r"
  by (rule ext) (simp add: block_input_def block_keys_def embeds_block_keys_def
      gen_lora_extra_hash_keys_def gen_cache_salt_keys_def)

lemma gen_prompt_embeds_spec:
  assumes "memo_ok sha r"
  shows "\<exists>m. gen_prompt_embeds_extra_hash_keys sha r s e =
           (embeds_block_keys sha r s e, r\<lparr>prompt_embeds_per_block_hashes := m\<rparr>) \<and>
           memo_ok sha (r\<lparr>prompt_embeds_per_block_hashes := m\<rparr>)"
proof (cases "prompt_embeds r = None \<or> prompt_embeds_per_block_hashes r (s, e) \<noteq> None")
  case True
  have same: "r = r\<lparr>prompt_embeds_per_block_hashes := prompt_embeds_per_block_hashes r\<rparr>" by simp
  have "gen_prompt_embeds_extra_hash_keys sha r s e = (embeds_block_keys sha r s e, r)"
    using True assms
    by (auto simp: gen_prompt_embeds_extra_hash_keys_def embeds_block_keys_def memo_ok_def
        split: option.splits)
  with same assms show ?thesis by metis
next
  case False
  then obtain rows where rows: "prompt_embeds r = Some rows" by auto
  define m where "m = (prompt_embeds_per_block_hashes r)((s, e) \<mapsto> sha (concat (py_slice rows s e)))"
  have "gen_prompt_embeds_extra_hash_keys sha r s e =
      (embeds_block_keys sha r s e, r\<lparr>prompt_embeds_per_block_hashes := m\<rparr>)"
    using False rows by (simp add: gen_prompt_embeds_extra_hash_keys_def embeds_block_keys_def m_def Let_def)
  moreover have "memo_ok sha (r\<lparr>prompt_embeds_per_block_hashes := m\<rparr>)"
    using assms rows by (simp add: memo_ok_def m_def)
  ultimately show ?thesis by blast
qed

lemma generate_extra_keys_spec:
  assumes "memo_ok sha r" "mm_sorted (mm_features r)" "s \<le> e" "mm_idx_ok (mm_features r) s idx"
  shows "\<exists>idx' m. generate_block_hash_extra_keys sha r s e idx =
            Inr ((block_keys sha r s e, idx'), r\<lparr>prompt_embeds_per_block_hashes := m\<rparr>) \<and>
          mm_idx_ok (mm_features r) e idx' \<and> memo_ok sha (r\<lparr>prompt_embeds_per_block_hashes := m\<rparr>)"
proof -
  obtain idx' where i: "gen_mm_extra_hash_keys r s e idx = Inr (mm_block_keys (mm_features r) s e, idx')"
      "mm_idx_ok (mm_features r) e idx'"
    using gen_mm_extra_hash_keys_spec [OF assms(2,3,4)] by blast
  obtain m where m: "gen_prompt_embeds_extra_hash_keys sha r s e =
      (embeds_block_keys sha r s e, r\<lparr>prompt_embeds_per_block_hashes := m\<rparr>)"
      "memo_ok sha (r\<lparr>prompt_embeds_per_block_hashes := m\<rparr>)"
    using gen_prompt_embeds_spec [OF assms(1)] by blast
  from i m show ?thesis
    by (intro exI [of _ idx'] exI [of _ m])
      (simp add: generate_block_hash_extra_keys_def block_keys_def Let_def)
qed

section \<open>The hasher computes the chain\<close>

lemma full_blocks:
  fixes bs n :: int
  assumes "0 < bs"
  shows "int k * bs + bs \<le> n \<longleftrightarrow> k < nat (n div bs)"
proof -
  have "int k * bs + bs \<le> n \<longleftrightarrow> int k + 1 \<le> n div bs"
    using assms by (simp add: le_div_iff_mult_le distrib_right)
  then show ?thesis by linarith
qed

lemma hash_loop_spec:
  assumes "0 < bs" "mm_sorted (mm_features r)" "memo_ok sha r"
    and "mm_idx_ok (mm_features r) (int k * bs) idx"
  shows "\<exists>m. hash_loop sha fn none_hash bs n (int k * bs) idx prev acc r =
           Inr (acc @ chain_from fn none_hash prev (map (block_input sha bs r) [k..<nat (n div bs)]),
                r\<lparr>prompt_embeds_per_block_hashes := m\<rparr>) \<and>
           memo_ok sha (r\<lparr>prompt_embeds_per_block_hashes := m\<rparr>)"
  using assms(2-4)
proof (induction "nat (n div bs) - k" arbitrary: k idx prev acc r)
  case 0
  have "hash_loop sha fn none_hash bs n (int k * bs) idx prev acc r = Inr (acc, r)"
    using 0(1) full_blocks [OF assms(1), of k n] by (subst hash_loop.simps) (simp add: Let_def)
  moreover have "r = r\<lparr>prompt_embeds_per_block_hashes := prompt_embeds_per_block_hashes r\<rparr>" by simp
  moreover have "[k..<nat (n div bs)] = []" using 0(1) by simp
  ultimately show ?case using 0(3) by (metis append_Nil2 chain_from.simps(1) list.map(1))
next
  case (Suc d)
  define e where "e = int k * bs + bs"
  have k: "k < nat (n div bs)" using Suc(2) by simp
  then have e: "e \<le> n" "e = int (Suc k) * bs"
    using full_blocks [OF assms(1), of k n] by (simp_all add: e_def distrib_right)
  obtain idx' m where gen: "generate_block_hash_extra_keys sha r (int k * bs) e idx =
      Inr ((block_keys sha r (int k * bs) e, idx'), r\<lparr>prompt_embeds_per_block_hashes := m\<rparr>)"
      "mm_idx_ok (mm_features r) e idx'" "memo_ok sha (r\<lparr>prompt_embeds_per_block_hashes := m\<rparr>)"
    using generate_extra_keys_spec [OF Suc(4,3) _ Suc(5), of e] assms(1) by (auto simp: e_def)
  define r1 where "r1 = r\<lparr>prompt_embeds_per_block_hashes := m\<rparr>"
  define bh where "bh = hash_block_tokens fn none_hash prev (fst (block_input sha bs r k))
    (snd (block_input sha bs r k))"
  have step: "hash_loop sha fn none_hash bs n (int k * bs) idx prev acc r =
      hash_loop sha fn none_hash bs n (int (Suc k) * bs) idx' (Some bh) (acc @ [bh]) r1"
    using e(1) assms(1) gen(1) e(2)
    by (subst hash_loop.simps) (simp add: Let_def e_def r1_def bh_def block_input_def)
  have "\<exists>m. hash_loop sha fn none_hash bs n (int (Suc k) * bs) idx' (Some bh) (acc @ [bh]) r1 =
      Inr ((acc @ [bh]) @ chain_from fn none_hash (Some bh) (map (block_input sha bs r1) [Suc k..<nat (n div bs)]),
           r1\<lparr>prompt_embeds_per_block_hashes := m\<rparr>) \<and>
      memo_ok sha (r1\<lparr>prompt_embeds_per_block_hashes := m\<rparr>)"
    by (rule Suc(1)) (use Suc(2,3) gen(2,3) e(2) in \<open>simp_all add: r1_def\<close>)
  then show ?case using k by (simp add: step upt_rec [of k] r1_def bh_def Let_def)
qed

text \<open>
  Hashing the new full blocks of a request whose hashes are in step: it succeeds and the
  hashes become those of every full block, if no multi-modal item other than the last
  reaches the first new block.
\<close>

lemma update_block_hashes_in_step:
  assumes bs: "0 < bs" and sorted: "mm_sorted (mm_features r)"
    and step: "hashes_in_step sha fn none_hash bs r"
    and mm: "0 < length (block_hashes r) \<Longrightarrow>
       \<forall>f \<in> set (butlast (mm_features r)). mm_end f \<le> int (length (block_hashes r)) * bs"
  shows "\<exists>r'. update_block_hashes (Some (request_block_hasher sha fn none_hash bs)) r = Inr r' \<and>
           hashes_in_step sha fn none_hash bs r' \<and>
           block_hashes r' = ref_hashes sha fn none_hash bs r (nat (num_tokens r div bs))"
proof -
  define k where "k = length (block_hashes r)"
  define N where "N = nat (num_tokens r div bs)"
  have hs: "block_hashes r = ref_hashes sha fn none_hash bs r k" and memo: "memo_ok sha r"
    using step by (simp_all add: hashes_in_step_def k_def)
  have kN: "k \<le> N"
  proof -
    have "int k * bs \<le> num_tokens r" using step by (simp add: hashes_in_step_def k_def)
    then have "int k \<le> num_tokens r div bs" using bs by (simp add: le_div_iff_mult_le)
    then show ?thesis unfolding N_def by linarith
  qed
  have idx: "mm_idx_ok (mm_features r) (int k * bs) (if 0 < int k * bs then - 1 else 0)"
    using mm bs by (auto simp: mm_idx_ok_def k_def zero_less_mult_iff)
  define prev where "prev = (if block_hashes r \<noteq> [] then Some (last (block_hashes r)) else None)"
  have prev: "prev = (if [0..<k] = [] then None
      else Some (last (chain_from fn none_hash None (map (block_input sha bs r) [0..<k]))))"
    using hs by (auto simp: prev_def ref_hashes_def k_def)
  have "\<exists>m. request_block_hasher sha fn none_hash bs r =
      Inr (chain_from fn none_hash prev (map (block_input sha bs r) [k..<N]),
           r\<lparr>prompt_embeds_per_block_hashes := m\<rparr>) \<and> memo_ok sha (r\<lparr>prompt_embeds_per_block_hashes := m\<rparr>)"
  proof (cases "num_tokens r < int k * bs + bs")
    case True
    then have "N \<le> k" using full_blocks [OF bs, of k "num_tokens r"] by (simp add: N_def)
    moreover have "request_block_hasher sha fn none_hash bs r = Inr ([], r)"
      using True by (simp add: request_block_hasher_def k_def)
    ultimately show ?thesis using memo
      by (intro exI [of _ "prompt_embeds_per_block_hashes r"]) simp
  next
    case False
    then show ?thesis
      using hash_loop_spec [OF bs sorted memo idx, of fn none_hash "num_tokens r" prev "[]"]
      by (simp add: request_block_hasher_def k_def [symmetric] prev_def N_def Let_def)
  qed
  then obtain m where m: "request_block_hasher sha fn none_hash bs r =
      Inr (chain_from fn none_hash prev (map (block_input sha bs r) [k..<N]),
           r\<lparr>prompt_embeds_per_block_hashes := m\<rparr>)" "memo_ok sha (r\<lparr>prompt_embeds_per_block_hashes := m\<rparr>)"
    by blast
  have "[0..<N] = [0..<k] @ [k..<N]" using kN by (metis le_add_diff_inverse less_eq_nat.simps(1) upt_add_eq_append)
  then have all: "block_hashes r @ chain_from fn none_hash prev (map (block_input sha bs r) [k..<N]) =
      ref_hashes sha fn none_hash bs r N"
    using hs prev by (simp add: ref_hashes_def chain_from_append)
  have "0 \<le> num_tokens r div bs"
    using bs by (simp add: pos_imp_zdiv_nonneg_iff num_tokens_def)
  then have "int N * bs \<le> num_tokens r"
    using le_div_iff_mult_le [OF bs, of "num_tokens r div bs" "num_tokens r"] by (simp add: N_def)
  with m all show ?thesis
    by (simp add: update_block_hashes_def hashes_in_step_def memo_ok_def ref_hashes_def
        num_tokens_def N_def)
qed

section \<open>The hasher touches only the memo\<close>

lemma memo_same: "\<exists>m. r = r\<lparr>prompt_embeds_per_block_hashes := m\<rparr>"
  by (rule exI [of _ "prompt_embeds_per_block_hashes r"]) simp

lemma gen_prompt_embeds_memo_only:
  assumes "gen_prompt_embeds_extra_hash_keys sha r s e = (ks, r')"
  shows "\<exists>m. r' = r\<lparr>prompt_embeds_per_block_hashes := m\<rparr>"
proof (cases "r' = r")
  case True
  then show ?thesis using memo_same by simp
next
  case False
  with assms show ?thesis
    by (auto simp: gen_prompt_embeds_extra_hash_keys_def Let_def split: option.splits)
qed

lemma generate_memo_only:
  assumes "generate_block_hash_extra_keys sha r s e idx = Inr (x, r')"
  shows "\<exists>m. r' = r\<lparr>prompt_embeds_per_block_hashes := m\<rparr>"
proof -
  obtain ks r1 where k: "gen_prompt_embeds_extra_hash_keys sha r s e = (ks, r1)" by fastforce
  from assms have "r' = r1"
    by (auto simp: generate_block_hash_extra_keys_def bindE_eq_Inr k)
  with gen_prompt_embeds_memo_only [OF k] show ?thesis by simp
qed

lemma hash_loop_memo_only:
  "hash_loop sha fn none_hash bs n s idx prev acc r = Inr (hs, r') \<Longrightarrow>
   \<exists>m. r' = r\<lparr>prompt_embeds_per_block_hashes := m\<rparr>"
proof (induction sha fn none_hash bs n s idx prev acc r rule: hash_loop.induct)
  case (1 sha fn none_hash bs n s idx prev acc r)
  show ?case
  proof (cases "n < s + bs \<or> bs \<le> 0")
    case True
    with 1(2) have "r' = r" by (subst (asm) hash_loop.simps) (simp add: Let_def)
    then show ?thesis using memo_same by simp
  next
    case False
    with 1(2) obtain ks idx' r1 where
        gen: "generate_block_hash_extra_keys sha r s (s + bs) idx = Inr ((ks, idx'), r1)"
      and rec: "hash_loop sha fn none_hash bs n (s + bs) idx'
        (Some (hash_block_tokens fn none_hash prev (py_slice (all_token_ids r1) s (s + bs)) ks))
        (acc @ [hash_block_tokens fn none_hash prev (py_slice (all_token_ids r1) s (s + bs)) ks]) r1
        = Inr (hs, r')"
      by (subst (asm) hash_loop.simps) (auto simp: Let_def bindE_eq_Inr)
    from 1(1) [OF refl False refl rec]
    obtain m where "r' = r1\<lparr>prompt_embeds_per_block_hashes := m\<rparr>" by blast
    with generate_memo_only [OF gen] show ?thesis by auto
  qed
qed

interpretation rh: request_hasher "request_block_hasher sha fn none_hash bs"
  for sha fn none_hash bs
proof unfold_locales
  fix r hs r'
  assume run: "request_block_hasher sha fn none_hash bs r = Inr (hs, r')"
  show "\<exists>m. r' = r\<lparr>prompt_embeds_per_block_hashes := m\<rparr>"
  proof (cases "num_tokens r < int (length (block_hashes r)) * bs + bs")
    case True
    with run have "r' = r" by (simp add: request_block_hasher_def)
    then show ?thesis using memo_same by simp
  next
    case False
    with run show ?thesis
      by (auto simp: request_block_hasher_def Let_def intro: hash_loop_memo_only)
  qed
qed

section \<open>Appending tokens keeps the hashes in step\<close>

lemma py_slice_append:
  "0 \<le> i \<Longrightarrow> i \<le> j \<Longrightarrow> j \<le> int (length xs) \<Longrightarrow> py_slice (xs @ ys) i j = py_slice xs i j"
  by (simp add: py_slice_nonneg nat_le_iff)

lemma block_input_append:
  assumes "0 < bs" "int (Suc k) * bs \<le> int (length (all_token_ids r))"
    and "all_token_ids r' = all_token_ids r @ new" "mm_features r' = mm_features r"
    and "lora_request r' = lora_request r" "cache_salt r' = cache_salt r"
    and "prompt_embeds r' = prompt_embeds r"
  shows "block_input sha bs r' k = block_input sha bs r k"
proof -
  have "int k * bs + bs \<le> int (length (all_token_ids r))" using assms(2) by (simp add: distrib_right)
  then show ?thesis using assms
    by (simp add: block_input_def block_keys_def embeds_block_keys_def gen_lora_extra_hash_keys_def
        gen_cache_salt_keys_def py_slice_append)
qed

lemma hashes_in_step_append:
  assumes bs: "0 < bs" and step: "hashes_in_step sha fn none_hash bs r"
    and toks: "all_token_ids r' = all_token_ids r @ new"
    and same: "mm_features r' = mm_features r" "lora_request r' = lora_request r"
      "cache_salt r' = cache_salt r" "prompt_embeds r' = prompt_embeds r"
      "prompt_embeds_per_block_hashes r' = prompt_embeds_per_block_hashes r"
      "block_hashes r' = block_hashes r"
  shows "hashes_in_step sha fn none_hash bs r'"
proof -
  have len: "int (length (block_hashes r)) * bs \<le> int (length (all_token_ids r))"
    using step by (simp add: hashes_in_step_def num_tokens_def)
  have "block_input sha bs r' k = block_input sha bs r k" if "k < length (block_hashes r)" for k
  proof (rule block_input_append)
    have "int (Suc k) * bs \<le> int (length (block_hashes r)) * bs"
      using that bs by (intro mult_right_mono) simp_all
    with len show "int (Suc k) * bs \<le> int (length (all_token_ids r))" by simp
  qed (use bs toks same in simp_all)
  then have "ref_hashes sha fn none_hash bs r' (length (block_hashes r)) =
      ref_hashes sha fn none_hash bs r (length (block_hashes r))"
    unfolding ref_hashes_def by (intro arg_cong [where f = "chain_from fn none_hash None"] map_cong) auto
  with step len toks same show ?thesis
    by (auto simp: hashes_in_step_def memo_ok_def num_tokens_def)
qed

lemma append_output_in_step:
  assumes bs: "0 < bs" and sorted: "mm_sorted (mm_features r)"
    and step: "hashes_in_step sha fn none_hash bs r"
    and mm: "0 < length (block_hashes r) \<Longrightarrow>
       \<forall>f \<in> set (butlast (mm_features r)). mm_end f \<le> int (length (block_hashes r)) * bs"
  shows "\<exists>r'. append_output_token_ids (Some (request_block_hasher sha fn none_hash bs)) now arg r = Inr r' \<and>
           all_token_ids r' = all_token_ids r @ (case arg of OneToken t \<Rightarrow> [t] | TokenList ts \<Rightarrow> ts) \<and>
           hashes_in_step sha fn none_hash bs r' \<and>
           int (length (block_hashes r')) = num_tokens r' div bs"
proof -
  define new where "new = (case arg of OneToken t \<Rightarrow> [t] | TokenList ts \<Rightarrow> ts)"
  define r1 where "r1 = r\<lparr>output_token_ids := output_token_ids r @ new,
                         all_token_ids := all_token_ids r @ new\<rparr>"
  obtain t where app: "append_output_token_ids (Some (request_block_hasher sha fn none_hash bs)) now arg r =
      update_block_hashes (Some (request_block_hasher sha fn none_hash bs))
        ((update_prob_short None t r1)\<lparr>taper_last_token_time := now\<rparr>)"
    by (cases arg) (auto simp: append_output_token_ids_def Let_def r1_def new_def)
  obtain p where p: "update_prob_short None t r1 = r1\<lparr>prob_short := p\<rparr>"
    using update_prob_short_only by blast
  define r2 where "r2 = r1\<lparr>prob_short := p, taper_last_token_time := now\<rparr>"
  have r2: "all_token_ids r2 = all_token_ids r @ new" "mm_features r2 = mm_features r"
      "block_hashes r2 = block_hashes r"
    by (simp_all add: r2_def r1_def)
  have in2: "hashes_in_step sha fn none_hash bs r2"
    by (rule hashes_in_step_append [OF bs step r2(1)]) (simp_all add: r2_def r1_def)
  obtain r' where r': "update_block_hashes (Some (request_block_hasher sha fn none_hash bs)) r2 = Inr r'"
      "hashes_in_step sha fn none_hash bs r'"
      "block_hashes r' = ref_hashes sha fn none_hash bs r2 (nat (num_tokens r2 div bs))"
    using update_block_hashes_in_step [OF bs _ in2] sorted mm r2(2,3) by auto
  have "all_token_ids r' = all_token_ids r2" using rh.update_block_hashes_only [OF r'(1)] by auto
  moreover have "0 \<le> num_tokens r2 div bs"
    using bs by (simp add: pos_imp_zdiv_nonneg_iff num_tokens_def)
  ultimately have "int (length (block_hashes r')) = num_tokens r' div bs"
    using r'(3) by (simp add: num_tokens_def)
  with \<open>all_token_ids r' = all_token_ids r2\<close> r' r2 show ?thesis
    by (auto simp: app p r2_def new_def)
qed

lemma init_request_in_step:
  assumes bs: "0 < bs" and sorted: "mm_sorted (case ecr_mm_features a of Some fs \<Rightarrow> fs | None \<Rightarrow> [])"
    and run: "init_request (Some (request_block_hasher sha fn none_hash bs)) now oid a = Inr r"
  shows "hashes_in_step sha fn none_hash bs r" and "int (length (block_hashes r)) = num_tokens r div bs"
proof -
  from run obtain mt st n so arr r1 where
      r1: "update_block_hashes (Some (request_block_hasher sha fn none_hash bs))
             (new_request oid a so arr mt st n) = Inr r1"
    and r: "r = r1\<lparr>skip_reading_prefix_cache := get_skip_reading_prefix_cache r1\<rparr>"
    by (auto simp only: init_request_def Let_def bindE_eq_Inr split_paired_all split_beta Inr_inject)
  define r0 where "r0 = new_request oid a so arr mt st n"
  have r0: "hashes_in_step sha fn none_hash bs r0" "mm_sorted (mm_features r0)" "block_hashes r0 = []"
    using sorted by (simp_all add: r0_def new_request_def hashes_in_step_def memo_ok_def num_tokens_def
        ref_hashes_def split: option.splits)
  from update_block_hashes_in_step [OF bs r0(2,1)] r0(3) r1
  have in_step: "hashes_in_step sha fn none_hash bs r1"
      "block_hashes r1 = ref_hashes sha fn none_hash bs r0 (nat (num_tokens r0 div bs))"
    by (simp_all add: r0_def)
  show "hashes_in_step sha fn none_hash bs r"
    using hashes_in_step_append [OF bs in_step(1), of r "[]"] by (simp add: r)
  have "all_token_ids r1 = all_token_ids r0" using rh.update_block_hashes_only [OF r1] by (auto simp: r0_def)
  moreover have "0 \<le> num_tokens r0 div bs"
    using bs by (simp add: pos_imp_zdiv_nonneg_iff num_tokens_def)
  ultimately show "int (length (block_hashes r)) = num_tokens r div bs"
    using in_step(2) by (simp add: r num_tokens_def)
qed

section \<open>The requests of the engine\<close>

text \<open>A request as its constructor and any number of appended outputs leave it.\<close>

inductive served_request ::
    "(byte_string \<Rightarrow> byte_string) \<Rightarrow> (hash_input \<Rightarrow> byte_string) \<Rightarrow> byte_string \<Rightarrow> int \<Rightarrow> request \<Rightarrow>
     bool" for sha fn none_hash bs where
  served_init: "init_request (Some (request_block_hasher sha fn none_hash bs)) now oid a = Inr r \<Longrightarrow>
     served_request sha fn none_hash bs r"
| served_append: "served_request sha fn none_hash bs r \<Longrightarrow>
     append_output_token_ids (Some (request_block_hasher sha fn none_hash bs)) now arg r = Inr r' \<Longrightarrow>
     served_request sha fn none_hash bs r'"

text \<open>
  Placeholders in order and inside the prompt; and if the prompt fills a block, no item but the last
  reaches into its last, partly filled block.
\<close>

definition mm_settled :: "int \<Rightarrow> request \<Rightarrow> bool" where
  "mm_settled bs r \<longleftrightarrow>
     mm_sorted (mm_features r) \<and> (\<forall>f \<in> set (mm_features r). mm_end f \<le> num_prompt_tokens r) \<and>
     (num_prompt_tokens r < bs \<or>
      (\<forall>f \<in> set (butlast (mm_features r)). mm_end f \<le> num_prompt_tokens r div bs * bs))"

lemma append_output_keeps:
  assumes "append_output_token_ids (Some (request_block_hasher sha fn none_hash bs)) now arg r = Inr r'"
  shows "mm_features r' = mm_features r" and "num_prompt_tokens r' = num_prompt_tokens r"
    and "all_token_ids r' = all_token_ids r @ (case arg of OneToken t \<Rightarrow> [t] | TokenList ts \<Rightarrow> ts)"
proof -
  define new where "new = (case arg of OneToken t \<Rightarrow> [t] | TokenList ts \<Rightarrow> ts)"
  define r1 where "r1 = r\<lparr>output_token_ids := output_token_ids r @ new,
                         all_token_ids := all_token_ids r @ new\<rparr>"
  obtain t where run: "update_block_hashes (Some (request_block_hasher sha fn none_hash bs))
        ((update_prob_short None t r1)\<lparr>taper_last_token_time := now\<rparr>) = Inr r'"
    using assms by (cases arg) (auto simp: append_output_token_ids_def Let_def r1_def new_def)
  obtain p where "update_prob_short None t r1 = r1\<lparr>prob_short := p\<rparr>"
    using update_prob_short_only by blast
  with rh.update_block_hashes_only [OF run]
  show "mm_features r' = mm_features r" "num_prompt_tokens r' = num_prompt_tokens r"
    "all_token_ids r' = all_token_ids r @ (case arg of OneToken t \<Rightarrow> [t] | TokenList ts \<Rightarrow> ts)"
    by (auto simp: r1_def new_def)
qed

lemma init_request_tokens:
  assumes "init_request (Some (request_block_hasher sha fn none_hash bs)) now oid a = Inr r"
  shows "mm_features r = (case ecr_mm_features a of Some fs \<Rightarrow> fs | None \<Rightarrow> [])"
    and "num_tokens r = num_prompt_tokens r"
proof -
  from assms obtain mt st n so arr r1 where
      len: "length_from_prompt_token_ids_or_embeds (ecr_prompt_token_ids a) (ecr_prompt_embeds a) = Inr n"
    and r1: "update_block_hashes (Some (request_block_hasher sha fn none_hash bs))
             (new_request oid a so arr mt st n) = Inr r1"
    and r: "r = r1\<lparr>skip_reading_prefix_cache := get_skip_reading_prefix_cache r1\<rparr>"
    by (auto simp only: init_request_def Let_def bindE_eq_Inr split_paired_all split_beta Inr_inject)
  from len have "0 \<le> n" "\<And>ts. ecr_prompt_token_ids a = Some ts \<Longrightarrow> n = int (length ts)"
    by (auto simp: length_from_prompt_token_ids_or_embeds_def split: option.splits if_splits)
  note n = this
  from rh.update_block_hashes_only [OF r1] obtain m hs where
      "r1 = (new_request oid a so arr mt st n)\<lparr>prompt_embeds_per_block_hashes := m,
        block_hashes := block_hashes (new_request oid a so arr mt st n) @ hs\<rparr>" by blast
  then have parts: "mm_features r = (case ecr_mm_features a of Some fs \<Rightarrow> fs | None \<Rightarrow> [])"
      "all_token_ids r = (case ecr_prompt_token_ids a of Some ts \<Rightarrow> ts | None \<Rightarrow> replicate (nat n) 0)"
      "num_prompt_tokens r = n"
    by (simp_all add: r new_request_def)
  show "mm_features r = (case ecr_mm_features a of Some fs \<Rightarrow> fs | None \<Rightarrow> [])" by (rule parts(1))
  show "num_tokens r = num_prompt_tokens r"
    unfolding num_tokens_def parts using n by (cases "ecr_prompt_token_ids a") simp_all
qed

lemma mm_settled_hashed:
  assumes "0 < bs" "mm_settled bs r" "num_prompt_tokens r \<le> num_tokens r"
    and "int (length (block_hashes r)) = num_tokens r div bs" "0 < length (block_hashes r)"
  shows "\<forall>f \<in> set (butlast (mm_features r)). mm_end f \<le> int (length (block_hashes r)) * bs"
proof
  fix f assume f: "f \<in> set (butlast (mm_features r))"
  show "mm_end f \<le> int (length (block_hashes r)) * bs"
  proof (cases "num_prompt_tokens r < bs")
    case True
    have "1 * bs \<le> int (length (block_hashes r)) * bs" using assms(1,5) by (intro mult_right_mono) linarith+
    moreover have "mm_end f \<le> num_prompt_tokens r" using assms(2) in_set_butlastD [OF f] by (simp add: mm_settled_def)
    ultimately show ?thesis using True by linarith
  next
    case False
    then have "mm_end f \<le> num_prompt_tokens r div bs * bs" using assms(2) f by (simp add: mm_settled_def)
    moreover have "num_prompt_tokens r div bs * bs \<le> num_tokens r div bs * bs"
      using assms(1,3) by (intro mult_right_mono zdiv_mono1) simp_all
    ultimately show ?thesis using assms(4) by simp
  qed
qed

lemma served_in_step:
  assumes bs: "0 < bs" and "served_request sha fn none_hash bs r" and "mm_settled bs r"
  shows "hashes_in_step sha fn none_hash bs r \<and> int (length (block_hashes r)) = num_tokens r div bs \<and>
    num_prompt_tokens r \<le> num_tokens r"
  using assms(2,3)
proof induction
  case (served_init now oid a r)
  note tokens = init_request_tokens [OF served_init(1)]
  with served_init(2) have "mm_sorted (case ecr_mm_features a of Some fs \<Rightarrow> fs | None \<Rightarrow> [])"
    by (simp add: mm_settled_def)
  with init_request_in_step [OF bs _ served_init(1)] tokens(2) show ?case by simp
next
  case (served_append r now arg r')
  note keeps = append_output_keeps [OF served_append.hyps(2)]
  have settled: "mm_settled bs r" using served_append.prems keeps by (simp add: mm_settled_def)
  note IH = served_append.IH [OF settled]
  have "mm_sorted (mm_features r)" using settled by (simp add: mm_settled_def)
  from append_output_in_step [OF bs this, of sha fn none_hash now arg] IH
    mm_settled_hashed [OF bs settled] served_append.hyps(2)
  have "hashes_in_step sha fn none_hash bs r' \<and> int (length (block_hashes r')) = num_tokens r' div bs"
    by fastforce
  moreover have "num_prompt_tokens r' \<le> num_tokens r'" using IH keeps by (simp add: num_tokens_def)
  ultimately show ?case by blast
qed

section \<open>Blocks filled by generated tokens\<close>

lemma mm_keys_loop_shift:
  "mm_keys_loop fs s e (i + d) ks = (let (ks', i') = mm_keys_loop fs s e i ks in (ks', i' + d))"
proof (induction fs arbitrary: i ks)
  case (Cons f fs)
  show ?case using Cons [of "i + 1"] by (simp add: Let_def add.commute add.left_commute)
qed simp

text \<open>The index into the whole list and the index into the last item alone.\<close>

definition tail_idx :: "mm_feature_spec list \<Rightarrow> int \<Rightarrow> int \<Rightarrow> bool" where
  "tail_idx fs i j \<longleftrightarrow> (i = - 1 \<and> j = - 1) \<or> (0 \<le> j \<and> i = j + int (length fs))"

lemma mm_keys_loop_grows: "snd (mm_keys_loop fs s e i ks) \<ge> i"
proof (induction fs arbitrary: i ks)
  case (Cons f fs)
  show ?case using Cons [of "i + 1"] by (force simp: Let_def intro: order_trans [of i "i + 1"])
qed simp

lemma gen_mm_tail:
  assumes "tail_idx fs i j"
  shows "\<exists>ks i' j'. gen_mm_extra_hash_keys (r\<lparr>mm_features := fs @ [g]\<rparr>) s e i = Inr (ks, i') \<and>
    gen_mm_extra_hash_keys (r\<lparr>mm_features := [g]\<rparr>) s e j = Inr (ks, j') \<and> tail_idx fs i' j'"
proof (cases "mm_end g \<le> s")
  case True
  then show ?thesis using assms by (simp add: gen_mm_extra_hash_keys_def)
next
  case False
  define j0 where "j0 = (if j = - 1 then 0 else j)"
  obtain ks j' where loop: "mm_keys_loop (drop (nat j0) [g]) s e j0 [] = (ks, j')" by fastforce
  have "0 \<le> j0" using assms by (auto simp: tail_idx_def j0_def)
  then have drop: "drop (nat (j0 + int (length fs))) (fs @ [g]) = drop (nat j0) [g]"
    by (simp add: nat_add_distrib)
  have whole: "mm_keys_loop (drop (nat j0) [g]) s e (j0 + int (length fs)) [] = (ks, j' + int (length fs))"
    using mm_keys_loop_shift [of "drop (nat j0) [g]" s e j0 "int (length fs)" "[]"] loop by simp
  have "j0 \<le> j'" using mm_keys_loop_grows [of j0 "drop (nat j0) [g]" s e "[]"] loop by simp
  with \<open>0 \<le> j0\<close> have idx: "tail_idx fs (j' + int (length fs)) j'" by (simp add: tail_idx_def)
  have "gen_mm_extra_hash_keys (r\<lparr>mm_features := [g]\<rparr>) s e j = Inr (ks, j')"
    using False assms loop by (auto simp: gen_mm_extra_hash_keys_def tail_idx_def j0_def)
  moreover have "gen_mm_extra_hash_keys (r\<lparr>mm_features := fs @ [g]\<rparr>) s e i = Inr (ks, j' + int (length fs))"
    using False assms whole drop by (auto simp: gen_mm_extra_hash_keys_def tail_idx_def j0_def Let_def)
  ultimately show ?thesis using idx by blast
qed

lemma hash_loop_tail:
  assumes "tail_idx fs i j"
  shows "hash_loop sha fn none_hash bs n s i prev acc (r\<lparr>mm_features := fs @ [g]\<rparr>) =
    map_sum id (map_prod id (mm_features_update (\<lambda>_. fs @ [g])))
      (hash_loop sha fn none_hash bs n s j prev acc (r\<lparr>mm_features := [g]\<rparr>))"
  using assms
proof (induction "nat (n - s)" arbitrary: s i j prev acc r rule: less_induct)
  case less
  let ?run = "\<lambda>s i prev acc r. hash_loop sha fn none_hash bs n s i prev acc r"
  show ?case
  proof (cases "n < s + bs \<or> bs \<le> 0")
    case True
    then show ?thesis by (subst (1 2) hash_loop.simps) (simp add: Let_def)
  next
    case False
    from gen_mm_tail [OF less.prems, where r = r and g = g and s = s and e = "s + bs"] obtain ks i' j' where
        gen: "gen_mm_extra_hash_keys (r\<lparr>mm_features := fs @ [g]\<rparr>) s (s + bs) i = Inr (ks, i')"
          "gen_mm_extra_hash_keys (r\<lparr>mm_features := [g]\<rparr>) s (s + bs) j = Inr (ks, j')"
      and idx: "tail_idx fs i' j'" by blast
    obtain eks r1 where emb: "gen_prompt_embeds_extra_hash_keys sha r s (s + bs) = (eks, r1)" by fastforce
    have r1: "all_token_ids r1 = all_token_ids r"
      using emb by (auto simp: gen_prompt_embeds_extra_hash_keys_def Let_def split: option.splits)
    have emb': "gen_prompt_embeds_extra_hash_keys sha (r\<lparr>mm_features := xs\<rparr>) s (s + bs) =
        (eks, r1\<lparr>mm_features := xs\<rparr>)" for xs
      using emb by (auto simp: gen_prompt_embeds_extra_hash_keys_def Let_def split: option.splits)
    define k where "k = (let ks' = gen_lora_extra_hash_keys r @ ks @ gen_cache_salt_keys r s @ eks
      in if ks' = [] then None else Some ks')"
    define h where "h = hash_block_tokens fn none_hash prev (py_slice (all_token_ids r) s (s + bs)) k"
    have step: "?run s i0 prev acc (r\<lparr>mm_features := xs\<rparr>) =
        ?run (s + bs) i1 (Some h) (acc @ [h]) (r1\<lparr>mm_features := xs\<rparr>)"
      if "gen_mm_extra_hash_keys (r\<lparr>mm_features := xs\<rparr>) s (s + bs) i0 = Inr (ks, i1)" for i0 i1 xs
      using False that emb' [of xs] r1
      by (subst hash_loop.simps) (simp add: generate_block_hash_extra_keys_def Let_def h_def k_def
          gen_lora_extra_hash_keys_def gen_cache_salt_keys_def)
    have "nat (n - (s + bs)) < nat (n - s)" using False by linarith
    from less.hyps [OF this idx] show ?thesis unfolding step [OF gen(1)] step [OF gen(2)] .
  qed
qed

lemma update_block_hashes_tail:
  assumes "0 < bs" "block_hashes r \<noteq> []" "mm_features r = fs @ [g]"
  shows "update_block_hashes (Some (request_block_hasher sha fn none_hash bs)) r =
    map_sum id (mm_features_update (\<lambda>_. fs @ [g]))
      (update_block_hashes (Some (request_block_hasher sha fn none_hash bs)) (r\<lparr>mm_features := [g]\<rparr>))"
proof -
  have s: "0 < int (length (block_hashes r)) * bs" using assms(1,2) by simp
  have r: "r\<lparr>mm_features := fs @ [g]\<rparr> = r" unfolding assms(3) [symmetric] by simp
  have "request_block_hasher sha fn none_hash bs r =
      map_sum id (map_prod id (mm_features_update (\<lambda>_. fs @ [g])))
        (request_block_hasher sha fn none_hash bs (r\<lparr>mm_features := [g]\<rparr>))"
    using s hash_loop_tail [where fs = fs and i = "- 1" and j = "- 1" and r = r and g = g] r
    by (simp add: request_block_hasher_def Let_def tail_idx_def num_tokens_def)
  then show ?thesis
    by (cases "request_block_hasher sha fn none_hash bs (r\<lparr>mm_features := [g]\<rparr>)")
      (auto simp: update_block_hashes_def)
qed

lemma update_prob_short_features:
  "update_prob_short l t (r\<lparr>mm_features := fs\<rparr>) = (update_prob_short l t r)\<lparr>mm_features := fs\<rparr>"
proof (cases "case (sampling_params r, t) of (Some sp, Some t) \<Rightarrow> t \<in> all_stop_token_ids sp | _ \<Rightarrow> False")
  case True
  then have "update_prob_short l t r = r\<lparr>prob_short := 1\<rparr>"
    "update_prob_short l t (r\<lparr>mm_features := fs\<rparr>) = r\<lparr>mm_features := fs, prob_short := 1\<rparr>"
    unfolding update_prob_short_def by simp_all
  then show ?thesis by simp
next
  case False
  define p where "p = max (prob_short r) (max (min 1 (real_of_int (num_output_tokens r) / real_of_int (max 1 (max_tokens r))))
    (case map_option (\<lambda>l. max 0 (min 1 (exp l))) l of None \<Rightarrow> 0 | Some p \<Rightarrow> p))"
  have "num_output_tokens (r\<lparr>mm_features := fs\<rparr>) = num_output_tokens r" by (simp add: num_output_tokens_def)
  with False have "update_prob_short l t r = r\<lparr>prob_short := p\<rparr>"
    "update_prob_short l t (r\<lparr>mm_features := fs\<rparr>) = r\<lparr>mm_features := fs, prob_short := p\<rparr>"
    unfolding update_prob_short_def Let_def p_def by simp_all
  then show ?thesis by simp
qed

lemma append_output_tail:
  assumes "0 < bs" "block_hashes r \<noteq> []" "mm_features r = fs @ [g]"
  shows "append_output_token_ids (Some (request_block_hasher sha fn none_hash bs)) now arg r =
    map_sum id (mm_features_update (\<lambda>_. fs @ [g]))
      (append_output_token_ids (Some (request_block_hasher sha fn none_hash bs)) now arg (r\<lparr>mm_features := [g]\<rparr>))"
proof -
  define new where "new = (case arg of OneToken t \<Rightarrow> [t] | TokenList ts \<Rightarrow> ts)"
  define t where "t = (case arg of OneToken t \<Rightarrow> Some t | TokenList ts \<Rightarrow> if ts \<noteq> [] then Some (last ts) else None)"
  define put where "put q = q\<lparr>output_token_ids := output_token_ids q @ new, all_token_ids := all_token_ids q @ new\<rparr>"
    for q :: request
  define grow where "grow q = (update_prob_short None t (put q))\<lparr>taper_last_token_time := now\<rparr>" for q
  have app: "append_output_token_ids hasher now arg q = update_block_hashes hasher (grow q)" for hasher q
    by (cases arg) (simp_all add: append_output_token_ids_def grow_def put_def new_def t_def)
  have "put (r\<lparr>mm_features := [g]\<rparr>) = (put r)\<lparr>mm_features := [g]\<rparr>" by (simp add: put_def)
  then have features: "grow (r\<lparr>mm_features := [g]\<rparr>) = (grow r)\<lparr>mm_features := [g]\<rparr>"
    by (simp add: grow_def update_prob_short_features)
  obtain p where "update_prob_short None t (put r) = (put r)\<lparr>prob_short := p\<rparr>"
    using update_prob_short_only by blast
  then have "block_hashes (grow r) \<noteq> []" "mm_features (grow r) = fs @ [g]"
    using assms(2,3) by (simp_all add: grow_def put_def)
  from update_block_hashes_tail [OF assms(1) this] show ?thesis unfolding app features .
qed

lemma block_keys_miss_item:
  assumes "f \<in> set fs" "mm_overlap s e f"
  shows "block_keys sha (r\<lparr>mm_features := fs @ [g]\<rparr>) s e \<noteq> block_keys sha (r\<lparr>mm_features := [g]\<rparr>) s e"
proof
  let ?common = "\<lambda>ks. gen_lora_extra_hash_keys r @ ks @ gen_cache_salt_keys r s @ embeds_block_keys sha r s e"
  have keys: "block_keys sha (r\<lparr>mm_features := xs\<rparr>) s e =
      (let ks = ?common (mm_block_keys xs s e) in if ks = [] then None else Some ks)" for xs
    by (simp add: block_keys_def gen_lora_extra_hash_keys_def gen_cache_salt_keys_def embeds_block_keys_def)
  assume "block_keys sha (r\<lparr>mm_features := fs @ [g]\<rparr>) s e = block_keys sha (r\<lparr>mm_features := [g]\<rparr>) s e"
  then have "length (mm_block_keys (fs @ [g]) s e) = length (mm_block_keys [g] s e)"
    unfolding keys Let_def by (auto split: if_splits dest: arg_cong [where f = length])
  then have "mm_block_keys fs s e = []" by (simp add: mm_block_keys_append)
  with assms show False by (auto simp: mm_block_keys_def filter_empty_conv)
qed

section \<open>Equal hashes mean equal prefixes\<close>













section \<open>Properties of block hashing\<close>

text \<open>A hash function for concrete instances, which lists its arguments, and requests to hash.\<close>

fun key_bytes :: "extra_key \<Rightarrow> byte_string" where
  "key_bytes (KeyStr s) = map of_char s"
| "key_bytes (KeyMm s n) = map of_char s @ [word_of_int n]"
| "key_bytes (KeyBytes b) = b"

definition list_hash :: "hash_input \<Rightarrow> byte_string" where
  "list_hash x = (case x of (p, ts, ks) \<Rightarrow> 1 # p @ map word_of_int ts @
     (case ks of None \<Rightarrow> [] | Some keys \<Rightarrow> concat (map key_bytes keys)))"

definition example_item :: "string \<Rightarrow> int \<Rightarrow> mm_feature_spec" where
  "example_item h pos = \<lparr>mm_identifier = h, mm_position = \<lparr>offset = pos, pr_length = 1, is_embed = None\<rparr>\<rparr>"

definition example_arrival :: "string \<Rightarrow> int list \<Rightarrow> mm_feature_spec list \<Rightarrow> engine_core_request" where
  "example_arrival rid toks fs =
     \<lparr>ecr_request_id = rid, ecr_external_req_id = None, ecr_client_index = 0, ecr_prompt_token_ids = Some toks,
      ecr_prompt_embeds = None, ecr_mm_features = Some fs, ecr_sampling_params = None,
      ecr_pooling_params = Some \<lparr>pp_skip_reading_prefix_cache = None\<rparr>, ecr_arrival_time = Some 0,
      ecr_lora_request = None, ecr_cache_salt = None, ecr_priority = 0, ecr_resumable = False,
      ecr_abort_immediately = False\<rparr>"

definition example_request :: "nat \<Rightarrow> string \<Rightarrow> int list \<Rightarrow> mm_feature_spec list \<Rightarrow> request" where
  "example_request oid rid toks fs =
     new_request oid (example_arrival rid toks fs) False 0 1 WAITING (int (length toks))"

lemmas example_hashing = init_request_def example_arrival_def example_request_def example_item_def new_request_def
  length_from_prompt_token_ids_or_embeds_def update_block_hashes_def request_block_hasher_def hash_loop.simps
  generate_block_hash_extra_keys_def gen_mm_extra_hash_keys_def gen_lora_extra_hash_keys_def
  gen_prompt_embeds_extra_hash_keys_def gen_cache_salt_keys_def hash_block_tokens_def list_hash_def
  num_tokens_def py_slice_def py_bound_def get_skip_reading_prefix_cache_def Let_def



text \<open>
  C8. The incremental hasher is complete and cannot fail, for requests as the constructor and any
  appended outputs leave them whose multi-modal items are in order and inside the prompt and, if the
  prompt fills a block, reach into its last, partly filled block at most with the last item. Appending
  output tokens succeeds, and before and after it the request has exactly one hash for every full block
  of its tokens, the chained hash of the tokens and of all that identifies the contents of that block.
\<close>

theorem append_output_hashes_every_full_block:
  assumes "0 < bs" and "served_request sha fn none_hash bs r" and "mm_settled bs r"
  shows "block_hashes r = ref_hashes sha fn none_hash bs r (nat (num_tokens r div bs)) \<and>
    (\<exists>r'. append_output_token_ids (Some (request_block_hasher sha fn none_hash bs)) now arg r = Inr r' \<and>
       all_token_ids r' = all_token_ids r @ (case arg of OneToken t \<Rightarrow> [t] | TokenList ts \<Rightarrow> ts) \<and>
       block_hashes r' = ref_hashes sha fn none_hash bs r' (nat (num_tokens r' div bs)))"
proof -
  have hashes: "block_hashes q = ref_hashes sha fn none_hash bs q (nat (num_tokens q div bs))"
    if "hashes_in_step sha fn none_hash bs q" "int (length (block_hashes q)) = num_tokens q div bs" for q
    using that unfolding hashes_in_step_def by (metis nat_int)
  note served = served_in_step [OF assms]
  have "mm_sorted (mm_features r)" using assms(3) by (simp add: mm_settled_def)
  from append_output_in_step [OF assms(1) this, of sha fn none_hash now arg] served
    mm_settled_hashed [OF assms(1,3)]
  obtain r' where "append_output_token_ids (Some (request_block_hasher sha fn none_hash bs)) now arg r = Inr r'"
    "hashes_in_step sha fn none_hash bs r'" "int (length (block_hashes r')) = num_tokens r' div bs"
    by auto
  with append_output_keeps(3) hashes served show ?thesis by blast
qed

theorem append_output_hashes_every_full_block_witness:
  "\<exists>r r'. init_request (Some (request_block_hasher id list_hash [0] 2)) 0 0 (example_arrival ''a'' [5, 6, 7] [example_item ''x'' 2]) = Inr r \<and>
     append_output_token_ids (Some (request_block_hasher id list_hash [0] 2)) 1 (OneToken 8) r = Inr r' \<and>
     all_token_ids r' = [5, 6, 7, 8] \<and> block_hashes r' = ref_hashes id list_hash [0] 2 r' 2"
proof -
  let ?r = "(example_request 0 ''a'' [5, 6, 7] [example_item ''x'' 2])\<lparr>block_hashes := [[1, 0, 5, 6]]\<rparr>"
  have run: "init_request (Some (request_block_hasher id list_hash [0] 2)) 0 0
      (example_arrival ''a'' [5, 6, 7] [example_item ''x'' 2]) = Inr ?r"
    by (simp add: example_hashing)
  have "mm_settled 2 ?r" "all_token_ids ?r = [5, 6, 7]"
    by (simp_all add: mm_settled_def example_request_def new_request_def example_arrival_def example_item_def)
  with append_output_hashes_every_full_block [OF _ served_init [OF run], of 1 "OneToken 8"] run
  show ?thesis by (fastforce simp: num_tokens_def)
qed

text \<open>
  C38. A LoRA name and a cache salt are put into the key tuple as plain strings, so a request
  served by the adapter \<open>l\<close> without a salt and a request to the base model whose salt is the
  adapter's name get the same hash for their first block, whatever the hash function.
\<close>

theorem lora_name_collides_with_cache_salt:
  assumes "mm_features r = []" and "prompt_embeds r = None" and "block_hashes r = []"
    and "0 < bs" and "bs \<le> num_tokens r" and "num_tokens r < 2 * bs" and "lora_name l \<noteq> []"
  shows "\<exists>h. request_block_hasher sha fn none_hash bs (r\<lparr>lora_request := Some l, cache_salt := None\<rparr>)
               = Inr ([h], r\<lparr>lora_request := Some l, cache_salt := None\<rparr>) \<and>
             request_block_hasher sha fn none_hash bs
               (r\<lparr>lora_request := None, cache_salt := Some (lora_name l)\<rparr>)
               = Inr ([h], r\<lparr>lora_request := None, cache_salt := Some (lora_name l)\<rparr>)"
  using assms
  by (simp add: request_block_hasher_def Let_def num_tokens_def hash_loop.simps
      generate_block_hash_extra_keys_def gen_mm_extra_hash_keys_def
      gen_prompt_embeds_extra_hash_keys_def gen_lora_extra_hash_keys_def gen_cache_salt_keys_def)

theorem lora_name_collides_with_cache_salt_witness:
  "\<exists>h. request_block_hasher id list_hash [0] 2
         ((plain_request 0 ''a'' [5, 6, 7])\<lparr>lora_request := Some \<lparr>lora_name = ''x'', lora_int_id = 1\<rparr>, cache_salt := None\<rparr>)
         = Inr ([h], (plain_request 0 ''a'' [5, 6, 7])\<lparr>lora_request := Some \<lparr>lora_name = ''x'', lora_int_id = 1\<rparr>, cache_salt := None\<rparr>) \<and>
       request_block_hasher id list_hash [0] 2
         ((plain_request 0 ''a'' [5, 6, 7])\<lparr>lora_request := None, cache_salt := Some ''x''\<rparr>)
         = Inr ([h], (plain_request 0 ''a'' [5, 6, 7])\<lparr>lora_request := None, cache_salt := Some ''x''\<rparr>)"
  using lora_name_collides_with_cache_salt [of "plain_request 0 ''a'' [5, 6, 7]" 2
      "\<lparr>lora_name = ''x'', lora_int_id = 1\<rparr>" id list_hash "[0]"]
  by (simp add: num_tokens_def)

text \<open>
  C39. Once a block of a request is hashed, the hasher looks only at the last multi-modal item: the
  blocks that appended tokens fill are hashed as if the request had no other item, whatever the hash
  function, although an item that reaches into the first of these blocks is part of its contents.
\<close>

theorem tail_block_hash_ignores_earlier_items:
  assumes "0 < bs" and "block_hashes r \<noteq> []" and "mm_features r = fs @ [g]"
    and "s = int (length (block_hashes r)) * bs" and "f \<in> set fs" and "mm_overlap s (s + bs) f"
  shows "append_output_token_ids (Some (request_block_hasher sha fn none_hash bs)) now arg r =
      map_sum id (mm_features_update (\<lambda>_. fs @ [g]))
        (append_output_token_ids (Some (request_block_hasher sha fn none_hash bs)) now arg (r\<lparr>mm_features := [g]\<rparr>)) \<and>
    block_keys sha r s (s + bs) \<noteq> block_keys sha (r\<lparr>mm_features := [g]\<rparr>) s (s + bs)"
proof -
  have "r\<lparr>mm_features := fs @ [g]\<rparr> = r" unfolding assms(3) [symmetric] by simp
  then show ?thesis using append_output_tail [OF assms(1-3)] block_keys_miss_item [OF assms(5,6)] by metis
qed

theorem tail_block_hash_ignores_earlier_items_witness:
  "\<exists>rx ry rx' ry'.
     init_request (Some (request_block_hasher id list_hash [0] 4)) 0 0
       (example_arrival ''a'' [1, 2, 3, 4, 5, 6] [example_item ''x'' 4, example_item ''z'' 5]) = Inr rx \<and>
     init_request (Some (request_block_hasher id list_hash [0] 4)) 0 0
       (example_arrival ''a'' [1, 2, 3, 4, 5, 6] [example_item ''y'' 4, example_item ''z'' 5]) = Inr ry \<and>
     append_output_token_ids (Some (request_block_hasher id list_hash [0] 4)) 1 (TokenList [7, 8]) rx = Inr rx' \<and>
     append_output_token_ids (Some (request_block_hasher id list_hash [0] 4)) 1 (TokenList [7, 8]) ry = Inr ry' \<and>
     length (block_hashes rx') = 2 \<and> block_hashes rx' = block_hashes ry'"
proof -
  define r where "r fs = (example_request 0 ''a'' [1, 2, 3, 4, 5, 6] fs)\<lparr>block_hashes := [[1, 0, 1, 2, 3, 4]]\<rparr>" for fs
  let ?z = "example_item ''z'' 5"
  have init: "init_request (Some (request_block_hasher id list_hash [0] 4)) 0 0
      (example_arrival ''a'' [1, 2, 3, 4, 5, 6] [example_item h 4, ?z]) = Inr (r [example_item h 4, ?z])" for h
    by (simp add: r_def example_hashing)
  have r: "mm_features (r fs) = fs" "block_hashes (r fs) = [[1, 0, 1, 2, 3, 4]]"
      "(r fs)\<lparr>mm_features := gs\<rparr> = r gs" for fs gs
    by (simp_all add: r_def example_request_def example_arrival_def new_request_def)
  obtain r0 where r0: "append_output_token_ids (Some (request_block_hasher id list_hash [0] 4)) 1 (TokenList [7, 8])
      (r [?z]) = Inr r0" and len: "length (block_hashes r0) = 2"
    by (simp add: r_def example_hashing append_output_token_ids_def update_prob_short_def)
  have "append_output_token_ids (Some (request_block_hasher id list_hash [0] 4)) 1 (TokenList [7, 8])
      (r [example_item h 4, ?z]) = Inr (r0\<lparr>mm_features := [example_item h 4, ?z]\<rparr>)" for h
    using tail_block_hash_ignores_earlier_items [where r = "r [example_item h 4, ?z]" and fs = "[example_item h 4]"
        and g = ?z and bs = 4 and s = 4 and f = "example_item h 4" and sha = id and fn = list_hash
        and none_hash = "[0]" and now = 1 and arg = "TokenList [7, 8]"] r0
    by (simp add: r mm_overlap_def example_item_def)
  then show ?thesis using init len by fastforce
qed

text \<open>
  C35. The cache key of a block packs its hash and its group id without loss: for every group id
  of four bytes packing succeeds, both parts are recovered, and keys of different pairs differ.
\<close>

theorem packed_key_lossless:
  assumes "0 \<le> g" and "g < 2 ^ 32"
  shows "\<exists>key. make_block_hash_with_group_id bh g = Inr key \<and> get_block_hash key = bh \<and>
           get_group_id key = g \<and>
           (\<forall>bh' g'. make_block_hash_with_group_id bh' g' = Inr key \<longrightarrow> bh' = bh \<and> g' = g)"
  using make_key_total [OF assms, of bh] packed_key_round_trip make_key_inj by metis

theorem packed_key_lossless_witness:
  "\<exists>key. make_block_hash_with_group_id [7, 8] 258 = Inr key \<and> get_block_hash key = [7, 8] \<and>
     get_group_id key = 258"
  using packed_key_lossless [of 258 "[7, 8]"] by auto

end
