(* ===== verification/Block_Pool.thy ===== *)
theory Block_Pool
  imports Block_Map Block_Hash
begin

text \<open>
  \<^verbatim>\<open>BlockPool\<close> of \<^verbatim>\<open>vllm/v1/core/block_pool.py\<close>: allocation, reference counting, caching and
  eviction of blocks over the free queue and the cache map.

  The block objects live in the store of the free queue. The metrics collector and log
  messages are left out; the event queue is kept. A Python set of block ids is given as the
  list of its elements in iteration order.

  \<open>pool_inv\<close> is the invariant: the free queue holds exactly the real blocks with reference
  count zero, no real block has a negative count, and a block is in the cache map under a key
  exactly when it carries that key. Every operation keeps it, and under it no operation raises
  on the inputs its callers give.
\<close>

section \<open>State\<close>

datatype kv_cache_event =
    BlockStored
      (bs_hashes: "external_block_hash list")
      (bs_parent: "external_block_hash option")
      (bs_tokens: "int list")
      (bs_block_size: int)
      (bs_lora_id: "int option")
      (bs_lora_name: "string option")
      (bs_extra_keys: "extra_key list option list option")
      (bs_group: int)
  | BlockRemoved (br_hash: external_block_hash) (br_group: int)
  | AllBlocksCleared

text \<open>\<open>use_int_hashes\<close> is the environment variable read by \<^verbatim>\<open>maybe_convert_block_hash\<close>.\<close>

record block_pool =
  num_gpu_blocks :: int
  enable_caching :: bool
  hash_block_size :: int
  free_block_queue :: free_queue
  cached_block_hash_to_block :: block_map
  null_block :: ref
  enable_kv_cache_events :: bool
  kv_event_queue :: "kv_cache_event list"
  use_int_hashes :: bool

abbreviation pool_heap :: "block_pool \<Rightarrow> store" where
  "pool_heap p \<equiv> heap (free_block_queue p)"

abbreviation pool_ids :: "block_pool \<Rightarrow> ref \<Rightarrow> int" where
  "pool_ids p \<equiv> \<lambda>b. block_id (pool_heap p b)"

definition pool_blocks :: "block_pool \<Rightarrow> ref list" where
  "pool_blocks p = map Blk [0..<nat (num_gpu_blocks p)]"

definition put_heap :: "store \<Rightarrow> block_pool \<Rightarrow> block_pool" where
  "put_heap h p = p\<lparr>free_block_queue := (free_block_queue p)\<lparr>heap := h\<rparr>\<rparr>"

definition add_ref :: "int \<Rightarrow> ref \<Rightarrow> block_pool \<Rightarrow> block_pool" where
  "add_ref d b p =
     put_heap ((pool_heap p)(b := (pool_heap p b)\<lparr>ref_cnt := ref_cnt (pool_heap p b) + d\<rparr>)) p"

definition fresh_blocks :: store where
  "fresh_blocks b = (case b of Blk i \<Rightarrow> new_kv_cache_block (int i) | _ \<Rightarrow> new_kv_cache_block (- 1))"

definition init_block_pool :: "int \<Rightarrow> bool \<Rightarrow> int \<Rightarrow> bool \<Rightarrow> bool \<Rightarrow> block_pool res" where
  "init_block_pool num_blocks caching hash_size use_events use_int =
     assertE (0 < num_blocks)
       (let q = init_free_queue fresh_blocks (map Blk [0..<nat num_blocks])
        in bindE (popleft q) (\<lambda>(null, q').
             Inr \<lparr>num_gpu_blocks = num_blocks, enable_caching = caching,
                  hash_block_size = hash_size,
                  free_block_queue =
                    q'\<lparr>heap := (heap q')(null := (heap q' null)\<lparr>is_null := True\<rparr>)\<rparr>,
                  cached_block_hash_to_block = Map.empty, null_block = null,
                  enable_kv_cache_events = use_events, kv_event_queue = [],
                  use_int_hashes = use_int\<rparr>))"

section \<open>Lookup and caching\<close>

fun get_cached_block :: "block_pool \<Rightarrow> byte_string \<Rightarrow> int list \<Rightarrow> ref list option res" where
  "get_cached_block p bh [] = Inr (Some [])"
| "get_cached_block p bh (g # gs) =
     bindE (make_block_hash_with_group_id bh g) (\<lambda>key.
     bindE (get_one_block (cached_block_hash_to_block p) key) (\<lambda>blk.
       case blk of
         None \<Rightarrow> Inr None
       | Some b \<Rightarrow> bindE (get_cached_block p bh gs) (\<lambda>rest. Inr (map_option ((#) b) rest))))"

text \<open>The request's hashes, as they are or through \<^verbatim>\<open>BlockHashListWithBlockSize\<close>.\<close>

datatype hash_view = PlainHashes "byte_string list" | ScaledHashes block_hash_list

fun view_from :: "hash_view \<Rightarrow> int \<Rightarrow> byte_string list res" where
  "view_from (PlainHashes hs) i = Inr (py_slice hs i (int (length hs)))"
| "view_from (ScaledHashes l) i = bhl_from l i"

fun view_at :: "hash_view \<Rightarrow> int \<Rightarrow> byte_string res" where
  "view_at (PlainHashes hs) i = py_get hs i"
| "view_at (ScaledHashes l) i = Inr (bhl_get_value_at l i)"

definition hash_view_of :: "block_pool \<Rightarrow> request \<Rightarrow> int \<Rightarrow> hash_view res" where
  "hash_view_of p r block_size =
     (if block_size = hash_block_size p then Inr (PlainHashes (block_hashes r))
      else if hash_block_size p = 0 then Inl ZeroDivisionError
      else assertE (block_size mod hash_block_size p = 0)
        (bindE (init_block_hash_list (block_hashes r) (hash_block_size p) block_size)
          (\<lambda>l. Inr (ScaledHashes l))))"

text \<open>One iteration of the loop over the new full blocks; \<open>i\<close> is the enumeration index.\<close>

definition cache_block_step ::
    "byte_string list \<Rightarrow> int \<Rightarrow> nat \<times> ref \<Rightarrow> block_pool \<times> external_block_hash list \<Rightarrow>
     (block_pool \<times> external_block_hash list) res" where
  "cache_block_step new_block_hashes group_id x st =
     (case (x, st) of ((i, blk), (p, new_hashes)) \<Rightarrow>
        if is_null (pool_heap p blk) then Inr (p, new_hashes)
        else assertE (block_hash (pool_heap p blk) = None)
          (bindE (py_get new_block_hashes (int i)) (\<lambda>bh.
           bindE (make_block_hash_with_group_id bh group_id) (\<lambda>key.
           bindE (set_block_hash (pool_heap p) blk key) (\<lambda>h.
             let p1 = put_heap h p;
                 p2 = p1\<lparr>cached_block_hash_to_block :=
                        map_insert (pool_ids p1) key blk (cached_block_hash_to_block p1)\<rparr>
             in Inr (p2, if enable_kv_cache_events p
                         then new_hashes @ [maybe_convert_block_hash (use_int_hashes p) bh]
                         else new_hashes))))))"

text \<open>One iteration of the loop that collects the extra keys for the event.\<close>

definition event_keys_step ::
    "(byte_string \<Rightarrow> byte_string) \<Rightarrow> block_pool \<Rightarrow> ref list \<Rightarrow> int \<Rightarrow> int \<Rightarrow>
     extra_key list option list \<times> int \<times> request \<Rightarrow>
     (extra_key list option list \<times> int \<times> request) res" where
  "event_keys_step sha p blocks block_size i st =
     (case st of (keys, mm_idx, r) \<Rightarrow>
        bindE (py_get blocks i) (\<lambda>blk.
          if is_null (pool_heap p blk) then Inr (keys, mm_idx, r)
          else bindE (generate_block_hash_extra_keys sha r (i * block_size)
                       (i * block_size + block_size) mm_idx)
                 (\<lambda>((ks, mm_idx'), r'). Inr (keys @ [ks], mm_idx', r'))))"

text \<open>The part of \<^verbatim>\<open>cache_full_blocks\<close> that publishes a \<^verbatim>\<open>BlockStored\<close> event.\<close>

definition store_event ::
    "(byte_string \<Rightarrow> byte_string) \<Rightarrow> request \<Rightarrow> ref list \<Rightarrow> int \<Rightarrow> int \<Rightarrow> int \<Rightarrow> int \<Rightarrow> hash_view \<Rightarrow>
     external_block_hash list \<Rightarrow> block_pool \<Rightarrow> (block_pool \<times> request) res" where
  "store_event sha r blocks num_cached num_full block_size group_id view new_hashes p =
     (if \<not> enable_kv_cache_events p then Inr (p, r)
      else
        bindE (if num_cached = 0 then Inr None
               else bindE (view_at view (num_cached - 1))
                 (\<lambda>bh. Inr (Some (maybe_convert_block_hash (use_int_hashes p) bh)))) (\<lambda>parent.
        bindE (fold_res (event_keys_step sha p blocks block_size)
                [num_cached..num_full - 1] ([], 0, r)) (\<lambda>(keys, _, r').
        Inr (p\<lparr>kv_event_queue := kv_event_queue p @
                 [BlockStored new_hashes parent
                   (py_slice (all_token_ids r) (num_cached * block_size) (num_full * block_size))
                   block_size (map_option lora_int_id (lora_request r))
                   (map_option lora_name (lora_request r))
                   (if keys = [] then None else Some keys) group_id]\<rparr>, r'))))"

definition cache_full_blocks ::
    "(byte_string \<Rightarrow> byte_string) \<Rightarrow> request \<Rightarrow> ref list \<Rightarrow> int \<Rightarrow> int \<Rightarrow> int \<Rightarrow> int \<Rightarrow> block_pool \<Rightarrow>
     (block_pool \<times> request) res" where
  "cache_full_blocks sha r blocks num_cached num_full block_size group_id p =
     (if num_full \<le> num_cached then Inr (p, r)
      else
        let new_full_blocks = py_slice blocks num_cached num_full
        in assertE (num_full \<le> int (length (block_hashes r)))
          (bindE (hash_view_of p r block_size) (\<lambda>view.
           bindE (view_from view num_cached) (\<lambda>new_block_hashes.
           bindE (fold_res (cache_block_step new_block_hashes group_id)
                   (enumerate 0 new_full_blocks) (p, [])) (\<lambda>(p1, new_hashes).
           store_event sha r blocks num_cached num_full block_size group_id view new_hashes p1)))))"

section \<open>Allocation and release\<close>

definition get_num_free_blocks :: "block_pool \<Rightarrow> int" where
  "get_num_free_blocks p = num_free_blocks (free_block_queue p)"

definition maybe_evict_cached_block :: "ref \<Rightarrow> block_pool \<Rightarrow> bool \<times> block_pool" where
  "maybe_evict_cached_block b p =
     (case block_hash (pool_heap p b) of
        None \<Rightarrow> (False, p)
      | Some key \<Rightarrow>
          (case map_pop (pool_ids p) key (block_id (pool_heap p b)) (cached_block_hash_to_block p) of
             (None, m) \<Rightarrow> (False, p\<lparr>cached_block_hash_to_block := m\<rparr>)
           | (Some _, m) \<Rightarrow>
               let p1 = put_heap (reset_hash (pool_heap p) b) (p\<lparr>cached_block_hash_to_block := m\<rparr>)
               in (True,
                   if enable_kv_cache_events p1
                   then p1\<lparr>kv_event_queue := kv_event_queue p1 @
                          [BlockRemoved (maybe_convert_block_hash (use_int_hashes p) (get_block_hash key))
                            (get_group_id key)]\<rparr>
                   else p1)))"

definition take_block_step :: "ref \<Rightarrow> block_pool \<Rightarrow> block_pool res" where
  "take_block_step b p =
     (let p1 = (if enable_caching p then snd (maybe_evict_cached_block b p) else p)
      in assertE (ref_cnt (pool_heap p1 b) = 0) (Inr (add_ref 1 b p1)))"

definition get_new_blocks :: "int \<Rightarrow> block_pool \<Rightarrow> (ref list \<times> block_pool) res" where
  "get_new_blocks num_blocks p =
     (if get_num_free_blocks p < num_blocks then Inl ValueError
      else bindE (popleft_n num_blocks (free_block_queue p)) (\<lambda>(ret, q).
           bindE (fold_res take_block_step ret (p\<lparr>free_block_queue := q\<rparr>)) (\<lambda>p'.
           Inr (ret, p'))))"

definition touch_step :: "ref \<Rightarrow> block_pool \<Rightarrow> block_pool res" where
  "touch_step b p =
     bindE (if ref_cnt (pool_heap p b) = 0 \<and> \<not> is_null (pool_heap p b)
            then bindE (remove b (free_block_queue p)) (\<lambda>q. Inr (p\<lparr>free_block_queue := q\<rparr>))
            else Inr p)
       (\<lambda>p1. Inr (add_ref 1 b p1))"

definition touch :: "ref list \<Rightarrow> block_pool \<Rightarrow> block_pool res" where
  "touch blocks p = fold_res touch_step blocks p"

definition free_blocks :: "ref list \<Rightarrow> block_pool \<Rightarrow> block_pool res" where
  "free_blocks ordered_blocks p =
     (let p1 = fold (add_ref (- 1)) ordered_blocks p
      in bindE (append_n (filter (\<lambda>b. ref_cnt (pool_heap p1 b) = 0 \<and> \<not> is_null (pool_heap p1 b))
                           ordered_blocks) (free_block_queue p1))
           (\<lambda>q. Inr (p1\<lparr>free_block_queue := q\<rparr>)))"

definition evict_blocks :: "int list \<Rightarrow> block_pool \<Rightarrow> block_pool res" where
  "evict_blocks block_ids p =
     fold_res (\<lambda>i p. assertE (i < int (length (pool_blocks p)))
       (bindE (py_get (pool_blocks p) i) (\<lambda>b. Inr (snd (maybe_evict_cached_block b p))))) block_ids p"

definition reset_prefix_cache :: "block_pool \<Rightarrow> bool \<times> block_pool" where
  "reset_prefix_cache p =
     (if num_gpu_blocks p - get_num_free_blocks p \<noteq> 1 then (False, p)
      else
        let p1 = p\<lparr>cached_block_hash_to_block := Map.empty\<rparr>;
            p2 = fold (\<lambda>b p. put_heap (reset_hash (pool_heap p) b) p) (pool_blocks p1) p1
        in (True,
            if enable_kv_cache_events p2
            then p2\<lparr>kv_event_queue := kv_event_queue p2 @ [AllBlocksCleared]\<rparr> else p2))"

definition get_usage :: "block_pool \<Rightarrow> real" where
  "get_usage p =
     (let total = num_gpu_blocks p - 1
      in if total = 0 then 0
         else 1 - real_of_int (get_num_free_blocks p) / real_of_int total)"

definition take_kv_events :: "block_pool \<Rightarrow> kv_cache_event list \<times> block_pool" where
  "take_kv_events p =
     (if \<not> enable_kv_cache_events p then ([], p)
      else (kv_event_queue p, p\<lparr>kv_event_queue := []\<rparr>))"

section \<open>The invariant\<close>

definition real_block :: "block_pool \<Rightarrow> ref \<Rightarrow> bool" where
  "real_block p b \<longleftrightarrow> (\<exists>i. b = Blk i \<and> 0 < i \<and> int i < num_gpu_blocks p)"

definition data_ok :: "block_pool \<Rightarrow> bool" where
  "data_ok p \<longleftrightarrow>
     0 < num_gpu_blocks p \<and> null_block p = Blk 0 \<and>
     is_null (pool_heap p (Blk 0)) \<and> block_hash (pool_heap p (Blk 0)) = None \<and>
     (\<forall>i. int i < num_gpu_blocks p \<longrightarrow> block_id (pool_heap p (Blk i)) = int i) \<and>
     (\<forall>b. real_block p b \<longrightarrow> \<not> is_null (pool_heap p b) \<and> 0 \<le> ref_cnt (pool_heap p b))"

definition cache_ok :: "block_pool \<Rightarrow> bool" where
  "cache_ok p \<longleftrightarrow>
     map_wf (pool_ids p) (cached_block_hash_to_block p) \<and>
     (\<forall>key. blocks_at (cached_block_hash_to_block p) key =
             {b. real_block p b \<and> block_hash (pool_heap p b) = Some key})"

definition pool_core :: "block_pool \<Rightarrow> ref list \<Rightarrow> bool" where
  "pool_core p xs \<longleftrightarrow> data_ok p \<and> cache_ok p \<and> queue_rep (free_block_queue p) xs"

definition unused_blocks :: "block_pool \<Rightarrow> ref set" where
  "unused_blocks p = {b. real_block p b \<and> ref_cnt (pool_heap p b) = 0}"

definition pool_rep :: "block_pool \<Rightarrow> ref list \<Rightarrow> bool" where
  "pool_rep p xs \<longleftrightarrow> pool_core p xs \<and> set xs = unused_blocks p"

definition pool_inv :: "block_pool \<Rightarrow> bool" where
  "pool_inv p \<longleftrightarrow> (\<exists>xs. pool_rep p xs)"

lemma real_block_iff [simp]:
  "real_block p FakeHead = False" "real_block p FakeTail = False"
  "real_block p (Blk i) \<longleftrightarrow> 0 < i \<and> int i < num_gpu_blocks p"
  by (auto simp: real_block_def)

lemma real_block_cong: "num_gpu_blocks p' = num_gpu_blocks p \<Longrightarrow> real_block p' b = real_block p b"
  by (simp add: real_block_def)

lemma real_block_Blk: "real_block p b \<Longrightarrow> b \<in> range Blk"
  by (auto simp: real_block_def)

lemma pool_rep_count: "pool_rep p xs \<Longrightarrow> get_num_free_blocks p = int (length xs)"
  by (simp add: pool_rep_def pool_core_def get_num_free_blocks_def lq.rep_count)

lemma pool_rep_distinct: "pool_rep p xs \<Longrightarrow> distinct xs"
  using lq.rep_distinct by (auto simp: pool_rep_def pool_core_def)

lemma pool_rep_free: "pool_rep p xs \<Longrightarrow> b \<in> set xs \<Longrightarrow> real_block p b \<and> ref_cnt (pool_heap p b) = 0"
  by (auto simp: pool_rep_def unused_blocks_def)

lemma ids_inj:
  assumes "data_ok p" "\<forall>b \<in> B. real_block p b"
  shows "inj_on (pool_ids p) B"
proof (rule inj_onI)
  fix x y
  assume xy: "x \<in> B" "y \<in> B" "pool_ids p x = pool_ids p y"
  then obtain i j where "x = Blk i" "y = Blk j" "int i < num_gpu_blocks p" "int j < num_gpu_blocks p"
    using assms(2) by (metis real_block_def)
  with xy assms(1) show "x = y" by (auto simp: data_ok_def)
qed

text \<open>Changes of the queue that keep the data, and changes of the data that keep the links.\<close>

lemma data_ok_cong:
  assumes "data_ok p" "num_gpu_blocks p' = num_gpu_blocks p" "null_block p' = null_block p"
    and "\<And>b. block_id (pool_heap p' b) = block_id (pool_heap p b)"
    and "\<And>b. is_null (pool_heap p' b) = is_null (pool_heap p b)"
    and "block_hash (pool_heap p' (Blk 0)) = block_hash (pool_heap p (Blk 0))"
    and "\<And>b. real_block p b \<Longrightarrow> 0 \<le> ref_cnt (pool_heap p' b)"
  shows "data_ok p'"
  using assms by (simp add: data_ok_def real_block_cong [OF assms(2)])

lemma cache_ok_cong:
  assumes "cache_ok p" "num_gpu_blocks p' = num_gpu_blocks p"
    and "cached_block_hash_to_block p' = cached_block_hash_to_block p"
    and "\<And>b. block_id (pool_heap p' b) = block_id (pool_heap p b)"
    and "\<And>b. real_block p b \<Longrightarrow> block_hash (pool_heap p' b) = block_hash (pool_heap p b)"
  shows "cache_ok p'"
proof -
  have "{b. real_block p' b \<and> block_hash (pool_heap p' b) = Some key} =
      {b. real_block p b \<and> block_hash (pool_heap p b) = Some key}" for key
    using assms(5) real_block_cong [OF assms(2)] by auto
  with assms show ?thesis by (simp add: cache_ok_def)
qed

lemma pool_core_queue:
  assumes "pool_core p xs" "queue_rep q ys" "same_data (pool_heap p) (heap q)"
  shows "pool_core (p\<lparr>free_block_queue := q\<rparr>) ys"
proof -
  let ?p = "p\<lparr>free_block_queue := q\<rparr>"
  have "data_ok ?p"
    by (rule data_ok_cong [of p]) (use assms in \<open>auto simp: pool_core_def same_data_def data_ok_def\<close>)
  moreover have "cache_ok ?p"
    by (rule cache_ok_cong [of p]) (use assms in \<open>auto simp: pool_core_def same_data_def\<close>)
  ultimately show ?thesis using assms(2) by (simp add: pool_core_def)
qed

lemma put_heap_simps [simp]:
  "pool_heap (put_heap h p) = h"
  "num_gpu_blocks (put_heap h p) = num_gpu_blocks p"
  "enable_caching (put_heap h p) = enable_caching p"
  "hash_block_size (put_heap h p) = hash_block_size p"
  "null_block (put_heap h p) = null_block p"
  "enable_kv_cache_events (put_heap h p) = enable_kv_cache_events p"
  "cached_block_hash_to_block (put_heap h p) = cached_block_hash_to_block p"
  "use_int_hashes (put_heap h p) = use_int_hashes p"
  "real_block (put_heap h p) = real_block p"
  by (simp_all add: put_heap_def real_block_def fun_eq_iff)

lemma add_ref_simps [simp]:
  "num_gpu_blocks (add_ref d b p) = num_gpu_blocks p"
  "enable_caching (add_ref d b p) = enable_caching p"
  "null_block (add_ref d b p) = null_block p"
  "cached_block_hash_to_block (add_ref d b p) = cached_block_hash_to_block p"
  "num_free_blocks (free_block_queue (add_ref d b p)) = num_free_blocks (free_block_queue p)"
  "block_id (pool_heap (add_ref d b p) c) = block_id (pool_heap p c)"
  "is_null (pool_heap (add_ref d b p) c) = is_null (pool_heap p c)"
  "block_hash (pool_heap (add_ref d b p) c) = block_hash (pool_heap p c)"
  "ref_cnt (pool_heap (add_ref d b p) c) = ref_cnt (pool_heap p c) + (if c = b then d else 0)"
  "real_block (add_ref d b p) = real_block p"
  by (simp_all add: add_ref_def put_heap_def real_block_def fun_eq_iff)

lemma pool_core_add_ref:
  assumes "pool_core p xs" "real_block p b \<Longrightarrow> 0 \<le> ref_cnt (pool_heap p b) + d"
  shows "pool_core (add_ref d b p) xs"
proof -
  have "data_ok (add_ref d b p)"
    by (rule data_ok_cong [of p]) (use assms in \<open>auto simp: pool_core_def data_ok_def\<close>)
  moreover have "cache_ok (add_ref d b p)"
    by (rule cache_ok_cong [of p]) (use assms in \<open>auto simp: pool_core_def\<close>)
  moreover have "queue_rep (free_block_queue (add_ref d b p)) xs"
    unfolding add_ref_def put_heap_def
    using assms(1) by (auto simp: pool_core_def intro!: lq.rep_put_store simp: same_links_def)
  ultimately show ?thesis by (simp add: pool_core_def)
qed

section \<open>Eviction from the cache\<close>

definition evicted :: "ref \<Rightarrow> block_pool \<Rightarrow> block_map \<Rightarrow> kv_cache_event list \<Rightarrow> block_pool" where
  "evicted b p m ev =
     p\<lparr>free_block_queue := (free_block_queue p)\<lparr>heap := (pool_heap p)(b := (pool_heap p b)\<lparr>block_hash := None\<rparr>)\<rparr>,
       cached_block_hash_to_block := m, kv_event_queue := ev\<rparr>"

lemma evicted_simps [simp]:
  "num_gpu_blocks (evicted b p m ev) = num_gpu_blocks p"
  "enable_caching (evicted b p m ev) = enable_caching p"
  "null_block (evicted b p m ev) = null_block p"
  "cached_block_hash_to_block (evicted b p m ev) = m"
  "block_id (pool_heap (evicted b p m ev) c) = block_id (pool_heap p c)"
  "is_null (pool_heap (evicted b p m ev) c) = is_null (pool_heap p c)"
  "block_hash (pool_heap (evicted b p m ev) c) = (if c = b then None else block_hash (pool_heap p c))"
  "ref_cnt (pool_heap (evicted b p m ev) c) = ref_cnt (pool_heap p c)"
  "num_free_blocks (free_block_queue (evicted b p m ev)) = num_free_blocks (free_block_queue p)"
  "real_block (evicted b p m ev) = real_block p"
  by (simp_all add: evicted_def real_block_def fun_eq_iff)

lemma queue_rep_evicted:
  "queue_rep (free_block_queue p) xs \<Longrightarrow> queue_rep (free_block_queue (evicted b p m ev)) xs"
  unfolding evicted_def by (auto intro!: lq.rep_put_store simp: same_links_def)

lemma maybe_evict_unhashed:
  "block_hash (pool_heap p b) = None \<Longrightarrow> maybe_evict_cached_block b p = (False, p)"
  by (simp add: maybe_evict_cached_block_def)

lemma maybe_evict_hashed:
  assumes core: "pool_core p xs" and b: "real_block p b" and key: "block_hash (pool_heap p b) = Some key"
  shows "\<exists>m ev. maybe_evict_cached_block b p = (True, evicted b p m ev) \<and>
           pool_core (evicted b p m ev) xs"
proof -
  let ?m = "cached_block_hash_to_block p"
  define m where "m = snd (map_pop (pool_ids p) key (pool_ids p b) ?m)"
  have wf: "map_wf (pool_ids p) ?m" and at_key: "\<And>k. blocks_at ?m k =
      {c. real_block p c \<and> block_hash (pool_heap p c) = Some k}" and data: "data_ok p"
    using core by (auto simp: pool_core_def cache_ok_def)
  have inj: "inj_on (pool_ids p) (insert b (blocks_at ?m key))"
    using b by (intro ids_inj [OF data]) (simp add: at_key)
  have "b \<in> blocks_at ?m key" using b key by (simp add: at_key)
  then have pop: "map_pop (pool_ids p) key (pool_ids p b) ?m = (Some b, m)"
    using bm.pop_law [OF wf inj] by (simp add: m_def prod_eq_iff)
  define ev where "ev = (if enable_kv_cache_events p then kv_event_queue p @
      [BlockRemoved (maybe_convert_block_hash (use_int_hashes p) (get_block_hash key)) (get_group_id key)]
    else kv_event_queue p)"
  have "maybe_evict_cached_block b p = (True, evicted b p m ev)"
    by (simp add: maybe_evict_cached_block_def key pop Let_def put_heap_def reset_hash_def
        evicted_def ev_def)
  moreover have "data_ok (evicted b p m ev)"
    by (rule data_ok_cong [of p]) (use data b in \<open>auto simp: data_ok_def\<close>)
  moreover have "cache_ok (evicted b p m ev)"
  proof -
    have "map_wf (pool_ids p) m" unfolding m_def by (rule bm.pop_wf [OF wf])
    moreover have "blocks_at m k = (if k = key then blocks_at ?m key - {b} else blocks_at ?m k)" for k
      using bm.pop_law [OF wf inj, of k] by (simp add: m_def)
    ultimately show ?thesis using key by (auto simp: cache_ok_def at_key)
  qed
  ultimately show ?thesis using core queue_rep_evicted by (auto simp: pool_core_def)
qed

text \<open>What evicting block \<open>i\<close> leaves, whether it was cached or not.\<close>

lemma maybe_evict_spec:
  assumes core: "pool_core p xs" and b: "b = Blk i" "int i < num_gpu_blocks p"
  shows "pool_core (snd (maybe_evict_cached_block b p)) xs"
    and "fst (maybe_evict_cached_block b p) \<longleftrightarrow> block_hash (pool_heap p b) \<noteq> None"
    and "block_hash (pool_heap (snd (maybe_evict_cached_block b p)) c) =
           (if c = b then None else block_hash (pool_heap p c))"
    and "ref_cnt (pool_heap (snd (maybe_evict_cached_block b p)) c) = ref_cnt (pool_heap p c)"
    and "num_gpu_blocks (snd (maybe_evict_cached_block b p)) = num_gpu_blocks p"
    and "enable_caching (snd (maybe_evict_cached_block b p)) = enable_caching p"
proof -
  have "block_hash (pool_heap p b) = None \<or>
      (\<exists>m ev. maybe_evict_cached_block b p = (True, evicted b p m ev) \<and>
              pool_core (evicted b p m ev) xs \<and> block_hash (pool_heap p b) \<noteq> None)"
  proof (cases "block_hash (pool_heap p b)")
    case (Some key)
    moreover have "0 < i"
      using Some core b by (cases "i = 0") (auto simp: pool_core_def data_ok_def)
    ultimately show ?thesis using maybe_evict_hashed [OF core, of b key] b by auto
  qed simp
  then show "pool_core (snd (maybe_evict_cached_block b p)) xs"
    and "fst (maybe_evict_cached_block b p) \<longleftrightarrow> block_hash (pool_heap p b) \<noteq> None"
    and "block_hash (pool_heap (snd (maybe_evict_cached_block b p)) c) =
           (if c = b then None else block_hash (pool_heap p c))"
    and "ref_cnt (pool_heap (snd (maybe_evict_cached_block b p)) c) = ref_cnt (pool_heap p c)"
    and "num_gpu_blocks (snd (maybe_evict_cached_block b p)) = num_gpu_blocks p"
    and "enable_caching (snd (maybe_evict_cached_block b p)) = enable_caching p"
    using core by (auto simp: maybe_evict_unhashed)
qed

section \<open>Allocation\<close>

lemma take_block_step_spec:
  assumes core: "pool_core p xs" and b: "real_block p b" and ref: "ref_cnt (pool_heap p b) = 0"
  shows "\<exists>p'. take_block_step b p = Inr p' \<and> pool_core p' xs \<and>
           num_gpu_blocks p' = num_gpu_blocks p \<and> enable_caching p' = enable_caching p \<and>
           (\<forall>c. ref_cnt (pool_heap p' c) = (if c = b then 1 else ref_cnt (pool_heap p c))) \<and>
           (\<forall>c. block_hash (pool_heap p' c) =
                  (if c = b \<and> enable_caching p then None else block_hash (pool_heap p c)))"
proof -
  obtain i where i: "b = Blk i" "int i < num_gpu_blocks p" using b by (auto simp: real_block_def)
  define p1 where "p1 = (if enable_caching p then snd (maybe_evict_cached_block b p) else p)"
  have p1: "pool_core p1 xs" "num_gpu_blocks p1 = num_gpu_blocks p" "enable_caching p1 = enable_caching p"
      "\<And>c. ref_cnt (pool_heap p1 c) = ref_cnt (pool_heap p c)"
      "\<And>c. block_hash (pool_heap p1 c) = (if c = b \<and> enable_caching p then None else block_hash (pool_heap p c))"
    using maybe_evict_spec [OF core i] core by (auto simp: p1_def)
  have "take_block_step b p = Inr (add_ref 1 b p1)"
    using ref p1(4) by (simp add: take_block_step_def p1_def [symmetric] Let_def)
  moreover have "pool_core (add_ref 1 b p1) xs"
    using p1(1,4) ref by (intro pool_core_add_ref) simp_all
  ultimately show ?thesis using p1 ref by auto
qed

lemma unused_blocks_after:
  assumes rep: "pool_rep p xs" and xs: "set ys \<subseteq> set xs"
    and "num_gpu_blocks p' = num_gpu_blocks p"
    and "\<And>c. real_block p c \<Longrightarrow> ref_cnt (pool_heap p' c) = 0 \<longleftrightarrow> ref_cnt (pool_heap p c) = 0 \<and> c \<notin> set zs"
    and "set ys = set xs - set zs"
  shows "set ys = unused_blocks p'"
  using assms by (auto simp: unused_blocks_def pool_rep_def real_block_cong [OF assms(3)])

lemma get_new_blocks_spec:
  assumes rep: "pool_rep p xs" and n: "0 \<le> n" "n \<le> int (length xs)"
  shows "\<exists>p'. get_new_blocks n p = Inr (take (nat n) xs, p') \<and> pool_rep p' (drop (nat n) xs) \<and>
           num_gpu_blocks p' = num_gpu_blocks p \<and> enable_caching p' = enable_caching p \<and>
           (\<forall>c. ref_cnt (pool_heap p' c) = (if c \<in> set (take (nat n) xs) then 1 else ref_cnt (pool_heap p c))) \<and>
           (\<forall>c. block_hash (pool_heap p' c) =
              (if c \<in> set (take (nat n) xs) \<and> enable_caching p then None else block_hash (pool_heap p c)))"
proof -
  let ?ret = "take (nat n) xs"
  have core: "pool_core p xs" and q: "queue_rep (free_block_queue p) xs" and dist: "distinct xs"
    using rep pool_rep_distinct by (auto simp: pool_rep_def pool_core_def)
  obtain q' where q': "popleft_n n (free_block_queue p) = Inr (?ret, q')" "queue_rep q' (drop (nat n) xs)"
      "same_data (pool_heap p) (heap q')"
    using lq.pop_n_law [OF q n] by blast
  define p0 where "p0 = p\<lparr>free_block_queue := q'\<rparr>"
  have p0: "pool_core p0 (drop (nat n) xs)" unfolding p0_def by (rule pool_core_queue [OF core q'(2,3)])
  have same: "ref_cnt (pool_heap p0 c) = ref_cnt (pool_heap p c)" "block_hash (pool_heap p0 c) = block_hash (pool_heap p c)" for c
    using q'(3) by (simp_all add: p0_def same_data_def)
  define I where "I before s \<longleftrightarrow> pool_core s (drop (nat n) xs) \<and>
      num_gpu_blocks s = num_gpu_blocks p \<and> enable_caching s = enable_caching p \<and>
      (\<forall>c. ref_cnt (pool_heap s c) = (if c \<in> set before then 1 else ref_cnt (pool_heap p c))) \<and>
      (\<forall>c. block_hash (pool_heap s c) =
         (if c \<in> set before \<and> enable_caching p then None else block_hash (pool_heap p c)))"
    for before and s :: block_pool
  have "\<exists>s'. fold_res take_block_step ?ret p0 = Inr s' \<and> I ?ret s'"
  proof (rule fold_res_invariant)
    show "I [] p0" using p0 same by (simp add: I_def p0_def)
    fix before b todo s
    assume ret: "?ret = before @ b # todo" and inv: "I before s"
    have "b \<in> set ?ret" unfolding ret by simp
    then have "b \<in> set xs" by (rule in_set_takeD)
    moreover have "b \<notin> set before" using distinct_take [OF dist, of "nat n"] unfolding ret by simp
    ultimately have b: "b \<notin> set before" "b \<in> set xs" by simp_all
    have "real_block s b" "ref_cnt (pool_heap s b) = 0"
      using pool_rep_free [OF rep b(2)] inv b(1) by (simp_all add: I_def real_block_cong [of s p])
    with take_block_step_spec [of s "drop (nat n) xs" b] inv
    show "\<exists>s'. take_block_step b s = Inr s' \<and> I (before @ [b]) s'" by (auto simp: I_def)
  qed
  then obtain p' where p': "fold_res take_block_step ?ret p0 = Inr p'" "I ?ret p'" by blast
  have "set (drop (nat n) xs) = set xs - set ?ret"
    using set_take_disj_set_drop_if_distinct [OF dist, of "nat n" "nat n"]
      arg_cong [OF append_take_drop_id [of "nat n" xs], of set] unfolding set_append by blast
  then have "set (drop (nat n) xs) = unused_blocks p'"
    using p'(2) by (intro unused_blocks_after [OF rep _ _ _ , of _ _ ?ret])
      (auto simp: I_def dest: in_set_dropD)
  moreover have "get_new_blocks n p = Inr (?ret, p')"
    using n pool_rep_count [OF rep] q'(1) p'(1)
    by (simp add: get_new_blocks_def p0_def)
  ultimately show ?thesis using p'(2) by (auto simp: I_def pool_rep_def)
qed

lemma get_new_blocks_too_many:
  "pool_rep p xs \<Longrightarrow> int (length xs) < n \<Longrightarrow> get_new_blocks n p = Inl ValueError"
  by (simp add: get_new_blocks_def pool_rep_count)

section \<open>Touching\<close>

lemma touch_step_spec:
  assumes rep: "pool_rep p xs" and b: "b = Blk i" "int i < num_gpu_blocks p"
  shows "\<exists>p'. touch_step b p = Inr p' \<and> pool_rep p' (remove1 b xs) \<and>
           num_gpu_blocks p' = num_gpu_blocks p \<and>
           (\<forall>c. ref_cnt (pool_heap p' c) = ref_cnt (pool_heap p c) + (if c = b then 1 else 0)) \<and>
           (\<forall>c. block_hash (pool_heap p' c) = block_hash (pool_heap p c))"
proof (cases "b \<in> set xs")
  case True
  have core: "pool_core p xs" and q: "queue_rep (free_block_queue p) xs"
    using rep by (auto simp: pool_rep_def pool_core_def)
  have free: "real_block p b" "ref_cnt (pool_heap p b) = 0" using pool_rep_free [OF rep True] by auto
  then have "\<not> is_null (pool_heap p b)" using core by (simp add: pool_core_def data_ok_def)
  obtain q' where q': "remove b (free_block_queue p) = Inr q'" "queue_rep q' (remove1 b xs)"
      "same_data (pool_heap p) (heap q')"
    using lq.del_law [OF q True] by blast
  define p1 where "p1 = p\<lparr>free_block_queue := q'\<rparr>"
  have p1: "pool_core p1 (remove1 b xs)" unfolding p1_def by (rule pool_core_queue [OF core q'(2,3)])
  have same: "ref_cnt (pool_heap p1 c) = ref_cnt (pool_heap p c)"
      "block_hash (pool_heap p1 c) = block_hash (pool_heap p c)" for c
    using q'(3) by (simp_all add: p1_def same_data_def)
  have run: "touch_step b p = Inr (add_ref 1 b p1)"
    using free q'(1) \<open>\<not> is_null (pool_heap p b)\<close> by (simp add: touch_step_def p1_def)
  have "set (remove1 b xs) = unused_blocks (add_ref 1 b p1)"
    using pool_rep_distinct [OF rep] free same rep
    by (auto simp: pool_rep_def unused_blocks_def p1_def real_block_cong [of "p\<lparr>free_block_queue := q'\<rparr>" p])
  moreover have "pool_core (add_ref 1 b p1) (remove1 b xs)"
    using p1 same free by (intro pool_core_add_ref) simp_all
  ultimately show ?thesis using run same by (auto simp: pool_rep_def p1_def)
next
  case False
  have core: "pool_core p xs" using rep by (simp add: pool_rep_def)
  have used: "\<not> (ref_cnt (pool_heap p b) = 0 \<and> \<not> is_null (pool_heap p b))"
    using False rep core b by (cases "i = 0") (auto simp: pool_rep_def unused_blocks_def pool_core_def data_ok_def)
  then have run: "touch_step b p = Inr (add_ref 1 b p)" by (auto simp: touch_step_def)
  have nn: "0 \<le> ref_cnt (pool_heap p b)" if "real_block p b"
    using core that by (simp add: pool_core_def data_ok_def)
  have "pool_core (add_ref 1 b p) xs" using core nn by (intro pool_core_add_ref) force+
  moreover have "set xs = unused_blocks (add_ref 1 b p)"
  proof -
    have "\<not> (real_block p b \<and> ref_cnt (pool_heap p b) = 0)" "real_block p b \<Longrightarrow> ref_cnt (pool_heap p b) + 1 \<noteq> 0"
      using False rep nn by (auto simp: pool_rep_def unused_blocks_def)
    with rep show ?thesis by (auto simp: pool_rep_def unused_blocks_def)
  qed
  ultimately show ?thesis using run False by (simp add: pool_rep_def remove1_idem)
qed

definition pool_block :: "block_pool \<Rightarrow> ref \<Rightarrow> bool" where
  "pool_block p b \<longleftrightarrow> (\<exists>i. b = Blk i \<and> int i < num_gpu_blocks p)"

lemma real_pool_block: "real_block p b \<Longrightarrow> pool_block p b"
  by (auto simp: real_block_def pool_block_def)

lemma pool_block_cases: "pool_block p b \<Longrightarrow> b = Blk 0 \<or> real_block p b"
  by (auto simp: real_block_def pool_block_def)

lemma touch_spec:
  assumes rep: "pool_rep p xs" and bs: "\<forall>b \<in> set bs. pool_block p b"
  shows "\<exists>p'. touch bs p = Inr p' \<and> pool_rep p' (filter (\<lambda>b. b \<notin> set bs) xs) \<and>
           num_gpu_blocks p' = num_gpu_blocks p \<and>
           (\<forall>c. ref_cnt (pool_heap p' c) = ref_cnt (pool_heap p c) + int (count_list bs c)) \<and>
           (\<forall>c. block_hash (pool_heap p' c) = block_hash (pool_heap p c))"
  unfolding touch_def
proof (rule fold_res_invariant)
  show "pool_rep p (filter (\<lambda>b. b \<notin> set []) xs) \<and> num_gpu_blocks p = num_gpu_blocks p \<and>
      (\<forall>c. ref_cnt (pool_heap p c) = ref_cnt (pool_heap p c) + int (count_list [] c)) \<and>
      (\<forall>c. block_hash (pool_heap p c) = block_hash (pool_heap p c))"
    using rep by simp
next
  fix before b todo s
  assume split: "bs = before @ b # todo" and
    inv: "pool_rep s (filter (\<lambda>b. b \<notin> set before) xs) \<and> num_gpu_blocks s = num_gpu_blocks p \<and>
      (\<forall>c. ref_cnt (pool_heap s c) = ref_cnt (pool_heap p c) + int (count_list before c)) \<and>
      (\<forall>c. block_hash (pool_heap s c) = block_hash (pool_heap p c))"
  obtain i where i: "b = Blk i" "int i < num_gpu_blocks s"
    using bs split inv by (auto simp: pool_block_def)
  obtain s' where s': "touch_step b s = Inr s'" "pool_rep s' (remove1 b (filter (\<lambda>b. b \<notin> set before) xs))"
      "num_gpu_blocks s' = num_gpu_blocks s"
      "\<forall>c. ref_cnt (pool_heap s' c) = ref_cnt (pool_heap s c) + (if c = b then 1 else 0)"
      "\<forall>c. block_hash (pool_heap s' c) = block_hash (pool_heap s c)"
    using touch_step_spec [OF conjunct1 [OF inv] i] by blast
  have "remove1 b (filter (\<lambda>b. b \<notin> set before) xs) = filter (\<lambda>c. c \<notin> set (before @ [b])) xs"
    using pool_rep_distinct [OF rep] by (auto simp: distinct_remove1_removeAll removeAll_filter_not_eq intro!: filter_cong)
  with s' inv show "\<exists>s'. touch_step b s = Inr s' \<and> pool_rep s' (filter (\<lambda>c. c \<notin> set (before @ [b])) xs) \<and>
      num_gpu_blocks s' = num_gpu_blocks p \<and>
      (\<forall>c. ref_cnt (pool_heap s' c) = ref_cnt (pool_heap p c) + int (count_list (before @ [b]) c)) \<and>
      (\<forall>c. block_hash (pool_heap s' c) = block_hash (pool_heap p c))"
    by (intro exI [of _ s']) auto
qed

section \<open>Freeing\<close>

lemma fold_add_ref:
  assumes "pool_core p xs" "\<forall>b. real_block p b \<longrightarrow> int (count_list bs b) \<le> ref_cnt (pool_heap p b)"
  shows "pool_core (fold (add_ref (- 1)) bs p) xs \<and>
         num_gpu_blocks (fold (add_ref (- 1)) bs p) = num_gpu_blocks p \<and>
         (\<forall>c. ref_cnt (pool_heap (fold (add_ref (- 1)) bs p) c) =
                ref_cnt (pool_heap p c) - int (count_list bs c)) \<and>
         (\<forall>c. is_null (pool_heap (fold (add_ref (- 1)) bs p) c) = is_null (pool_heap p c)) \<and>
         (\<forall>c. block_hash (pool_heap (fold (add_ref (- 1)) bs p) c) = block_hash (pool_heap p c))"
  using assms
proof (induction bs arbitrary: p)
  case (Cons b bs)
  have core: "pool_core (add_ref (- 1) b p) xs"
    using Cons.prems by (intro pool_core_add_ref) auto
  have "\<forall>c. real_block (add_ref (- 1) b p) c \<longrightarrow>
      int (count_list bs c) \<le> ref_cnt (pool_heap (add_ref (- 1) b p) c)"
    using Cons.prems(2) by auto
  from Cons.IH [OF core this] show ?case by auto
qed simp

lemma free_blocks_spec:
  assumes rep: "pool_rep p xs" and bs: "\<forall>b \<in> set bs. pool_block p b"
    and dist: "distinct (filter (real_block p) bs)"
    and held: "\<forall>b \<in> set bs. real_block p b \<longrightarrow> 0 < ref_cnt (pool_heap p b)"
  shows "\<exists>p'. free_blocks bs p = Inr p' \<and>
           pool_rep p' (xs @ filter (\<lambda>b. real_block p b \<and> ref_cnt (pool_heap p b) = 1) bs) \<and>
           num_gpu_blocks p' = num_gpu_blocks p \<and>
           (\<forall>c. ref_cnt (pool_heap p' c) = ref_cnt (pool_heap p c) - int (count_list bs c)) \<and>
           (\<forall>c. block_hash (pool_heap p' c) = block_hash (pool_heap p c))"
proof -
  have core: "pool_core p xs" using rep by (simp add: pool_rep_def)
  have once: "count_list bs b = (if b \<in> set bs then 1 else 0)" if "real_block p b" for b
  proof -
    have "count_list bs b = count_list (filter (real_block p) bs) b"
      using that by (induction bs) auto
    with dist that show ?thesis by (simp add: count_list_distinct)
  qed
  have nn: "0 \<le> ref_cnt (pool_heap p b)" if "real_block p b" for b
    using core that by (simp add: pool_core_def data_ok_def)
  define p1 where "p1 = fold (add_ref (- 1)) bs p"
  have "\<forall>b. real_block p b \<longrightarrow> int (count_list bs b) \<le> ref_cnt (pool_heap p b)"
    using once nn held by force
  note p1 = fold_add_ref [OF core this, folded p1_def]
  define freed where "freed = filter (\<lambda>b. real_block p b \<and> ref_cnt (pool_heap p b) = 1) bs"
  have null: "is_null (pool_heap p b) \<longleftrightarrow> \<not> real_block p b" if "b \<in> set bs" for b
    using core pool_block_cases [of p b] bs that by (auto simp: pool_core_def data_ok_def)
  have filt: "filter (\<lambda>b. ref_cnt (pool_heap p1 b) = 0 \<and> \<not> is_null (pool_heap p1 b)) bs = freed"
    unfolding freed_def by (rule filter_cong) (use p1 null once in auto)
  have "distinct freed"
  proof -
    have "freed = filter (\<lambda>b. ref_cnt (pool_heap p b) = 1) (filter (real_block p) bs)"
      by (simp add: freed_def conj_commute)
    then show ?thesis using distinct_filter [OF dist] by metis
  qed
  moreover have "set freed \<inter> set xs = {}" using pool_rep_free [OF rep] by (auto simp: freed_def)
  moreover have "set freed \<subseteq> range Blk" using real_block_Blk by (auto simp: freed_def)
  ultimately obtain q where q: "append_n freed (free_block_queue p1) = Inr q" "queue_rep q (xs @ freed)"
      "same_data (pool_heap p1) (heap q)"
    using lq.app_n_law [of "free_block_queue p1" xs freed] p1 by (auto simp: pool_core_def)
  have same: "ref_cnt (heap q c) = ref_cnt (pool_heap p1 c)" "block_hash (heap q c) = block_hash (pool_heap p1 c)" for c
    using q(3) by (simp_all add: same_data_def)
  have "pool_core (p1\<lparr>free_block_queue := q\<rparr>) (xs @ freed)"
    by (rule pool_core_queue [OF conjunct1 [OF p1] q(2,3)])
  moreover have "set (xs @ freed) = unused_blocks (p1\<lparr>free_block_queue := q\<rparr>)"
    using rep p1 once nn held
    by (auto simp: pool_rep_def unused_blocks_def freed_def same
        real_block_cong [of "p1\<lparr>free_block_queue := q\<rparr>" p] split: if_splits)
  ultimately show ?thesis
    using q(1) filt p1 same
    by (auto simp: free_blocks_def p1_def [symmetric] Let_def pool_rep_def freed_def)
qed

section \<open>Explicit eviction and reset\<close>

lemma pool_rep_same_refs:
  assumes "pool_rep p xs" "pool_core p' xs" "num_gpu_blocks p' = num_gpu_blocks p"
    and "\<And>c. ref_cnt (pool_heap p' c) = ref_cnt (pool_heap p c)"
  shows "pool_rep p' xs"
  using assms by (simp add: pool_rep_def unused_blocks_def real_block_cong [OF assms(3)])

lemma evict_blocks_spec:
  assumes rep: "pool_rep p xs" and ids: "\<forall>i \<in> set ids. 0 \<le> i \<and> i < num_gpu_blocks p"
  shows "\<exists>p'. evict_blocks ids p = Inr p' \<and> pool_rep p' xs \<and> num_gpu_blocks p' = num_gpu_blocks p \<and>
           (\<forall>c. ref_cnt (pool_heap p' c) = ref_cnt (pool_heap p c)) \<and>
           (\<forall>c. block_hash (pool_heap p' c) =
                  (if c \<in> (\<lambda>i. Blk (nat i)) ` set ids then None else block_hash (pool_heap p c)))"
  unfolding evict_blocks_def
proof (rule fold_res_invariant)
  show "pool_rep p xs \<and> num_gpu_blocks p = num_gpu_blocks p \<and>
      (\<forall>c. ref_cnt (pool_heap p c) = ref_cnt (pool_heap p c)) \<and>
      (\<forall>c. block_hash (pool_heap p c) =
             (if c \<in> (\<lambda>i. Blk (nat i)) ` set [] then None else block_hash (pool_heap p c)))"
    using rep by simp
next
  fix before i todo s
  assume split: "ids = before @ i # todo" and
    inv: "pool_rep s xs \<and> num_gpu_blocks s = num_gpu_blocks p \<and>
      (\<forall>c. ref_cnt (pool_heap s c) = ref_cnt (pool_heap p c)) \<and>
      (\<forall>c. block_hash (pool_heap s c) =
             (if c \<in> (\<lambda>i. Blk (nat i)) ` set before then None else block_hash (pool_heap p c)))"
  define s' where "s' = snd (maybe_evict_cached_block (Blk (nat i)) s)"
  have i: "0 \<le> i" "i < num_gpu_blocks s" using ids split inv by auto
  then have "i < int (length (pool_blocks s))" "pool_blocks s ! nat i = Blk (nat i)"
    by (simp_all add: pool_blocks_def)
  with i have run: "assertE (i < int (length (pool_blocks s)))
      (bindE (py_get (pool_blocks s) i) (\<lambda>b. Inr (snd (maybe_evict_cached_block b s)))) = Inr s'"
    by (simp add: py_get_nonneg s'_def)
  have core: "pool_core s xs" using inv by (simp add: pool_rep_def)
  note ev = maybe_evict_spec [OF core refl, of "nat i", folded s'_def]
  have "pool_rep s' xs"
    by (rule pool_rep_same_refs [OF conjunct1 [OF inv]]) (use ev i in simp_all)
  with run ev i inv show "\<exists>s'. assertE (i < int (length (pool_blocks s)))
      (bindE (py_get (pool_blocks s) i) (\<lambda>b. Inr (snd (maybe_evict_cached_block b s)))) = Inr s' \<and>
      pool_rep s' xs \<and> num_gpu_blocks s' = num_gpu_blocks p \<and>
      (\<forall>c. ref_cnt (pool_heap s' c) = ref_cnt (pool_heap p c)) \<and>
      (\<forall>c. block_hash (pool_heap s' c) =
             (if c \<in> (\<lambda>i. Blk (nat i)) ` set (before @ [i]) then None else block_hash (pool_heap p c)))"
    by (intro exI [of _ s']) auto
qed

lemma fold_reset_hash:
  "pool_heap (fold (\<lambda>b p. put_heap (reset_hash (pool_heap p) b) p) bs p) c =
     (if c \<in> set bs then (pool_heap p c)\<lparr>block_hash := None\<rparr> else pool_heap p c)"
  "\<exists>h. fold (\<lambda>b p. put_heap (reset_hash (pool_heap p) b) p) bs p = put_heap h p"
proof (induction bs arbitrary: p)
  case Nil
  case 2
  show ?case by (rule exI [of _ "pool_heap p"]) (simp add: put_heap_def)
next
  case (Cons b bs)
  have heap1: "reset_hash h b c = (if c = b then (h b)\<lparr>block_hash := None\<rparr> else h c)" for h c
    by (simp add: reset_hash_def)
  have twice: "put_heap h (put_heap h' p) = put_heap h p" for h h' p by (simp add: put_heap_def)
  case 1
  show ?case using Cons(1) [of "put_heap (reset_hash (pool_heap p) b) p"] by (simp add: heap1)
  case 2
  obtain h where "fold (\<lambda>b p. put_heap (reset_hash (pool_heap p) b) p) bs
      (put_heap (reset_hash (pool_heap p) b) p) = put_heap h (put_heap (reset_hash (pool_heap p) b) p)"
    using Cons(2) by blast
  then show ?case by (auto simp: twice)
qed simp

lemma reset_prefix_cache_fails:
  "num_gpu_blocks p - get_num_free_blocks p \<noteq> 1 \<Longrightarrow> reset_prefix_cache p = (False, p)"
  by (simp add: reset_prefix_cache_def)

lemma reset_prefix_cache_spec:
  assumes rep: "pool_rep p xs" and all_free: "num_gpu_blocks p - get_num_free_blocks p = 1"
  shows "fst (reset_prefix_cache p)"
    and "pool_rep (snd (reset_prefix_cache p)) xs"
    and "\<And>key. blocks_at (cached_block_hash_to_block (snd (reset_prefix_cache p))) key = {}"
proof -
  define p1 where "p1 = p\<lparr>cached_block_hash_to_block := Map.empty\<rparr>"
  define p2 where "p2 = fold (\<lambda>b p. put_heap (reset_hash (pool_heap p) b) p) (pool_blocks p1) p1"
  obtain h where h: "p2 = put_heap h p1" using fold_reset_hash(2) unfolding p2_def by blast
  have h_eq: "h c = (if c \<in> set (pool_blocks p1) then (pool_heap p c)\<lparr>block_hash := None\<rparr> else pool_heap p c)" for c
    using fold_reset_hash(1) [of "pool_blocks p1" p1 c] unfolding p2_def [symmetric]
    by (simp add: h put_heap_def p1_def)
  have run: "\<exists>ev. reset_prefix_cache p = (True, (put_heap h p1)\<lparr>kv_event_queue := ev\<rparr>)"
  proof -
    have "put_heap h p1 = (put_heap h p1)\<lparr>kv_event_queue := kv_event_queue p1\<rparr>" by (simp add: put_heap_def)
    then show ?thesis
      using all_free by (auto simp: reset_prefix_cache_def Let_def p1_def [symmetric] p2_def [symmetric] h)
  qed
  then obtain ev where ev: "reset_prefix_cache p = (True, (put_heap h p1)\<lparr>kv_event_queue := ev\<rparr>)" by blast
  let ?p = "(put_heap h p1)\<lparr>kv_event_queue := ev\<rparr>"
  have core: "pool_core p xs" using rep by (simp add: pool_rep_def)
  have rb: "real_block ?p = real_block p" by (simp add: p1_def real_block_def fun_eq_iff)
  have all: "real_block p b \<Longrightarrow> b \<in> set (pool_blocks p1)" for b
    by (auto simp: real_block_def pool_blocks_def p1_def)
  have "data_ok ?p"
    by (rule data_ok_cong [of p]) (use core in \<open>auto simp: p1_def h_eq pool_core_def data_ok_def\<close>)
  moreover have "cache_ok ?p"
    unfolding cache_ok_def rb using all by (auto simp: p1_def h_eq)
  moreover have "queue_rep (free_block_queue ?p) xs"
    using core by (auto simp: put_heap_def p1_def pool_core_def h_eq same_links_def intro!: lq.rep_put_store)
  ultimately have "pool_core ?p xs" by (simp add: pool_core_def)
  then show "pool_rep (snd (reset_prefix_cache p)) xs"
    unfolding ev snd_conv by (intro pool_rep_same_refs [OF rep]) (simp_all add: p1_def h_eq)
  show "fst (reset_prefix_cache p)" by (simp add: ev)
  show "blocks_at (cached_block_hash_to_block (snd (reset_prefix_cache p))) key = {}" for key
    by (simp add: ev p1_def)
qed

section \<open>The constructor\<close>

lemma init_block_pool_rep:
  assumes n: "0 < n"
  shows "\<exists>p. init_block_pool n caching hs use_events use_int = Inr p \<and>
           pool_rep p (map Blk [1..<nat n]) \<and> num_gpu_blocks p = n \<and> enable_caching p = caching \<and>
           hash_block_size p = hs \<and> enable_kv_cache_events p = use_events \<and>
           (\<forall>i. block_hash (pool_heap p (Blk i)) = None)"
proof -
  define q where "q = init_free_queue fresh_blocks (map Blk [0..<nat n])"
  have up: "[0..<nat n] = 0 # [1..<nat n]" using n by (simp add: upt_rec)
  have fresh: "\<And>b. prev_free_block (fresh_blocks b) = None \<and> next_free_block (fresh_blocks b) = None"
    by (simp add: fresh_blocks_def new_kv_cache_block_def split: ref.splits)
  have dist: "distinct (map Blk [0..<nat n])" by (simp add: distinct_map inj_on_def)
  have heads: "FakeHead \<notin> set (map Blk [0..<nat n])" "FakeTail \<notin> set (map Blk [0..<nat n])" by auto
  have rep0: "queue_rep q (Blk 0 # map Blk [1..<nat n])"
    using init_free_queue_rep(1) [OF dist heads fresh] up by (simp add: q_def)
  have data0: "block_id (heap q (Blk i)) = int i \<and> ref_cnt (heap q (Blk i)) = 0 \<and>
      block_hash (heap q (Blk i)) = None \<and> \<not> is_null (heap q (Blk i))" for i
    using init_free_queue_rep(2) [where h = fresh_blocks and b = "Blk i", OF dist heads fresh]
    by (simp add: q_def fresh_blocks_def new_kv_cache_block_def)
  obtain q' where q': "popleft q = Inr (Blk 0, q')" "queue_rep q' (map Blk [1..<nat n])"
      "same_data (heap q) (heap q')"
    using popleft_refines [OF rep0] by blast
  define h where "h = (heap q')(Blk 0 := (heap q' (Blk 0))\<lparr>is_null := True\<rparr>)"
  define p where "p = \<lparr>num_gpu_blocks = n, enable_caching = caching, hash_block_size = hs,
      free_block_queue = q'\<lparr>heap := h\<rparr>, cached_block_hash_to_block = Map.empty, null_block = Blk 0,
      enable_kv_cache_events = use_events, kv_event_queue = [], use_int_hashes = use_int\<rparr>"
  have run: "init_block_pool n caching hs use_events use_int = Inr p"
    using n q'(1) by (simp add: init_block_pool_def q_def [symmetric] p_def h_def)
  have data: "block_id (h (Blk i)) = int i" "ref_cnt (h (Blk i)) = 0" "block_hash (h (Blk i)) = None"
      "is_null (h (Blk i)) \<longleftrightarrow> i = 0" for i
    using data0 [of i] q'(3) by (auto simp: h_def same_data_def)
  have "queue_rep (q'\<lparr>heap := h\<rparr>) (map Blk [1..<nat n])"
    using q'(2) by (auto simp: h_def same_links_def intro!: lq.rep_put_store)
  moreover have "data_ok p" using n data by (auto simp: data_ok_def p_def real_block_def)
  moreover have "cache_ok p" using data by (auto simp: cache_ok_def p_def real_block_def)
  moreover have "set (map Blk [1..<nat n]) = unused_blocks p"
    using data n by (auto simp: unused_blocks_def p_def real_block_def)
  ultimately have "pool_rep p (map Blk [1..<nat n])" by (simp add: pool_rep_def pool_core_def p_def)
  with run data(3) show ?thesis by (auto simp: p_def)
qed

section \<open>Lookup\<close>

text \<open>Block \<open>b\<close> holds the content with hash \<open>bh\<close> for group \<open>g\<close>.\<close>

definition holds_hash :: "block_pool \<Rightarrow> byte_string \<Rightarrow> int \<Rightarrow> ref \<Rightarrow> bool" where
  "holds_hash p bh g b \<longleftrightarrow>
     real_block p b \<and>
     (\<exists>key. make_block_hash_with_group_id bh g = Inr key \<and> block_hash (pool_heap p b) = Some key)"

lemma get_cached_block_spec:
  assumes core: "pool_core p xs" and gs: "\<forall>g \<in> set gs. 0 \<le> g \<and> g < 2 ^ 32"
  shows "\<exists>r. get_cached_block p bh gs = Inr r \<and>
           (case r of
              Some bs \<Rightarrow> list_all2 (holds_hash p bh) gs bs
            | None \<Rightarrow> \<exists>g \<in> set gs. \<forall>b. \<not> holds_hash p bh g b)"
  using gs
proof (induction gs)
  case (Cons g gs)
  let ?m = "cached_block_hash_to_block p"
  have wf: "map_wf (pool_ids p) ?m" and at_key: "\<And>k. blocks_at ?m k =
      {c. real_block p c \<and> block_hash (pool_heap p c) = Some k}"
    using core by (auto simp: pool_core_def cache_ok_def)
  obtain key where key: "make_block_hash_with_group_id bh g = Inr key"
    using make_key_total [of g bh] Cons.prems by auto
  obtain r where r: "get_one_block ?m key = Inr r" "r = None \<longleftrightarrow> blocks_at ?m key = {}"
      "\<forall>b. r = Some b \<longrightarrow> b \<in> blocks_at ?m key"
    using bm.lookup_law [OF wf] by blast
  have holds: "holds_hash p bh g b \<longleftrightarrow> b \<in> blocks_at ?m key" for b
    by (simp add: holds_hash_def key at_key)
  obtain rest where rest: "get_cached_block p bh gs = Inr rest"
      "case rest of Some bs \<Rightarrow> list_all2 (holds_hash p bh) gs bs
         | None \<Rightarrow> \<exists>g \<in> set gs. \<forall>b. \<not> holds_hash p bh g b"
    using Cons by auto
  show ?case
  proof (cases r)
    case None
    with r holds key show ?thesis by auto
  next
    case (Some b)
    with r holds key rest show ?thesis by (cases rest) auto
  qed
qed simp

section \<open>Caching full blocks\<close>

lemma cache_block_step_null:
  "is_null (pool_heap p b) \<Longrightarrow> cache_block_step nbh g (i, b) (p, hs) = Inr (p, hs)"
  by (simp add: cache_block_step_def)

lemma cache_block_step_spec:
  assumes rep: "pool_rep p xs" and b: "real_block p b"
    and run: "cache_block_step nbh g (i, b) (p, hs) = Inr (p', hs')"
  shows "pool_rep p' xs" "num_gpu_blocks p' = num_gpu_blocks p" "block_hash (pool_heap p b) = None"
    and "enable_kv_cache_events p' = enable_kv_cache_events p"
    and "\<exists>bh key. py_get nbh (int i) = Inr bh \<and> make_block_hash_with_group_id bh g = Inr key \<and>
           block_hash (pool_heap p' b) = Some key"
    and "\<And>c. c \<noteq> b \<Longrightarrow> pool_heap p' c = pool_heap p c"
    and "\<And>c. ref_cnt (pool_heap p' c) = ref_cnt (pool_heap p c)"
proof -
  have core: "pool_core p xs" and data: "data_ok p" using rep by (auto simp: pool_rep_def pool_core_def)
  have nn: "\<not> is_null (pool_heap p b)" using data b by (simp add: data_ok_def)
  from run nn obtain bh key where
      none: "block_hash (pool_heap p b) = None" and bh: "py_get nbh (int i) = Inr bh"
    and key: "make_block_hash_with_group_id bh g = Inr key"
    and p1': "p' = (put_heap ((pool_heap p)(b := (pool_heap p b)\<lparr>block_hash := Some key\<rparr>)) p)
        \<lparr>cached_block_hash_to_block :=
           map_insert (\<lambda>c. block_id (((pool_heap p)(b := (pool_heap p b)\<lparr>block_hash := Some key\<rparr>)) c))
             key b (cached_block_hash_to_block p)\<rparr>"
    by (auto simp: cache_block_step_def assertE_eq_Inr bindE_eq_Inr set_block_hash_def Let_def
        simp del: fun_upd_apply split: if_splits)
  have "(\<lambda>c. block_id (((pool_heap p)(b := (pool_heap p b)\<lparr>block_hash := Some key\<rparr>)) c)) = pool_ids p"
    by auto
  with p1' have p': "p' = (put_heap ((pool_heap p)(b := (pool_heap p b)\<lparr>block_hash := Some key\<rparr>)) p)
        \<lparr>cached_block_hash_to_block := map_insert (pool_ids p) key b (cached_block_hash_to_block p)\<rparr>"
    by simp
  let ?m = "cached_block_hash_to_block p"
  have wf: "map_wf (pool_ids p) ?m" and at_key: "\<And>k. blocks_at ?m k =
      {c. real_block p c \<and> block_hash (pool_heap p c) = Some k}"
    using core by (auto simp: pool_core_def cache_ok_def)
  have inj: "inj_on (pool_ids p) (insert b (blocks_at ?m key))"
    using b by (intro ids_inj [OF data]) (simp add: at_key)
  have rb: "real_block p' = real_block p" by (simp add: p' real_block_def fun_eq_iff)
  have ids: "pool_ids p' = pool_ids p" by (auto simp: p')
  have "data_ok p'"
    by (rule data_ok_cong [of p]) (use data b in \<open>auto simp: p' data_ok_def\<close>)
  moreover have "cache_ok p'"
  proof -
    have "map_wf (pool_ids p) (cached_block_hash_to_block p')" using bm.ins_wf [OF wf] by (simp add: p')
    moreover have "blocks_at (cached_block_hash_to_block p') k =
        (if k = key then insert b (blocks_at ?m key) else blocks_at ?m k)" for k
      using bm.ins_law [OF wf inj] by (simp add: p')
    ultimately show ?thesis unfolding cache_ok_def ids rb using b none by (auto simp: p' at_key)
  qed
  moreover have "queue_rep (free_block_queue p') xs"
    using core by (auto simp: p' put_heap_def pool_core_def same_links_def intro!: lq.rep_put_store)
  ultimately have "pool_core p' xs" by (simp add: pool_core_def)
  then show "pool_rep p' xs" by (intro pool_rep_same_refs [OF rep]) (simp_all add: p')
  show "num_gpu_blocks p' = num_gpu_blocks p" "block_hash (pool_heap p b) = None"
    "enable_kv_cache_events p' = enable_kv_cache_events p"
    using none by (simp_all add: p')
  show "\<exists>bh key. py_get nbh (int i) = Inr bh \<and> make_block_hash_with_group_id bh g = Inr key \<and>
      block_hash (pool_heap p' b) = Some key"
    using bh key by (simp add: p')
  show "\<And>c. c \<noteq> b \<Longrightarrow> pool_heap p' c = pool_heap p c"
    and "\<And>c. ref_cnt (pool_heap p' c) = ref_cnt (pool_heap p c)" by (simp_all add: p')
qed

lemma cache_block_step_total:
  assumes rep: "pool_rep p xs" and b: "real_block p b" and none: "block_hash (pool_heap p b) = None"
    and i: "i < length nbh" and g: "0 \<le> g" "g < 2 ^ 32"
  shows "\<exists>st. cache_block_step nbh g (i, b) (p, hs) = Inr st"
proof -
  have "\<not> is_null (pool_heap p b)" using rep b by (simp add: pool_rep_def pool_core_def data_ok_def)
  moreover obtain key where "make_block_hash_with_group_id (nbh ! i) g = Inr key"
    using make_key_total [OF g] by blast
  ultimately show ?thesis using none i
    by (simp add: cache_block_step_def set_block_hash_def py_get_nonneg Let_def)
qed

definition pool_frame :: "block_pool \<Rightarrow> block_pool \<Rightarrow> bool" where
  "pool_frame p p' \<longleftrightarrow>
     num_gpu_blocks p' = num_gpu_blocks p \<and> enable_kv_cache_events p' = enable_kv_cache_events p \<and>
     (\<forall>c. ref_cnt (pool_heap p' c) = ref_cnt (pool_heap p c)) \<and>
     (\<forall>c. block_hash (pool_heap p c) \<noteq> None \<longrightarrow> block_hash (pool_heap p' c) = block_hash (pool_heap p c))"

lemma pool_frame_trans: "pool_frame p p' \<Longrightarrow> pool_frame p' p'' \<Longrightarrow> pool_frame p p''"
  by (auto simp: pool_frame_def)

lemma fold_cache_block_step:
  assumes "pool_rep p xs" "\<forall>b \<in> set blks. pool_block p b"
    and "\<forall>b \<in> set blks. real_block p b \<longrightarrow> block_hash (pool_heap p b) = None"
    and "distinct (filter (real_block p) blks)" "k + length blks \<le> length nbh" "0 \<le> g" "g < 2 ^ 32"
  shows "\<exists>p' hs'. fold_res (cache_block_step nbh g) (enumerate k blks) (p, hs) = Inr (p', hs') \<and>
           pool_rep p' xs \<and> pool_frame p p' \<and>
           (\<forall>j < length blks. real_block p (blks ! j) \<longrightarrow> holds_hash p' (nbh ! (k + j)) g (blks ! j))"
  using assms(1-5)
proof (induction blks arbitrary: p hs k)
  case Nil
  then show ?case by (simp add: pool_frame_def)
next
  case (Cons b blks)
  show ?case
  proof (cases "real_block p b")
    case False
    then have "is_null (pool_heap p b)"
      using Cons.prems(1,2) pool_block_cases [of p b] by (auto simp: pool_rep_def pool_core_def data_ok_def)
    then have step: "cache_block_step nbh g (k, b) (p, hs) = Inr (p, hs)" by (rule cache_block_step_null)
    obtain p' hs' where "fold_res (cache_block_step nbh g) (enumerate (Suc k) blks) (p, hs) = Inr (p', hs')"
        "pool_rep p' xs" "pool_frame p p'"
        "\<forall>j < length blks. real_block p (blks ! j) \<longrightarrow> holds_hash p' (nbh ! (Suc k + j)) g (blks ! j)"
      using Cons.IH [of p "Suc k" hs] Cons.prems False by auto
    with step False show ?thesis by (auto simp: nth_Cons split: nat.splits)
  next
    case True
    have none: "block_hash (pool_heap p b) = None" "k < length nbh" using Cons.prems(3,5) True by simp_all
    obtain p1 hs1 where run: "cache_block_step nbh g (k, b) (p, hs) = Inr (p1, hs1)"
      using cache_block_step_total [OF Cons.prems(1) True none assms(6,7)] by fastforce
    note s = cache_block_step_spec [OF Cons.prems(1) True run]
    have rb: "real_block p1 c = real_block p c" "pool_block p1 c = pool_block p c" for c
      using s(2) by (simp_all add: real_block_def pool_block_def)
    then have rb': "real_block p1 = real_block p" by (simp add: fun_eq_iff)
    have nb: "b \<notin> set blks" using Cons.prems(4) True by auto
    have "\<forall>c \<in> set blks. real_block p1 c \<longrightarrow> block_hash (pool_heap p1 c) = None"
      using Cons.prems(3) nb s(6) rb by (metis list.set_intros(2))
    then obtain p' hs' where
        rest: "fold_res (cache_block_step nbh g) (enumerate (Suc k) blks) (p1, hs1) = Inr (p', hs')"
        "pool_rep p' xs" "pool_frame p1 p'"
        "\<forall>j < length blks. real_block p1 (blks ! j) \<longrightarrow> holds_hash p' (nbh ! (Suc k + j)) g (blks ! j)"
      using Cons.IH [of p1 "Suc k" hs1] Cons.prems s(1) rb True by (auto simp: rb')
    have "pool_frame p p1" using s(2,3,4,6,7) unfolding pool_frame_def by metis
    moreover obtain key where "make_block_hash_with_group_id (nbh ! k) g = Inr key"
        "block_hash (pool_heap p1 b) = Some key"
      using s(5) none(2) by (auto simp: py_get_nonneg)
    then have "holds_hash p' (nbh ! k) g b"
      using rest(3) True s(2) by (auto simp: holds_hash_def pool_frame_def real_block_def)
    ultimately show ?thesis
      using run rest rb by (auto simp: nth_Cons intro: pool_frame_trans split: nat.splits)
  qed
qed

end
