(* ===== verification/Block_Pool_Caching.thy ===== *)
theory Block_Pool_Caching
  imports Block_Pool
begin

text \<open>
  \<^verbatim>\<open>cache_full_blocks\<close> as a whole, the reachable states of the pool, and the properties of the
  block pool.

  \<open>cache_full_blocks_spec\<close> shows that on the inputs the cache managers give (unhashed, distinct
  blocks and a hash for each) the operation cannot raise, keeps the invariant, and makes every
  new block findable under its hash. \<open>pool_step\<close> is one call of the pool by a client that keeps
  its contract; \<open>reachable_pool\<close> closes it from the constructor.
\<close>

section \<open>The event part cannot raise\<close>

lemma mm_keys_loop_idx: "idx \<le> snd (mm_keys_loop fs s e idx ks)"
proof (induction fs s e idx ks rule: mm_keys_loop.induct)
  case (2 f fs s e idx ks)
  consider "e \<le> offset (mm_position f)" | "offset (mm_position f) < e" "mm_end f \<le> s"
    | "offset (mm_position f) < e" "s < mm_end f" "mm_end f \<le> e"
    | "offset (mm_position f) < e" "s < mm_end f" "e < mm_end f"
    by linarith
  then show ?case
  proof cases
    case 2
    with "2.IH"(1) [OF refl refl] show ?thesis by simp
  next
    case 3
    with "2.IH"(2) [OF refl refl _ _ refl] show ?thesis by simp
  qed simp_all
qed simp

lemma gen_mm_total:
  assumes "0 \<le> idx"
  shows "\<exists>ks idx'. gen_mm_extra_hash_keys r s e idx = Inr (ks, idx') \<and> 0 \<le> idx'"
proof (cases "mm_features r = [] \<or> mm_end (last (mm_features r)) \<le> s")
  case True
  with assms show ?thesis by (auto simp: gen_mm_extra_hash_keys_def Let_def)
next
  case False
  obtain ks idx' where l: "mm_keys_loop (drop (nat idx) (mm_features r)) s e idx [] = (ks, idx')"
    by fastforce
  with mm_keys_loop_idx [of idx "drop (nat idx) (mm_features r)" s e "[]"] assms have "0 \<le> idx'" by simp
  with False l assms show ?thesis by (simp add: gen_mm_extra_hash_keys_def Let_def)
qed

lemma generate_total:
  assumes "0 \<le> idx"
  shows "\<exists>ks idx' r'. generate_block_hash_extra_keys sha r s e idx = Inr ((ks, idx'), r') \<and> 0 \<le> idx'"
proof -
  obtain ks idx' where g: "gen_mm_extra_hash_keys r s e idx = Inr (ks, idx')" "0 \<le> idx'"
    using gen_mm_total [OF assms] by blast
  obtain eks r' where "gen_prompt_embeds_extra_hash_keys sha r s e = (eks, r')" by fastforce
  with g show ?thesis by (simp add: generate_block_hash_extra_keys_def Let_def)
qed

lemma event_keys_step_total:
  assumes "0 \<le> i" "i < int (length blocks)" "0 \<le> idx"
  shows "\<exists>keys' idx' r'. event_keys_step sha p blocks bs i (keys, idx, r) = Inr (keys', idx', r') \<and> 0 \<le> idx'"
proof (cases "is_null (pool_heap p (blocks ! nat i))")
  case True
  with assms show ?thesis by (simp add: event_keys_step_def py_get_nonneg)
next
  case False
  obtain ks idx' r' where
      "generate_block_hash_extra_keys sha r (i * bs) (i * bs + bs) idx = Inr ((ks, idx'), r')" "0 \<le> idx'"
    using generate_total [OF assms(3)] by blast
  with False assms show ?thesis by (simp add: event_keys_step_def py_get_nonneg)
qed

lemma event_keys_total:
  assumes "\<forall>i \<in> set js. 0 \<le> i \<and> i < int (length blocks)" and "0 \<le> idx"
  shows "\<exists>keys idx' r'. fold_res (event_keys_step sha p blocks bs) js (keys0, idx, r) = Inr (keys, idx', r')"
  using assms
proof (induction js arbitrary: keys0 idx r)
  case (Cons i js)
  obtain keys1 idx1 r1 where
      "event_keys_step sha p blocks bs i (keys0, idx, r) = Inr (keys1, idx1, r1)" "0 \<le> idx1"
    using event_keys_step_total [of i blocks idx] Cons.prems by fastforce
  moreover have "\<exists>keys idx' r'.
      fold_res (event_keys_step sha p blocks bs) js (keys1, idx1, r1) = Inr (keys, idx', r')"
    using Cons.IH Cons.prems(1) \<open>0 \<le> idx1\<close> by simp
  ultimately show ?case by simp
qed simp

lemma store_event_total:
  assumes "0 \<le> num_cached" "num_cached < num_full" "num_full \<le> int (length blocks)"
    and "num_full \<le> int (length hashes)"
  shows "\<exists>ev r'. store_event sha r blocks num_cached num_full bs g (PlainHashes hashes) hs p =
           Inr (p\<lparr>kv_event_queue := ev\<rparr>, r')"
proof (cases "enable_kv_cache_events p")
  case False
  then show ?thesis
    by (intro exI [of _ "kv_event_queue p"] exI [of _ r]) (simp add: store_event_def)
next
  case True
  obtain keys idx r' where keys: "fold_res (event_keys_step sha p blocks bs)
      [num_cached..num_full - 1] ([], 0, r) = Inr (keys, idx, r')"
    using event_keys_total [of "[num_cached..num_full - 1]" blocks 0 sha p bs "[]" r] assms by auto
  have "\<exists>par. (if num_cached = 0 then Inr None
      else bindE (view_at (PlainHashes hashes) (num_cached - 1))
        (\<lambda>bh. Inr (Some (maybe_convert_block_hash (use_int_hashes p) bh)))) = Inr par"
    using assms by (cases "num_cached = 0") (simp_all add: py_get_nonneg)
  then obtain par where par: "(if num_cached = 0 then Inr None
      else bindE (view_at (PlainHashes hashes) (num_cached - 1))
        (\<lambda>bh. Inr (Some (maybe_convert_block_hash (use_int_hashes p) bh)))) = Inr par" by blast
  show ?thesis unfolding store_event_def par keys using True by auto
qed

lemma store_event_only:
  assumes "store_event sha r blocks nc nf bs g view hs p = Inr (p', r')"
  shows "\<exists>ev. p' = p\<lparr>kv_event_queue := ev\<rparr>"
proof (cases "enable_kv_cache_events p")
  case False
  with assms show ?thesis by (intro exI [of _ "kv_event_queue p"]) (simp add: store_event_def)
next
  case True
  with assms show ?thesis unfolding store_event_def
    by (simp only: bindE_eq_Inr if_False not_not simp_thms) (auto simp: split_beta)
qed

section \<open>Caching the full blocks of a request\<close>

lemma pool_rep_event: "pool_rep (p\<lparr>kv_event_queue := ev\<rparr>) xs = pool_rep p xs"
  by (simp add: pool_rep_def pool_core_def data_ok_def cache_ok_def unused_blocks_def real_block_def)

lemma holds_hash_event: "holds_hash (p\<lparr>kv_event_queue := ev\<rparr>) bh g b = holds_hash p bh g b"
  by (simp add: holds_hash_def real_block_def)

lemma cache_full_blocks_spec:
  assumes rep: "pool_rep p xs" and bs: "block_size = hash_block_size p"
    and range: "0 \<le> num_cached" "num_full \<le> int (length blocks)" "num_full \<le> int (length (block_hashes r))"
    and blks: "\<forall>b \<in> set blocks. pool_block p b"
    and new: "\<forall>b \<in> set (py_slice blocks num_cached num_full). real_block p b \<longrightarrow> block_hash (pool_heap p b) = None"
    and dist: "distinct (filter (real_block p) (py_slice blocks num_cached num_full))"
    and g: "0 \<le> g" "g < 2 ^ 32"
  shows "\<exists>p' r'. cache_full_blocks sha r blocks num_cached num_full block_size g p = Inr (p', r') \<and>
           pool_rep p' xs \<and> num_gpu_blocks p' = num_gpu_blocks p \<and>
           (\<forall>c. ref_cnt (pool_heap p' c) = ref_cnt (pool_heap p c)) \<and>
           (\<forall>j. num_cached \<le> int j \<longrightarrow> int j < num_full \<longrightarrow> real_block p (blocks ! j) \<longrightarrow>
                holds_hash p' (block_hashes r ! j) g (blocks ! j))"
proof (cases "num_full \<le> num_cached")
  case True
  with rep show ?thesis by (simp add: cache_full_blocks_def)
next
  case False
  define nfb where "nfb = py_slice blocks num_cached num_full"
  define nbh where "nbh = drop (nat num_cached) (block_hashes r)"
  have nfb: "nfb = drop (nat num_cached) (take (nat num_full) blocks)"
    using range False by (simp add: nfb_def py_slice_nonneg)
  have len: "length nfb = nat num_full - nat num_cached" "length nfb \<le> length nbh"
    using range False by (auto simp: nfb nbh_def)
  have in_blocks: "\<forall>b \<in> set nfb. pool_block p b"
    using blks by (auto simp: nfb dest: in_set_dropD in_set_takeD)
  obtain p1 hs where fold: "fold_res (cache_block_step nbh g) (enumerate 0 nfb) (p, []) = Inr (p1, hs)"
      and p1: "pool_rep p1 xs" "pool_frame p p1"
      and held: "\<forall>j < length nfb. real_block p (nfb ! j) \<longrightarrow> holds_hash p1 (nbh ! (0 + j)) g (nfb ! j)"
    using fold_cache_block_step [OF rep in_blocks, of 0 nbh g "[]"] new dist len(2) g
    by (auto simp: nfb_def)
  have all_held: "holds_hash p1 (block_hashes r ! j) g (blocks ! j)"
    if j: "num_cached \<le> int j" "int j < num_full" "real_block p (blocks ! j)" for j
  proof -
    define k where "k = j - nat num_cached"
    have k: "j = nat num_cached + k" "k < length nfb" using j range by (auto simp: k_def len)
    have "nfb ! k = blocks ! j" "nbh ! k = block_hashes r ! j"
      using k j range by (auto simp: nfb nbh_def nth_drop)
    with held k j show ?thesis by auto
  qed
  have view: "hash_view_of p r block_size = Inr (PlainHashes (block_hashes r))"
      "view_from (PlainHashes (block_hashes r)) num_cached = Inr nbh"
    using bs range by (simp_all add: hash_view_of_def py_slice_nonneg nbh_def)
  have "\<exists>ev r'. store_event sha r blocks num_cached num_full block_size g
      (PlainHashes (block_hashes r)) hs p1 = Inr (p1\<lparr>kv_event_queue := ev\<rparr>, r')"
    using range False by (intro store_event_total) simp_all
  then obtain ev r' where "cache_full_blocks sha r blocks num_cached num_full block_size g p =
      Inr (p1\<lparr>kv_event_queue := ev\<rparr>, r')"
    using False range fold view by (auto simp: cache_full_blocks_def nfb_def [symmetric])
  with p1 all_held show ?thesis
    by (intro exI [of _ "p1\<lparr>kv_event_queue := ev\<rparr>"] exI [of _ r'])
      (simp add: pool_rep_event holds_hash_event pool_frame_def)
qed

text \<open>Whatever the block size, a call that returns keeps the invariant.\<close>

lemma cache_full_blocks_inv:
  assumes rep: "pool_rep p xs" and blks: "\<forall>b \<in> set blocks. pool_block p b"
    and run: "cache_full_blocks sha r blocks num_cached num_full block_size g p = Inr (p', r')"
  shows "pool_rep p' xs" and "num_gpu_blocks p' = num_gpu_blocks p"
proof -
  define P where "P st \<longleftrightarrow> pool_rep (fst st) xs \<and> num_gpu_blocks (fst st) = num_gpu_blocks p"
    for st :: "block_pool \<times> external_block_hash list"
  have step: "P st'" if "x \<in> set (enumerate 0 (py_slice blocks num_cached num_full))" "P st"
      "cache_block_step nbh g x st = Inr st'" for x st st' nbh
  proof -
    obtain i b q hs q' hs' where x: "x = (i, b)" "st = (q, hs)" "st' = (q', hs')" by (metis prod.collapse)
    have "snd x \<in> snd ` set (enumerate 0 (py_slice blocks num_cached num_full))"
      using that(1) by (rule imageI)
    then have "b \<in> set (py_slice blocks num_cached num_full)"
      by (simp only: x(1) snd_conv set_map [symmetric] map_snd_enumerate)
    then have "b \<in> set blocks" by (auto simp: py_slice_def dest: in_set_dropD in_set_takeD)
    then have b: "pool_block q b" using blks that(2) x by (auto simp: P_def pool_block_def)
    have rep_q: "pool_rep q xs" using that(2) x by (simp add: P_def)
    show ?thesis
    proof (cases "real_block q b")
      case True
      from cache_block_step_spec(1,2) [OF rep_q True] that x show ?thesis by (simp add: P_def)
    next
      case False
      then have "is_null (pool_heap q b)"
        using b rep_q pool_block_cases [of q b] by (auto simp: pool_rep_def pool_core_def data_ok_def)
      with that x show ?thesis by (simp add: cache_block_step_null)
    qed
  qed
  have loop: "P st" if "fold_res (cache_block_step nbh g)
      (enumerate 0 (py_slice blocks num_cached num_full)) (p, []) = Inr st" for nbh st
  proof (rule fold_res_preserves [OF that])
    show "P (p, [])" using rep by (simp add: P_def)
  qed (rule step)
  have "P (p', [])"
  proof (cases "num_full \<le> num_cached")
    case True
    with run rep show ?thesis by (simp add: cache_full_blocks_def P_def)
  next
    case False
    with run obtain view nbh p1 hs where
        fold: "fold_res (cache_block_step nbh g) (enumerate 0 (py_slice blocks num_cached num_full)) (p, [])
          = Inr (p1, hs)"
      and ev: "store_event sha r blocks num_cached num_full block_size g view hs p1 = Inr (p', r')"
      unfolding cache_full_blocks_def Let_def by (auto simp: bindE_eq_Inr assertE_eq_Inr)
    from loop [OF fold] store_event_only [OF ev] show ?thesis by (auto simp: P_def pool_rep_event)
  qed
  then show "pool_rep p' xs" and "num_gpu_blocks p' = num_gpu_blocks p" by (simp_all add: P_def)
qed

section \<open>Reachable pools\<close>

inductive pool_step :: "block_pool \<Rightarrow> block_pool \<Rightarrow> bool" where
  allocate: "0 \<le> n \<Longrightarrow> get_new_blocks n p = Inr (bs, p') \<Longrightarrow> pool_step p p'"
| hit: "\<forall>b \<in> set bs. pool_block p b \<Longrightarrow> touch bs p = Inr p' \<Longrightarrow> pool_step p p'"
| release: "\<forall>b \<in> set bs. pool_block p b \<and> (real_block p b \<longrightarrow> 0 < ref_cnt (pool_heap p b)) \<Longrightarrow>
    distinct (filter (real_block p) bs) \<Longrightarrow> free_blocks bs p = Inr p' \<Longrightarrow> pool_step p p'"
| cache: "\<forall>b \<in> set bs. pool_block p b \<Longrightarrow>
    cache_full_blocks sha r bs nc nf sz g p = Inr (p', r') \<Longrightarrow> pool_step p p'"
| evict: "\<forall>i \<in> set ids. 0 \<le> i \<and> i < num_gpu_blocks p \<Longrightarrow> evict_blocks ids p = Inr p' \<Longrightarrow> pool_step p p'"
| reset: "pool_step p (snd (reset_prefix_cache p))"
| publish: "pool_step p (snd (take_kv_events p))"

inductive reachable_pool :: "int \<Rightarrow> block_pool \<Rightarrow> bool" for n where
  start: "init_block_pool n caching hs use_events use_int = Inr p \<Longrightarrow> reachable_pool n p"
| step: "reachable_pool n p \<Longrightarrow> pool_step p p' \<Longrightarrow> reachable_pool n p'"

lemma pool_step_rep:
  assumes "pool_step p p'" and rep: "pool_rep p xs"
  shows "\<exists>ys. pool_rep p' ys" and "num_gpu_blocks p' = num_gpu_blocks p"
proof -
  have "(\<exists>ys. pool_rep p' ys) \<and> num_gpu_blocks p' = num_gpu_blocks p"
    using assms
  proof cases
    case (allocate n bs)
    have "n \<le> int (length xs)"
      using allocate(2) get_new_blocks_too_many [OF rep, of n] by (cases "int (length xs) < n") auto
    with get_new_blocks_spec [OF rep allocate(1)] allocate(2) show ?thesis by auto
  next
    case (hit bs)
    with touch_spec [OF rep hit(1)] show ?thesis by auto
  next
    case (release bs)
    with free_blocks_spec [OF rep, of bs] show ?thesis by auto
  next
    case (cache bs sha r nc nf sz g r')
    with cache_full_blocks_inv [OF rep cache(1,2)] show ?thesis by auto
  next
    case (evict ids)
    with evict_blocks_spec [OF rep, of ids] show ?thesis by auto
  next
    case reset
    show ?thesis
    proof (cases "num_gpu_blocks p - get_num_free_blocks p = 1")
      case True
      obtain h where h: "fold (\<lambda>b p. put_heap (reset_hash (pool_heap p) b) p)
          (pool_blocks (p\<lparr>cached_block_hash_to_block := Map.empty\<rparr>)) (p\<lparr>cached_block_hash_to_block := Map.empty\<rparr>) =
          put_heap h (p\<lparr>cached_block_hash_to_block := Map.empty\<rparr>)"
        using fold_reset_hash(2) by blast
      have "num_gpu_blocks (snd (reset_prefix_cache p)) = num_gpu_blocks p"
        using True by (simp add: reset_prefix_cache_def Let_def h)
      with reset_prefix_cache_spec(2) [OF rep True] reset show ?thesis by auto
    next
      case False
      with reset rep show ?thesis by (auto simp: reset_prefix_cache_fails)
    qed
  next
    case publish
    with rep show ?thesis by (auto simp: take_kv_events_def pool_rep_event)
  qed
  then show "\<exists>ys. pool_rep p' ys" and "num_gpu_blocks p' = num_gpu_blocks p" by blast+
qed

lemma reachable_pool_rep: "reachable_pool n p \<Longrightarrow> (\<exists>xs. pool_rep p xs) \<and> num_gpu_blocks p = n \<and> 0 < n"
proof (induction rule: reachable_pool.induct)
  case (start caching hs use_events use_int p)
  then have "0 < n" by (auto simp: init_block_pool_def assertE_eq_Inr)
  with start init_block_pool_rep [of n caching hs use_events use_int] show ?case by auto
next
  case (step p p')
  then show ?case using pool_step_rep by blast
qed

lemma reachable_init:
  "0 < n \<Longrightarrow> \<exists>p. init_block_pool n True 16 False False = Inr p \<and> reachable_pool n p \<and>
     pool_rep p (map Blk [1..<nat n]) \<and> num_gpu_blocks p = n \<and> hash_block_size p = 16 \<and>
     (\<forall>i. block_hash (pool_heap p (Blk i)) = None)"
  using init_block_pool_rep [of n True 16 False False] by (blast intro: reachable_pool.start)

section \<open>Counting\<close>

definition used_blocks :: "block_pool \<Rightarrow> ref set" where
  "used_blocks p = {b. real_block p b \<and> 0 < ref_cnt (pool_heap p b)}"

lemma card_real_blocks: "0 < num_gpu_blocks p \<Longrightarrow> int (card {b. real_block p b}) = num_gpu_blocks p - 1"
proof -
  assume n: "0 < num_gpu_blocks p"
  have "{b. real_block p b} = Blk ` {1..<nat (num_gpu_blocks p)}"
    by (auto simp: real_block_def image_iff)
  then have "card {b. real_block p b} = nat (num_gpu_blocks p) - 1"
    by (simp add: card_image inj_on_def)
  with n show ?thesis by simp
qed

lemma pool_rep_conservation:
  assumes rep: "pool_rep p xs"
  shows "get_num_free_blocks p + int (card (used_blocks p)) = num_gpu_blocks p - 1"
proof -
  have data: "data_ok p" using rep by (simp add: pool_rep_def pool_core_def)
  have fin: "finite {b. real_block p b}"
    by (rule finite_subset [of _ "Blk ` {..<nat (num_gpu_blocks p)}"]) (auto simp: real_block_def image_iff)
  have "{b. real_block p b} = unused_blocks p \<union> used_blocks p"
    using data by (force simp: unused_blocks_def used_blocks_def data_ok_def)
  moreover have "unused_blocks p \<inter> used_blocks p = {}" by (auto simp: unused_blocks_def used_blocks_def)
  ultimately have "card {b. real_block p b} = card (unused_blocks p) + card (used_blocks p)"
    using fin by (metis card_Un_disjoint finite_Un)
  moreover have "card (unused_blocks p) = length xs"
    using rep distinct_card [OF pool_rep_distinct [OF rep]] by (simp add: pool_rep_def)
  moreover have "0 < num_gpu_blocks p" using data by (simp add: data_ok_def)
  ultimately show ?thesis using card_real_blocks [of p] pool_rep_count [OF rep] by simp
qed

section \<open>Properties of the block pool\<close>

text \<open>
  C4. No block is lost or counted twice: in every pool reachable by allocation, cache hits,
  release, caching, eviction, resets and event reads, the free counter plus the number of blocks
  with a positive reference count is the number of blocks without the null block, the free queue
  enumerates exactly the blocks with reference count zero, and the usage lies between 0 and 1.
\<close>

theorem reachable_pool_conserves_blocks:
  assumes "reachable_pool n p"
  shows "get_num_free_blocks p + int (card (used_blocks p)) = n - 1 \<and>
         (\<exists>xs. get_all_free_blocks (free_block_queue p) = Some (Inr xs) \<and> distinct xs \<and>
               set xs = unused_blocks p \<and> get_num_free_blocks p = int (length xs)) \<and>
         0 \<le> get_usage p \<and> get_usage p \<le> 1"
proof -
  obtain xs where rep: "pool_rep p xs" and n: "num_gpu_blocks p = n" "0 < n"
    using reachable_pool_rep [OF assms] by blast
  have cons: "get_num_free_blocks p + int (card (used_blocks p)) = n - 1"
    using pool_rep_conservation [OF rep] n by simp
  have free: "get_all_free_blocks (free_block_queue p) = Some (Inr xs)"
    using rep by (simp add: pool_rep_def pool_core_def get_all_free_blocks_rep)
  have "0 \<le> get_num_free_blocks p" "get_num_free_blocks p \<le> n - 1"
    using pool_rep_count [OF rep] cons by simp_all
  then have "0 \<le> get_usage p \<and> get_usage p \<le> 1"
    using n by (simp add: get_usage_def Let_def)
  with cons free pool_rep_distinct [OF rep] pool_rep_count [OF rep] rep show ?thesis
    by (auto simp: pool_rep_def)
qed

theorem reachable_pool_conserves_blocks_witness:
  "\<exists>p. init_block_pool 4 True 16 False False = Inr p \<and>
       get_num_free_blocks p + int (card (used_blocks p)) = 4 - 1"
  using reachable_init [of 4] reachable_pool_conserves_blocks [of 4] by auto

text \<open>
  C5. Allocation is safe: in every reachable pool a request for at most the free number of blocks
  succeeds and returns the first blocks of the eviction order, distinct, not the null block, unused
  until then; afterwards exactly these have reference count one, they carry no stale hash when
  caching is on, and the reference counts of all other blocks are unchanged. A request for more
  raises \<^verbatim>\<open>ValueError\<close>.
\<close>

theorem get_new_blocks_safe:
  assumes "reachable_pool n p" and "0 \<le> k"
  shows "if get_num_free_blocks p < k then get_new_blocks k p = Inl ValueError
         else \<exists>bs p'. get_new_blocks k p = Inr (bs, p') \<and> int (length bs) = k \<and> distinct bs \<and>
                get_all_free_blocks (free_block_queue p') = Some (Inr (drop (nat k)
                  (case get_all_free_blocks (free_block_queue p) of Some (Inr xs) \<Rightarrow> xs | _ \<Rightarrow> []))) \<and>
                (\<forall>b. (b \<in> set bs \<longrightarrow> real_block p b \<and> ref_cnt (pool_heap p b) = 0) \<and>
                     ref_cnt (pool_heap p' b) = (if b \<in> set bs then 1 else ref_cnt (pool_heap p b)) \<and>
                     (b \<in> set bs \<and> enable_caching p \<longrightarrow> block_hash (pool_heap p' b) = None))"
proof -
  obtain xs where rep: "pool_rep p xs" using reachable_pool_rep [OF assms(1)] by blast
  show ?thesis
  proof (cases "get_num_free_blocks p < k")
    case True
    then show ?thesis using get_new_blocks_too_many [OF rep] pool_rep_count [OF rep] by simp
  next
    case False
    then have k: "k \<le> int (length xs)" using pool_rep_count [OF rep] by simp
    from get_new_blocks_spec [OF rep assms(2) k] obtain p' where
        p': "get_new_blocks k p = Inr (take (nat k) xs, p')" "pool_rep p' (drop (nat k) xs)"
        "\<forall>c. ref_cnt (pool_heap p' c) = (if c \<in> set (take (nat k) xs) then 1 else ref_cnt (pool_heap p c))"
        "\<forall>c. block_hash (pool_heap p' c) =
           (if c \<in> set (take (nat k) xs) \<and> enable_caching p then None else block_hash (pool_heap p c))"
      by blast
    have "get_all_free_blocks (free_block_queue p) = Some (Inr xs)"
        "get_all_free_blocks (free_block_queue p') = Some (Inr (drop (nat k) xs))"
      using rep p'(2) by (simp_all add: pool_rep_def pool_core_def get_all_free_blocks_rep)
    moreover have "distinct (take (nat k) xs)" using pool_rep_distinct [OF rep] by (rule distinct_take)
    moreover have "int (length (take (nat k) xs)) = k" using k assms(2) by simp
    moreover have "\<forall>b \<in> set (take (nat k) xs). real_block p b \<and> ref_cnt (pool_heap p b) = 0"
      using pool_rep_free [OF rep] by (auto dest: in_set_takeD)
    ultimately show ?thesis unfolding if_not_P [OF False]
      by (intro exI [of _ "take (nat k) xs"] exI [of _ p'] conjI allI)
        (simp_all add: p'(1,3,4) del: set_take_subset)
  qed
qed

theorem get_new_blocks_safe_witness:
  "\<exists>p bs p'. init_block_pool 4 True 16 False False = Inr p \<and> get_new_blocks 2 p = Inr (bs, p') \<and>
     int (length bs) = 2 \<and> distinct bs"
proof -
  obtain p where p: "init_block_pool 4 True 16 False False = Inr p" "reachable_pool 4 p"
      "get_num_free_blocks p = 3"
    using reachable_init [of 4] pool_rep_count by fastforce
  with get_new_blocks_safe [OF p(2), of 2] show ?thesis by auto
qed

text \<open>
  C6. The cache finds what was cached: caching the full blocks of a request with distinct, unhashed
  blocks cannot raise, and for every new block \<open>j\<close> a lookup of the request's \<open>j\<close>-th hash in that
  group then hits and returns a block that carries exactly this hash and group.
\<close>

theorem cache_then_lookup_hits:
  assumes "pool_rep p xs" and "block_size = hash_block_size p"
    and "0 \<le> num_cached" and "num_full \<le> int (length blocks)"
    and "num_full \<le> int (length (block_hashes r))"
    and "\<forall>b \<in> set blocks. pool_block p b"
    and "\<forall>b \<in> set (py_slice blocks num_cached num_full). real_block p b \<longrightarrow> block_hash (pool_heap p b) = None"
    and "distinct (filter (real_block p) (py_slice blocks num_cached num_full))"
    and "0 \<le> g" and "g < 2 ^ 32"
    and "num_cached \<le> int j" and "int j < num_full" and "real_block p (blocks ! j)"
  shows "\<exists>p' r' b. cache_full_blocks sha r blocks num_cached num_full block_size g p = Inr (p', r') \<and>
           pool_inv p' \<and> get_cached_block p' (block_hashes r ! j) [g] = Inr (Some [b]) \<and>
           holds_hash p' (block_hashes r ! j) g b"
proof -
  obtain p' r' where run: "cache_full_blocks sha r blocks num_cached num_full block_size g p = Inr (p', r')"
      "pool_rep p' xs" and held: "holds_hash p' (block_hashes r ! j) g (blocks ! j)"
    using cache_full_blocks_spec [OF assms(1-10), of sha] assms(11-13) by blast
  have core: "pool_core p' xs" using run(2) by (simp add: pool_rep_def)
  obtain res where res: "get_cached_block p' (block_hashes r ! j) [g] = Inr res"
      "case res of Some bs \<Rightarrow> list_all2 (holds_hash p' (block_hashes r ! j)) [g] bs
         | None \<Rightarrow> \<exists>g' \<in> set [g]. \<forall>b. \<not> holds_hash p' (block_hashes r ! j) g' b"
    using get_cached_block_spec [OF core, of "[g]"] assms(9,10) by auto
  with held obtain b where "res = Some [b]" "holds_hash p' (block_hashes r ! j) g b"
    by (cases res) (auto simp: list_all2_Cons1)
  with run res(1) show ?thesis by (auto simp: pool_inv_def)
qed

theorem cache_then_lookup_hits_witness:
  "\<exists>p p' r' b. init_block_pool 4 True 16 False False = Inr p \<and>
     cache_full_blocks id ((plain_request 0 ''a'' [])\<lparr>block_hashes := [[7]]\<rparr>) [Blk 1] 0 1 16 0 p = Inr (p', r') \<and>
     get_cached_block p' [7] [0] = Inr (Some [b])"
proof -
  obtain p where p: "init_block_pool 4 True 16 False False = Inr p" "pool_rep p (map Blk [1..<nat 4])"
      "num_gpu_blocks p = 4" "hash_block_size p = 16" "\<forall>i. block_hash (pool_heap p (Blk i)) = None"
    using reachable_init [of 4] by auto
  have "\<exists>p' r' b. cache_full_blocks id ((plain_request 0 ''a'' [])\<lparr>block_hashes := [[7]]\<rparr>)
      [Blk 1] 0 1 16 0 p = Inr (p', r') \<and> pool_inv p' \<and>
      get_cached_block p' (block_hashes ((plain_request 0 ''a'' [])\<lparr>block_hashes := [[7]]\<rparr>) ! 0) [0] = Inr (Some [b]) \<and>
      holds_hash p' (block_hashes ((plain_request 0 ''a'' [])\<lparr>block_hashes := [[7]]\<rparr>) ! 0) 0 b"
    by (rule cache_then_lookup_hits [OF p(2)])
      (use p in \<open>simp_all add: pool_block_def py_slice_nonneg\<close>)
  with p(1) show ?thesis by auto
qed

end
