(* ===== verification/Cache_Hit.thy ===== *)
theory Cache_Hit
  imports Block_Pool_Caching
begin

text \<open>
  The KV-cache specifications of \<^verbatim>\<open>vllm/v1/kv_cache_interface.py\<close>, as far as they determine how
  blocks are managed, and the prefix-cache lookups \<^verbatim>\<open>find_longest_cache_hit\<close> of
  \<^verbatim>\<open>vllm/v1/core/single_type_kv_cache_manager.py\<close>.

  A specification keeps its class, block size and the parameters the managers read; \<open>spec_layout\<close>
  stands for the remaining fields, which only determine the layout in bytes. The tuple of lists a
  lookup builds, one list of blocks per group, is kept as a list of rows: row \<open>i\<close> has the \<open>i\<close>-th
  block of every group, so the lists of all groups have the same length; \<open>columns\<close> gives the tuple.

  Shown: a full-attention hit is the longest aligned prefix of cached blocks; a sliding-window hit has
  every block of the window cached; lookups never exceed the given length and never raise under the
  pool invariant.
\<close>

section \<open>Specifications\<close>

datatype mamba_cache_mode = MambaNone | MambaAlign | MambaAll

datatype spec_class =
    FullAttentionSpec
  | TQFullAttentionSpec
  | MLAAttentionSpec
  | SinkFullAttentionSpec "int option"
  | SlidingWindowSpec int
  | SlidingWindowMLASpec int
  | ChunkedLocalAttentionSpec int
  | MambaSpec mamba_cache_mode int
  | CrossAttentionSpec

record kv_cache_spec =
  spec_class :: spec_class
  block_size :: int
  spec_layout :: nat

fun is_full_attention :: "spec_class \<Rightarrow> bool" where
  "is_full_attention FullAttentionSpec = True"
| "is_full_attention TQFullAttentionSpec = True"
| "is_full_attention MLAAttentionSpec = True"
| "is_full_attention (SinkFullAttentionSpec _) = True"
| "is_full_attention _ = False"

fun is_chunked_local :: "spec_class \<Rightarrow> bool" where
  "is_chunked_local (ChunkedLocalAttentionSpec _) = True"
| "is_chunked_local _ = False"

text \<open>The admission cap of the two specifications whose managers recycle blocks.\<close>

fun max_admission_blocks_per_request :: "kv_cache_spec \<Rightarrow> int \<Rightarrow> int \<Rightarrow> int option" where
  "max_admission_blocks_per_request spec max_num_batched_tokens max_model_len =
     (case spec_class spec of
        SlidingWindowSpec w \<Rightarrow> Some (cdiv (min (w - 1 + max_num_batched_tokens) max_model_len) (block_size spec) + 1)
      | SlidingWindowMLASpec w \<Rightarrow> Some (cdiv (min (w - 1 + max_num_batched_tokens) max_model_len) (block_size spec) + 1)
      | ChunkedLocalAttentionSpec c \<Rightarrow> Some (cdiv (min (c + max_num_batched_tokens) max_model_len) (block_size spec))
      | _ \<Rightarrow> None)"

section \<open>Rows of blocks\<close>

definition columns :: "nat \<Rightarrow> ref list list \<Rightarrow> ref list list" where
  "columns n rows = map (\<lambda>k. map (\<lambda>row. row ! k) rows) [0..<n]"

text \<open>A lookup hits when it returns a list that is not empty.\<close>

fun hit_of :: "ref list option \<Rightarrow> ref list option" where
  "hit_of None = None"
| "hit_of (Some []) = None"
| "hit_of (Some (b # bs)) = Some (b # bs)"

definition lookup_row :: "block_pool \<Rightarrow> int list \<Rightarrow> byte_string \<Rightarrow> ref list option res" where
  "lookup_row p gs bh = bindE (get_cached_block p bh gs) (\<lambda>r. Inr (hit_of r))"

text \<open>
  Dropping rows from the end until the length in tokens is a multiple of the alignment; the length
  reads the list of the first group.
\<close>

fun align_rows :: "int list \<Rightarrow> int \<Rightarrow> int \<Rightarrow> ref list list \<Rightarrow> ref list list res" where
  "align_rows gs bs alignment rows =
     (if bs = alignment then Inr rows
      else if gs = [] then Inl IndexError
      else if alignment = 0 then Inl ZeroDivisionError
      else if int (length rows) * bs mod alignment = 0 then Inr rows
      else if rows = [] then Inl IndexError
      else align_rows gs bs alignment (butlast rows))"

declare align_rows.simps [simp del]

definition drop_last_row :: "bool \<Rightarrow> int list \<Rightarrow> ref list list \<Rightarrow> ref list list res" where
  "drop_last_row use_eagle gs rows =
     (if \<not> use_eagle then Inr rows
      else if gs = [] then Inl IndexError
      else Inr (butlast rows))"

section \<open>Full attention\<close>

fun full_hit_loop :: "block_pool \<Rightarrow> int list \<Rightarrow> byte_string list \<Rightarrow> ref list list \<Rightarrow> ref list list res" where
  "full_hit_loop p gs [] rows = Inr rows"
| "full_hit_loop p gs (bh # bhs) rows =
     bindE (lookup_row p gs bh) (\<lambda>hit.
       case hit of None \<Rightarrow> Inr rows | Some row \<Rightarrow> full_hit_loop p gs bhs (rows @ [row]))"

definition full_find_longest_cache_hit ::
    "block_pool \<Rightarrow> hash_view \<Rightarrow> int \<Rightarrow> int list \<Rightarrow> kv_cache_spec \<Rightarrow> bool \<Rightarrow> int \<Rightarrow> int \<Rightarrow> int \<Rightarrow> ref list list res" where
  "full_find_longest_cache_hit p view max_length gs spec use_eagle alignment dcp pcp =
     assertE (is_full_attention (spec_class spec) \<or> is_chunked_local (spec_class spec))
       (let bs = (if 1 < dcp * pcp then block_size spec * (dcp * pcp) else block_size spec)
        in if bs = 0 then Inl ZeroDivisionError
           else let max_num_blocks = max_length div bs
             in if max_num_blocks < 0 then Inl ValueError
                else bindE (view_from view 0) (\<lambda>hashes.
                  bindE (full_hit_loop p gs (take (nat max_num_blocks) hashes) []) (\<lambda>rows.
                  bindE (drop_last_row use_eagle gs rows) (\<lambda>rows1.
                  bindE (align_rows gs bs alignment rows1) (\<lambda>rows2.
                  Inr (columns (length gs) rows2))))))"

section \<open>Sliding window\<close>

definition sliding_window_of :: "kv_cache_spec \<Rightarrow> int option" where
  "sliding_window_of spec =
     (case spec_class spec of SlidingWindowSpec w \<Rightarrow> Some w | SlidingWindowMLASpec w \<Rightarrow> Some w | _ \<Rightarrow> None)"

text \<open>
  The search from right to left over the block indices below \<open>i\<close>: the rows, the number of contiguous
  hits that end the part already visited, and whether a match was found.
\<close>

fun window_loop ::
    "block_pool \<Rightarrow> hash_view \<Rightarrow> int list \<Rightarrow> int \<Rightarrow> int \<Rightarrow> bool \<Rightarrow> int \<Rightarrow> nat \<Rightarrow> ref list list \<Rightarrow> nat \<Rightarrow>
     (ref list list \<times> nat \<times> bool) res" where
  "window_loop p view gs bs alignment use_eagle needed 0 rows n = Inr (rows, n, False)"
| "window_loop p view gs bs alignment use_eagle needed (Suc i) rows n =
     bindE (view_at view (int i)) (\<lambda>bh.
     bindE (lookup_row p gs bh) (\<lambda>hit.
       case hit of
         None \<Rightarrow> window_loop p view gs bs alignment use_eagle needed i rows 0
       | Some row \<Rightarrow>
           if n = 0 \<and> bs \<noteq> alignment \<and> alignment = 0 then Inl ZeroDivisionError
           else if n = 0 \<and> bs \<noteq> alignment \<and> (if use_eagle then int i else int i + 1) * bs mod alignment \<noteq> 0
           then window_loop p view gs bs alignment use_eagle needed i rows n
           else let rows' = rows[i := row]; n' = n + 1
             in if needed \<le> int n' then Inr (take (i + n') rows', n', True)
                else window_loop p view gs bs alignment use_eagle needed i rows' n'))"

definition window_find_longest_cache_hit ::
    "block_pool \<Rightarrow> hash_view \<Rightarrow> int \<Rightarrow> int list \<Rightarrow> kv_cache_spec \<Rightarrow> bool \<Rightarrow> int \<Rightarrow> int \<Rightarrow> int \<Rightarrow> ref list list res" where
  "window_find_longest_cache_hit p view max_length gs spec use_eagle alignment dcp pcp =
     (case sliding_window_of spec of
        None \<Rightarrow> Inl AssertionError
      | Some w \<Rightarrow> assertE (dcp = 1 \<and> pcp = 1)
         (let bs = block_size spec
          in if bs = 0 then Inl ZeroDivisionError
             else let needed = cdiv (w - 1) bs + of_bool use_eagle;
                      max_num_blocks = nat (max_length div bs)
               in bindE (window_loop p view gs bs alignment use_eagle needed max_num_blocks
                          (replicate max_num_blocks (replicate (length gs) (null_block p))) 0) (\<lambda>(rows, n, found).
                  bindE (if found then Inr rows else align_rows gs bs alignment (take n rows)) (\<lambda>rows1.
                  bindE (drop_last_row use_eagle gs rows1) (\<lambda>rows2.
                  bindE (if use_eagle \<and> rows1 \<noteq> [] then align_rows gs bs alignment rows2 else Inr rows2) (\<lambda>rows3.
                  Inr (columns (length gs) rows3)))))))"

section \<open>Chunked local attention\<close>

fun chunk_loop ::
    "block_pool \<Rightarrow> hash_view \<Rightarrow> int list \<Rightarrow> nat list \<Rightarrow> ref list list \<Rightarrow> ref list list res" where
  "chunk_loop p view gs [] rows = Inr rows"
| "chunk_loop p view gs (i # is) rows =
     bindE (view_at view (int i)) (\<lambda>bh.
     bindE (lookup_row p gs bh) (\<lambda>hit.
       case hit of None \<Rightarrow> Inr rows | Some row \<Rightarrow> chunk_loop p view gs is (rows @ [row])))"

definition chunk_find_longest_cache_hit ::
    "block_pool \<Rightarrow> hash_view \<Rightarrow> int \<Rightarrow> int list \<Rightarrow> kv_cache_spec \<Rightarrow> bool \<Rightarrow> int \<Rightarrow> int \<Rightarrow> int \<Rightarrow> ref list list res" where
  "chunk_find_longest_cache_hit p view max_length gs spec use_eagle alignment dcp pcp =
     (case spec_class spec of
        ChunkedLocalAttentionSpec chunk \<Rightarrow>
          assertE (\<not> use_eagle \<and> dcp = 1 \<and> pcp = 1 \<and> block_size spec = alignment)
            (if block_size spec = 0 \<or> 0 < max_length \<and> chunk = 0 then Inl ZeroDivisionError
             else let max_num_blocks = nat (max_length div block_size spec);
                      start_idx = (if 0 < max_length then max_length div chunk * chunk else 0);
                      start_block = nat (start_idx div block_size spec)
               in bindE (chunk_loop p view gs [start_block..<max_num_blocks]
                          (replicate start_block (replicate (length gs) (null_block p)))) (\<lambda>rows.
                  Inr (columns (length gs) rows)))
      | _ \<Rightarrow> Inl AssertionError)"

section \<open>Mamba\<close>

fun mamba_loop ::
    "block_pool \<Rightarrow> hash_view \<Rightarrow> int list \<Rightarrow> int \<Rightarrow> int \<Rightarrow> nat \<Rightarrow> ref list list res" where
  "mamba_loop p view gs bs alignment 0 = Inr []"
| "mamba_loop p view gs bs alignment (Suc i) =
     bindE (view_at view (int i)) (\<lambda>bh.
     bindE (lookup_row p gs bh) (\<lambda>hit.
       case hit of
         None \<Rightarrow> mamba_loop p view gs bs alignment i
       | Some row \<Rightarrow>
           if bs \<noteq> alignment \<and> alignment = 0 then Inl ZeroDivisionError
           else if bs \<noteq> alignment \<and> (int i + 1) * bs mod alignment \<noteq> 0 then mamba_loop p view gs bs alignment i
           else Inr (replicate i (replicate (length gs) (null_block p)) @ [row])))"

text \<open>The lookup takes no notice of \<open>use_eagle\<close>.\<close>

definition mamba_find_longest_cache_hit ::
    "block_pool \<Rightarrow> hash_view \<Rightarrow> int \<Rightarrow> int list \<Rightarrow> kv_cache_spec \<Rightarrow> bool \<Rightarrow> int \<Rightarrow> int \<Rightarrow> int \<Rightarrow> ref list list res" where
  "mamba_find_longest_cache_hit p view max_length gs spec use_eagle alignment dcp pcp =
     (case spec_class spec of
        MambaSpec _ _ \<Rightarrow>
          assertE (dcp = 1 \<and> pcp = 1)
            (if block_size spec = 0 then Inl ZeroDivisionError
             else bindE (mamba_loop p view gs (block_size spec) alignment (nat (max_length div block_size spec))) (\<lambda>rows.
                  Inr (columns (length gs) rows)))
      | _ \<Rightarrow> Inl AssertionError)"

section \<open>Dispatch\<close>

datatype manager_class =
    FullAttentionManager
  | SlidingWindowManager
  | ChunkedLocalAttentionManager
  | MambaManager
  | CrossAttentionManager
  | SinkFullAttentionManager

fun spec_manager_map :: "spec_class \<Rightarrow> manager_class" where
  "spec_manager_map FullAttentionSpec = FullAttentionManager"
| "spec_manager_map TQFullAttentionSpec = FullAttentionManager"
| "spec_manager_map MLAAttentionSpec = FullAttentionManager"
| "spec_manager_map (SlidingWindowSpec _) = SlidingWindowManager"
| "spec_manager_map (SlidingWindowMLASpec _) = SlidingWindowManager"
| "spec_manager_map (ChunkedLocalAttentionSpec _) = ChunkedLocalAttentionManager"
| "spec_manager_map (MambaSpec _ _) = MambaManager"
| "spec_manager_map CrossAttentionSpec = CrossAttentionManager"
| "spec_manager_map (SinkFullAttentionSpec _) = SinkFullAttentionManager"

definition find_longest_cache_hit ::
    "manager_class \<Rightarrow> block_pool \<Rightarrow> hash_view \<Rightarrow> int \<Rightarrow> int list \<Rightarrow> kv_cache_spec \<Rightarrow> bool \<Rightarrow> int \<Rightarrow> int \<Rightarrow> int \<Rightarrow>
     ref list list res" where
  "find_longest_cache_hit cls =
     (case cls of
        FullAttentionManager \<Rightarrow> full_find_longest_cache_hit
      | SinkFullAttentionManager \<Rightarrow> full_find_longest_cache_hit
      | SlidingWindowManager \<Rightarrow> window_find_longest_cache_hit
      | ChunkedLocalAttentionManager \<Rightarrow> chunk_find_longest_cache_hit
      | MambaManager \<Rightarrow> mamba_find_longest_cache_hit
      | CrossAttentionManager \<Rightarrow> (\<lambda>p view max_length gs spec use_eagle alignment dcp pcp.
          if spec_class spec = CrossAttentionSpec then Inl NotImplementedError else Inl AssertionError))"

section \<open>Lookups\<close>

text \<open>Some block holds the hash for every group.\<close>

definition hit_at :: "block_pool \<Rightarrow> int list \<Rightarrow> byte_string \<Rightarrow> bool" where
  "hit_at p gs bh \<longleftrightarrow> (\<forall>g \<in> set gs. \<exists>b. holds_hash p bh g b)"

definition group_ids_ok :: "int list \<Rightarrow> bool" where
  "group_ids_ok gs \<longleftrightarrow> gs \<noteq> [] \<and> (\<forall>g \<in> set gs. 0 \<le> g \<and> g < 2 ^ 32)"

definition row_hit :: "block_pool \<Rightarrow> int list \<Rightarrow> byte_string \<Rightarrow> ref list \<Rightarrow> bool" where
  "row_hit p gs bh row \<longleftrightarrow> list_all2 (holds_hash p bh) gs row"

lemma row_hit_hit_at: "row_hit p gs bh row \<Longrightarrow> hit_at p gs bh"
  unfolding row_hit_def hit_at_def by (metis in_set_conv_nth list_all2_conv_all_nth)

lemma row_hit_length: "row_hit p gs bh row \<Longrightarrow> length row = length gs"
  by (simp add: row_hit_def list_all2_lengthD)

lemma lookup_row_cases:
  assumes "pool_core p xs" and "group_ids_ok gs"
  obtains (miss) "lookup_row p gs bh = Inr None" "\<not> hit_at p gs bh"
  | (hit) row where "lookup_row p gs bh = Inr (Some row)" "row_hit p gs bh row"
proof -
  obtain r where r: "get_cached_block p bh gs = Inr r"
      "case r of Some bs \<Rightarrow> list_all2 (holds_hash p bh) gs bs | None \<Rightarrow> \<exists>g \<in> set gs. \<forall>b. \<not> holds_hash p bh g b"
    using get_cached_block_spec [OF assms(1), of gs bh] assms(2) by (auto simp: group_ids_ok_def)
  show thesis
  proof (cases r)
    case None
    with r show thesis by (intro miss) (auto simp: lookup_row_def hit_at_def)
  next
    case (Some bs)
    with r assms(2) obtain b bs' where "bs = b # bs'" by (cases bs) (auto simp: group_ids_ok_def)
    with Some r show thesis by (intro hit [of bs]) (simp_all add: lookup_row_def row_hit_def)
  qed
qed

definition rows_hit :: "block_pool \<Rightarrow> int list \<Rightarrow> byte_string list \<Rightarrow> ref list list \<Rightarrow> bool" where
  "rows_hit p gs hs rows \<longleftrightarrow> length rows \<le> length hs \<and> (\<forall>i < length rows. row_hit p gs (hs ! i) (rows ! i))"

lemma rows_hit_take: "rows_hit p gs hs rows \<Longrightarrow> rows_hit p gs hs (take k rows)"
  by (auto simp: rows_hit_def)

lemma rows_hit_butlast: "rows_hit p gs hs rows \<Longrightarrow> rows_hit p gs hs (butlast rows)"
  unfolding butlast_conv_take by (rule rows_hit_take)

lemma full_hit_loop_spec:
  assumes "pool_core p xs" and "group_ids_ok gs" and "rows_hit p gs (done_hs @ hs) rows"
    and "length rows = length done_hs"
  obtains rows' where "full_hit_loop p gs hs rows = Inr rows'" and "rows_hit p gs (done_hs @ hs) rows'"
    and "length rows' = length done_hs + length (takeWhile (hit_at p gs) hs)"
  using assms(3,4)
proof (induction hs arbitrary: done_hs rows thesis)
  case Nil
  then show ?case by simp
next
  case (Cons h hs)
  show ?case
  proof (cases rule: lookup_row_cases [OF assms(1,2), of h, case_names miss hit])
    case miss
    then show ?thesis using Cons.prems by simp
  next
    case (hit row)
    have "rows_hit p gs ((done_hs @ [h]) @ hs) (rows @ [row])"
      using Cons.prems(2,3) hit(2) by (auto simp: rows_hit_def nth_append)
    from Cons.IH [OF _ this] Cons.prems(3) obtain rows' where
      "full_hit_loop p gs hs (rows @ [row]) = Inr rows'" "rows_hit p gs ((done_hs @ [h]) @ hs) rows'"
      "length rows' = length (done_hs @ [h]) + length (takeWhile (hit_at p gs) hs)" by auto
    with hit row_hit_hit_at [OF hit(2)] show ?thesis by (intro Cons.prems(1) [of rows']) simp_all
  qed
qed

definition aligned :: "int \<Rightarrow> int \<Rightarrow> nat \<Rightarrow> bool" where
  "aligned bs alignment k \<longleftrightarrow> bs = alignment \<or> int k * bs mod alignment = 0"

lemma align_rows_spec:
  assumes "gs \<noteq> []" and "0 < alignment"
  obtains k where "align_rows gs bs alignment rows = Inr (take k rows)" and "k \<le> length rows"
    and "aligned bs alignment k" and "\<And>k'. aligned bs alignment k' \<Longrightarrow> k' \<le> length rows \<Longrightarrow> k' \<le> k"
proof (induction "length rows" arbitrary: rows thesis)
  case 0
  have "align_rows gs bs alignment [] = Inr []" using assms by (subst align_rows.simps) simp
  with 0 show ?case by (intro "0.prems" [of 0]) (simp_all add: aligned_def)
next
  case (Suc n)
  show ?case
  proof (cases "aligned bs alignment (length rows)")
    case True
    then show ?thesis using assms
      by (intro Suc.prems [of "length rows"]) (auto simp: align_rows.simps [of _ _ _ rows] aligned_def)
  next
    case False
    have "n = length (butlast rows)" using Suc.hyps(2) by simp
    from Suc.hyps(1) [OF this] obtain k where k: "align_rows gs bs alignment (butlast rows) = Inr (take k (butlast rows))"
      "k \<le> length (butlast rows)" "aligned bs alignment k"
      "\<And>k'. aligned bs alignment k' \<Longrightarrow> k' \<le> length (butlast rows) \<Longrightarrow> k' \<le> k" by metis
    have "align_rows gs bs alignment rows = align_rows gs bs alignment (butlast rows)"
      using False assms Suc.hyps(2) by (auto simp: align_rows.simps [of _ _ _ rows] aligned_def)
    moreover have "k' \<le> length (butlast rows)" if "aligned bs alignment k'" "k' \<le> length rows" for k'
      using that False by (cases "k' = length rows") auto
    ultimately show ?thesis using k
      by (intro Suc.prems [of k]) (auto simp: butlast_conv_take)
  qed
qed

section \<open>Full attention\<close>

lemma takeWhile_ge:
  "k \<le> length xs \<Longrightarrow> (\<And>i. i < k \<Longrightarrow> P (xs ! i)) \<Longrightarrow> k \<le> length (takeWhile P xs)"
  by (metis length_takeWhile_less_P_nth not_less takeWhile_nth nth_length_takeWhile order_le_less_trans not_le order_less_le_trans)

lemma blocks_within: "0 < bs \<Longrightarrow> 0 \<le> len \<Longrightarrow> int k * bs \<le> len \<longleftrightarrow> k \<le> nat (len div bs)"
  using le_div_iff_mult_le [of bs "int k" len] by (simp add: le_nat_iff pos_imp_zdiv_nonneg_iff)

lemma full_hit_spec:
  fixes use_eagle :: bool
  defines "e \<equiv> of_bool use_eagle :: nat"
  assumes core: "pool_core p xs" and gs: "group_ids_ok gs" and spec: "is_full_attention (spec_class spec)"
    and bs: "bs = (if 1 < dcp * pcp then block_size spec * (dcp * pcp) else block_size spec)" "0 < bs"
    and al: "0 < alignment" and len: "0 \<le> max_length" and view: "view_from view 0 = Inr hs"
  obtains rows where
      "full_find_longest_cache_hit p view max_length gs spec use_eagle alignment dcp pcp = Inr (columns (length gs) rows)"
    and "rows_hit p gs hs rows" and "int (length rows) * bs \<le> max_length" and "aligned bs alignment (length rows)"
    and "\<And>k. aligned bs alignment k \<Longrightarrow> int (k + e) * bs \<le> max_length \<Longrightarrow> k + e \<le> length hs \<Longrightarrow>
      (\<And>i. i < k + e \<Longrightarrow> hit_at p gs (hs ! i)) \<Longrightarrow> k \<le> length rows"
proof -
  define N where "N = nat (max_length div bs)"
  have N: "\<not> max_length div bs < 0" using bs(2) len by (simp add: pos_imp_zdiv_nonneg_iff not_less)
  obtain rows0 where rows0: "full_hit_loop p gs (take N hs) [] = Inr rows0" "rows_hit p gs (take N hs) rows0"
      "length rows0 = length (takeWhile (hit_at p gs) (take N hs))"
    using full_hit_loop_spec [OF core gs, of "[]" "take N hs" "[]"] by (auto simp: rows_hit_def)
  define rows1 where "rows1 = (if use_eagle then butlast rows0 else rows0)"
  have rows1: "drop_last_row use_eagle gs rows0 = Inr rows1" "length rows1 = length rows0 - e"
    using gs by (auto simp: drop_last_row_def rows1_def group_ids_ok_def e_def)
  obtain k where k: "align_rows gs bs alignment rows1 = Inr (take k rows1)" "k \<le> length rows1"
      "aligned bs alignment k" "\<And>k'. aligned bs alignment k' \<Longrightarrow> k' \<le> length rows1 \<Longrightarrow> k' \<le> k"
    using align_rows_spec [of gs alignment bs rows1] gs al by (auto simp: group_ids_ok_def)
  have hit: "rows_hit p gs hs (take k rows1)"
    using rows0(2) by (auto simp: rows_hit_def rows1_def nth_butlast)
  have "length rows0 \<le> N" using rows0(2) by (simp add: rows_hit_def)
  then have le: "int (length (take k rows1)) * bs \<le> max_length"
    unfolding blocks_within [OF bs(2) len] using k(2) rows1(2) by (simp add: N_def [symmetric])
  have max: "k' \<le> length (take k rows1)" if "aligned bs alignment k'" "int (k' + e) * bs \<le> max_length" "k' + e \<le> length hs"
      "\<And>i. i < k' + e \<Longrightarrow> hit_at p gs (hs ! i)" for k'
  proof -
    have "k' + e \<le> N" using that(2) unfolding blocks_within [OF bs(2) len] N_def .
    then have "k' + e \<le> length rows0" unfolding rows0(3) using that(3,4) by (intro takeWhile_ge) auto
    then show ?thesis using k(2,4) that(1) rows1(2) by auto
  qed
  show thesis
  proof (rule that [OF _ hit le _ max])
    show "full_find_longest_cache_hit p view max_length gs spec use_eagle alignment dcp pcp =
        Inr (columns (length gs) (take k rows1))"
      using spec bs N rows0(1) rows1(1) k(1) view
      by (simp add: full_find_longest_cache_hit_def Let_def N_def)
    show "aligned bs alignment (length (take k rows1))" using k(2,3) by (simp add: min_absorb2)
  qed blast+
qed

section \<open>Sliding window\<close>

lemma view_at_from:
  assumes "view_from view 0 = Inr hs" and "i < length hs"
  shows "view_at view (int i) = Inr (hs ! i)"
proof (cases view)
  case (PlainHashes l)
  with assms show ?thesis by (simp add: py_get_nonneg py_slice_nonneg)
next
  case (ScaledHashes l)
  with assms show ?thesis by (auto simp: bhl_from_def bindE_eq_Inr py_bound_def)
qed

definition row_ok :: "block_pool \<Rightarrow> int list \<Rightarrow> byte_string \<Rightarrow> ref list \<Rightarrow> bool" where
  "row_ok p gs bh row \<longleftrightarrow> row = replicate (length gs) (null_block p) \<or> row_hit p gs bh row"

text \<open>The rows from \<open>i\<close> on, \<open>n\<close> of them, are hits, and dropping the last row for Eagle leaves them aligned.\<close>

definition run_ok ::
    "block_pool \<Rightarrow> int list \<Rightarrow> byte_string list \<Rightarrow> int \<Rightarrow> int \<Rightarrow> bool \<Rightarrow> ref list list \<Rightarrow> nat \<Rightarrow> nat \<Rightarrow> bool" where
  "run_ok p gs hs bs alignment use_eagle rows i n \<longleftrightarrow>
     i + n \<le> length rows \<and> length rows \<le> length hs \<and>
     (\<forall>j < length rows. row_ok p gs (hs ! j) (rows ! j)) \<and>
     (\<forall>j. i \<le> j \<longrightarrow> j < i + n \<longrightarrow> row_hit p gs (hs ! j) (rows ! j)) \<and>
     (0 < n \<longrightarrow> aligned bs alignment (i + n - of_bool use_eagle))"

lemma run_ok_reset: "run_ok p gs hs bs al e rows (Suc i) n \<Longrightarrow> run_ok p gs hs bs al e rows i 0"
  by (simp add: run_ok_def)

lemma run_ok_extend:
  assumes "run_ok p gs hs bs al e rows (Suc i) n" and "i < length rows" and "row_hit p gs (hs ! i) row"
    and "n = 0 \<Longrightarrow> aligned bs al (i + 1 - of_bool e)"
  shows "run_ok p gs hs bs al e (rows[i := row]) i (n + 1)"
  using assms by (auto simp: run_ok_def row_ok_def nth_list_update le_less_Suc_eq Suc_le_eq)

lemma run_ok_take: "run_ok p gs hs bs al e rows i n \<Longrightarrow> run_ok p gs hs bs al e (take (i + n) rows) i n"
  by (auto simp: run_ok_def)

lemma window_loop_spec:
  assumes core: "pool_core p xs" and gs: "group_ids_ok gs" and al: "0 < alignment"
    and view: "view_from view 0 = Inr hs"
    and run: "run_ok p gs hs bs alignment use_eagle rows i n" and i: "i \<le> length rows"
  shows "(\<exists>rows' i' n'. window_loop p view gs bs alignment use_eagle needed i rows n = Inr (rows', n', True) \<and>
      run_ok p gs hs bs alignment use_eagle rows' i' n' \<and> length rows' = i' + n' \<and> length rows' \<le> length rows \<and>
      needed \<le> int n' \<and> 0 < n') \<or>
    (\<exists>rows' n'. window_loop p view gs bs alignment use_eagle needed i rows n = Inr (rows', n', False) \<and>
      run_ok p gs hs bs alignment use_eagle rows' 0 n' \<and> length rows' = length rows)"
  using run i
proof (induction i arbitrary: rows n)
  case 0
  then show ?case by simp
next
  case (Suc i)
  have "i < length hs" using Suc.prems by (auto simp: run_ok_def)
  then have at_i: "view_at view (int i) = Inr (hs ! i)" using view by (rule view_at_from [rotated])
  show ?case
  proof (cases rule: lookup_row_cases [OF core gs, of "hs ! i", case_names miss hit])
    case miss
    with Suc.IH [OF run_ok_reset [OF Suc.prems(1)]] Suc.prems(2) at_i show ?thesis by simp
  next
    case (hit row)
    let ?m = "n = 0 \<and> bs \<noteq> alignment \<and> (if use_eagle then int i else int i + 1) * bs mod alignment \<noteq> 0"
    have step: "window_loop p view gs bs alignment use_eagle needed (Suc i) rows n =
        (if ?m then window_loop p view gs bs alignment use_eagle needed i rows n
         else if needed \<le> int (n + 1) then Inr (take (i + (n + 1)) (rows[i := row]), n + 1, True)
         else window_loop p view gs bs alignment use_eagle needed i (rows[i := row]) (n + 1))"
      using at_i hit(1) al by (simp add: Let_def)
    show ?thesis
    proof (cases ?m)
      case True
      with Suc.IH [of rows n] Suc.prems run_ok_reset [OF Suc.prems(1)] show ?thesis unfolding step by auto
    next
      case False
      have "run_ok p gs hs bs alignment use_eagle (rows[i := row]) i (n + 1)"
        by (rule run_ok_extend [OF Suc.prems(1) _ hit(2)]) (use Suc.prems(2) False in \<open>auto simp: aligned_def ac_simps\<close>)
      note ext = this
      show ?thesis
      proof (cases "needed \<le> int (n + 1)")
        case True
        have "run_ok p gs hs bs alignment use_eagle (take (i + (n + 1)) (rows[i := row])) i (n + 1)"
          by (rule run_ok_take [OF ext])
        moreover have "length (take (i + (n + 1)) (rows[i := row])) = i + (n + 1)"
          using ext by (simp add: run_ok_def)
        moreover have "window_loop p view gs bs alignment use_eagle needed (Suc i) rows n =
            Inr (take (i + (n + 1)) (rows[i := row]), n + 1, True)" unfolding step if_not_P [OF False] if_P [OF True] ..
        ultimately show ?thesis using True Suc.prems(2) by (intro disjI1 exI conjI) auto
      next
        case no: False
        from Suc.IH [OF ext] Suc.prems(2) show ?thesis unfolding step if_not_P [OF False] if_not_P [OF no] by simp
      qed
    qed
  qed
qed

lemma align_rows_id:
  assumes "gs \<noteq> []" and "0 < alignment" and "aligned bs alignment (length rows)"
  shows "align_rows gs bs alignment rows = Inr rows"
  using assms by (subst align_rows.simps) (auto simp: aligned_def)

lemma window_rows:
  assumes core: "pool_core p xs" and gs: "group_ids_ok gs" and al: "0 < alignment"
    and view: "view_from view 0 = Inr hs" and N: "N \<le> length hs"
  obtains rows1 i n where
      "bindE (window_loop p view gs bs alignment use_eagle needed N (replicate N (replicate (length gs) (null_block p))) 0)
         (\<lambda>(rows, n, found). if found then Inr rows else align_rows gs bs alignment (take n rows)) = Inr rows1"
    and "length rows1 \<le> N" and "\<forall>j < length rows1. row_ok p gs (hs ! j) (rows1 ! j)"
    and "\<forall>j. i \<le> j \<longrightarrow> j < length rows1 \<longrightarrow> row_hit p gs (hs ! j) (rows1 ! j)"
    and "i = 0 \<and> aligned bs alignment (length rows1) \<or> length rows1 = i + n \<and> needed \<le> int n \<and>
      0 < n \<and> aligned bs alignment (length rows1 - of_bool use_eagle)"
proof -
  let ?rows0 = "replicate N (replicate (length gs) (null_block p))"
  have start: "run_ok p gs hs bs alignment use_eagle ?rows0 N 0" using N by (simp add: run_ok_def row_ok_def)
  have ne: "gs \<noteq> []" using gs by (simp add: group_ids_ok_def)
  have "N \<le> length ?rows0" by simp
  from window_loop_spec [OF core gs al view start this, of needed] show thesis
  proof (elim disjE exE conjE)
    fix rows' i' n'
    assume *: "window_loop p view gs bs alignment use_eagle needed N ?rows0 0 = Inr (rows', n', True)"
      "run_ok p gs hs bs alignment use_eagle rows' i' n'" "length rows' = i' + n'" "length rows' \<le> length ?rows0"
      "needed \<le> int n'" "0 < n'"
    show thesis by (rule that [of rows' i' n']) (use * in \<open>simp_all add: run_ok_def\<close>)
  next
    fix rows' n'
    assume *: "window_loop p view gs bs alignment use_eagle needed N ?rows0 0 = Inr (rows', n', False)"
      "run_ok p gs hs bs alignment use_eagle rows' 0 n'" "length rows' = length ?rows0"
    obtain k where k: "align_rows gs bs alignment (take n' rows') = Inr (take k (take n' rows'))"
        "k \<le> length (take n' rows')" "aligned bs alignment k"
      by (rule align_rows_spec [OF ne al, of bs "take n' rows'"])
    show thesis by (rule that [of "take k (take n' rows')" 0 0]) (use * k in \<open>auto simp: run_ok_def\<close>)
  qed
qed

lemma window_find_rows:
  assumes w: "sliding_window_of spec = Some w" and bs: "bs = block_size spec" "0 < bs"
    and "bindE (window_loop p view gs bs alignment use_eagle (cdiv (w - 1) bs + of_bool use_eagle) (nat (max_length div bs))
           (replicate (nat (max_length div bs)) (replicate (length gs) (null_block p))) 0)
         (\<lambda>(rows, n, found). if found then Inr rows else align_rows gs bs alignment (take n rows)) = Inr rows1"
    and "drop_last_row use_eagle gs rows1 = Inr rows2"
    and "(if use_eagle \<and> rows1 \<noteq> [] then align_rows gs bs alignment rows2 else Inr rows2) = Inr rows3"
  shows "window_find_longest_cache_hit p view max_length gs spec use_eagle alignment 1 1 = Inr (columns (length gs) rows3)"
proof -
  let ?scan = "window_loop p view gs bs alignment use_eagle (cdiv (w - 1) bs + of_bool use_eagle) (nat (max_length div bs))
      (replicate (nat (max_length div bs)) (replicate (length gs) (null_block p))) 0"
  let ?cont = "\<lambda>rows1. bindE (drop_last_row use_eagle gs rows1) (\<lambda>rows2.
      bindE (if use_eagle \<and> rows1 \<noteq> [] then align_rows gs bs alignment rows2 else Inr rows2) (\<lambda>rows3.
      Inr (columns (length gs) rows3)))"
  have "window_find_longest_cache_hit p view max_length gs spec use_eagle alignment 1 1 =
      bindE ?scan (\<lambda>(rows, n, found). bindE (if found then Inr rows else align_rows gs bs alignment (take n rows)) ?cont)"
    unfolding window_find_longest_cache_hit_def w option.case Let_def bs(1) [symmetric]
    using bs(2) by (simp only: assertE_def simp_thms if_True if_False refl less_imp_neq [THEN not_sym])
  also have "\<dots> = bindE (bindE ?scan (\<lambda>(rows, n, found). if found then Inr rows else align_rows gs bs alignment (take n rows))) ?cont"
    unfolding bindE_assoc by (simp add: case_prod_beta')
  finally show ?thesis using assms(4-6) by simp
qed

lemma window_hit_spec:
  fixes use_eagle :: bool
  defines "e \<equiv> of_bool use_eagle :: nat"
  assumes core: "pool_core p xs" and gs: "group_ids_ok gs" and w: "sliding_window_of spec = Some w"
    and bs: "bs = block_size spec" "0 < bs" and al: "0 < alignment" and len: "0 \<le> max_length"
    and view: "view_from view 0 = Inr hs" and hs: "max_length div bs \<le> int (length hs)"
  obtains rows where
      "window_find_longest_cache_hit p view max_length gs spec use_eagle alignment 1 1 = Inr (columns (length gs) rows)"
    and "int (length rows) * bs \<le> max_length" and "aligned bs alignment (length rows)"
    and "\<And>j. j < length rows \<Longrightarrow> row_ok p gs (hs ! j) (rows ! j)"
    and "\<And>j. j < length rows \<Longrightarrow> int (length rows) * bs - (w - 1) < (int j + 1) * bs \<Longrightarrow> row_hit p gs (hs ! j) (rows ! j)"
proof -
  define needed where "needed = cdiv (w - 1) bs + of_bool use_eagle"
  define N where "N = nat (max_length div bs)"
  have ne: "gs \<noteq> []" using gs by (simp add: group_ids_ok_def)
  have N: "N \<le> length hs" using hs unfolding N_def by linarith
  obtain rows1 i n where rows1:
      "bindE (window_loop p view gs bs alignment use_eagle needed N (replicate N (replicate (length gs) (null_block p))) 0)
         (\<lambda>(rows, n, found). if found then Inr rows else align_rows gs bs alignment (take n rows)) = Inr rows1"
      "length rows1 \<le> N" "\<forall>j < length rows1. row_ok p gs (hs ! j) (rows1 ! j)"
      "\<forall>j. i \<le> j \<longrightarrow> j < length rows1 \<longrightarrow> row_hit p gs (hs ! j) (rows1 ! j)"
      "i = 0 \<and> aligned bs alignment (length rows1) \<or> length rows1 = i + n \<and> needed \<le> int n \<and>
        0 < n \<and> aligned bs alignment (length rows1 - of_bool use_eagle)"
    by (rule window_rows [OF core gs al view N, of bs use_eagle needed])
  define rows2 where "rows2 = (if use_eagle then butlast rows1 else rows1)"
  have rows2: "drop_last_row use_eagle gs rows1 = Inr rows2" "length rows2 = length rows1 - e"
      "\<And>j. j < length rows2 \<Longrightarrow> rows2 ! j = rows1 ! j"
    using ne by (auto simp: drop_last_row_def rows2_def e_def nth_butlast split: if_splits)
  obtain k where k: "(if use_eagle \<and> rows1 \<noteq> [] then align_rows gs bs alignment rows2 else Inr rows2) = Inr (take k rows2)"
      "k \<le> length rows2" "aligned bs alignment k" "i \<noteq> 0 \<Longrightarrow> k = length rows2"
  proof (cases "aligned bs alignment (length rows2)")
    case True
    then show thesis using align_rows_id [OF ne al True] by (intro that [of "length rows2"]) simp_all
  next
    case False
    then have "use_eagle" using rows1(5) rows2(2) by (cases use_eagle) (auto simp: e_def)
    moreover from this False have "rows1 \<noteq> []" "i = 0"
      using rows1(5) rows2(2) by (auto simp: e_def aligned_def)
    ultimately have eagle: "use_eagle" "rows1 \<noteq> []" "i = 0" .
    obtain k where "align_rows gs bs alignment rows2 = Inr (take k rows2)" "k \<le> length rows2" "aligned bs alignment k"
      by (rule align_rows_spec [OF ne al, of bs rows2])
    with eagle show thesis by (intro that [of k]) simp_all
  qed
  define L where "L = length (take k rows2)"
  have L: "L = k" "L \<le> length rows1" using k(2) rows2(2) by (simp_all add: L_def)
  have covers: "row_hit p gs (hs ! j) (take k rows2 ! j)"
    if j: "j < L" "int L * bs - (w - 1) < (int j + 1) * bs" for j
  proof -
    have "(int L - int j - 1) * bs < w - 1" using j(2) by (simp add: algebra_simps)
    then have "\<not> cdiv (w - 1) bs \<le> int L - int j - 1" unfolding cdiv_le_iff [OF bs(2)] by (simp add: not_le)
    then have "i \<le> j" using rows1(5) k(4) L j(1) rows2(2) unfolding needed_def e_def
      by (cases "i = 0"; cases use_eagle) auto
    then show ?thesis using rows1(4) j(1) L rows2(3) k(2) by simp
  qed
  show thesis
  proof (rule that [of "take k rows2"])
    show "window_find_longest_cache_hit p view max_length gs spec use_eagle alignment 1 1 =
        Inr (columns (length gs) (take k rows2))"
      by (rule window_find_rows [OF w bs rows1(1) [unfolded needed_def N_def] rows2(1) k(1)])
    show "int (length (take k rows2)) * bs \<le> max_length"
      unfolding blocks_within [OF bs(2) len] using L rows1(2) by (simp add: L_def N_def)
    show "aligned bs alignment (length (take k rows2))" using k(3) L by (simp add: L_def)
    show "row_ok p gs (hs ! j) (take k rows2 ! j)" if "j < length (take k rows2)" for j
      using that rows1(3) L rows2(3) by (simp add: L_def)
  qed (use covers in \<open>simp add: L_def\<close>)
qed

section \<open>Chunked local attention and Mamba\<close>

definition rows_ok :: "block_pool \<Rightarrow> int list \<Rightarrow> byte_string list \<Rightarrow> ref list list \<Rightarrow> bool" where
  "rows_ok p gs hs rows \<longleftrightarrow> length rows \<le> length hs \<and> (\<forall>j < length rows. row_ok p gs (hs ! j) (rows ! j))"

lemma chunk_loop_spec:
  assumes core: "pool_core p xs" and gs: "group_ids_ok gs" and view: "view_from view 0 = Inr hs"
    and N: "N \<le> length hs" and i: "i \<le> N" and ok: "rows_ok p gs hs rows" "length rows = i"
    and hits: "\<And>j. s \<le> j \<Longrightarrow> j < i \<Longrightarrow> row_hit p gs (hs ! j) (rows ! j)"
  shows "\<exists>rows'. chunk_loop p view gs [i..<N] rows = Inr rows' \<and> rows_ok p gs hs rows' \<and> i \<le> length rows' \<and>
    length rows' \<le> N \<and> (\<forall>j. s \<le> j \<longrightarrow> j < length rows' \<longrightarrow> row_hit p gs (hs ! j) (rows' ! j))"
  using i ok hits
proof (induction "N - i" arbitrary: i rows)
  case 0
  then show ?case by auto
next
  case (Suc n)
  then have lt: "i < N" "[i..<N] = i # [Suc i..<N]" by (simp_all add: upt_conv_Cons)
  then have at_i: "view_at view (int i) = Inr (hs ! i)" using N by (intro view_at_from [OF view]) simp
  show ?case
  proof (cases rule: lookup_row_cases [OF core gs, of "hs ! i", case_names miss hit])
    case miss
    then show ?thesis using Suc.prems lt at_i by auto
  next
    case (hit row)
    have hit': "row_hit p gs (hs ! j) ((rows @ [row]) ! j)" if "s \<le> j" "j < Suc i" for j
      using that Suc.prems(3,4) hit(2) by (cases "j = i") (auto simp: nth_append)
    have "rows_ok p gs hs (rows @ [row])"
      using Suc.prems(2,3) hit(2) lt N by (auto simp: rows_ok_def row_ok_def nth_append less_Suc_eq)
    from Suc.hyps(1) [OF _ _ this _ hit'] Suc.hyps(2) Suc.prems(3) lt
    have "\<exists>rows'. chunk_loop p view gs [Suc i..<N] (rows @ [row]) = Inr rows' \<and> rows_ok p gs hs rows' \<and>
        Suc i \<le> length rows' \<and> length rows' \<le> N \<and> (\<forall>j. s \<le> j \<longrightarrow> j < length rows' \<longrightarrow> row_hit p gs (hs ! j) (rows' ! j))"
      by simp
    then show ?thesis using lt at_i hit(1) by auto
  qed
qed

lemma chunk_hit_spec:
  assumes core: "pool_core p xs" and gs: "group_ids_ok gs" and spec: "spec_class spec = ChunkedLocalAttentionSpec chunk"
    and bs: "bs = block_size spec" "0 < bs" and chunk: "0 < chunk" "bs dvd chunk" and len: "0 \<le> max_length"
    and view: "view_from view 0 = Inr hs" and hs: "max_length div bs \<le> int (length hs)"
  obtains rows where
      "chunk_find_longest_cache_hit p view max_length gs spec False bs 1 1 = Inr (columns (length gs) rows)"
    and "int (length rows) * bs \<le> max_length" and "rows_ok p gs hs rows"
    and "\<forall>j < length rows. int (length rows) * bs div chunk * chunk < (int j + 1) * bs \<longrightarrow> row_hit p gs (hs ! j) (rows ! j)"
proof -
  define N where "N = nat (max_length div bs)"
  define start where "start = max_length div chunk * chunk"
  define s where "s = nat (start div bs)"
  have N: "N \<le> length hs" using hs unfolding N_def by linarith
  have start: "start \<le> max_length" "0 \<le> start" unfolding start_def
    using chunk(1) len by (simp_all add: le_div_iff_mult_le [symmetric] pos_imp_zdiv_nonneg_iff)
  have "bs dvd start" unfolding start_def using chunk(2) by (rule dvd_mult)
  then have s: "int s * bs = start" using start(2) bs(2) by (simp add: s_def pos_imp_zdiv_nonneg_iff)
  have "s \<le> N" using s start(1) blocks_within [OF bs(2) len, of s] by (simp add: N_def)
  moreover have "rows_ok p gs hs (replicate s (replicate (length gs) (null_block p)))"
    using \<open>s \<le> N\<close> N by (simp add: rows_ok_def row_ok_def)
  ultimately obtain rows where rows:
      "chunk_loop p view gs [s..<N] (replicate s (replicate (length gs) (null_block p))) = Inr rows" "rows_ok p gs hs rows"
      "s \<le> length rows" "length rows \<le> N" "\<forall>j. s \<le> j \<longrightarrow> j < length rows \<longrightarrow> row_hit p gs (hs ! j) (rows ! j)"
    using chunk_loop_spec [OF core gs view N, of s "replicate s (replicate (length gs) (null_block p))" s] by auto
  have le: "int (length rows) * bs \<le> max_length"
    unfolding blocks_within [OF bs(2) len] using rows(4) by (simp add: N_def)
  have "start \<le> int (length rows) * bs" using rows(3) bs(2) unfolding s [symmetric] by simp
  then have "max_length div chunk \<le> int (length rows) * bs div chunk"
    using chunk(1) unfolding start_def by (simp add: le_div_iff_mult_le)
  moreover have "int (length rows) * bs div chunk \<le> max_length div chunk" using le chunk(1) by (rule zdiv_mono1)
  ultimately have same: "int (length rows) * bs div chunk * chunk = start" by (simp add: start_def)
  show thesis
  proof (rule that [of rows, OF _ le rows(2)])
    show "chunk_find_longest_cache_hit p view max_length gs spec False bs 1 1 = Inr (columns (length gs) rows)"
      using spec bs chunk(1) len rows(1)
      by (cases "max_length = 0") (simp_all add: chunk_find_longest_cache_hit_def Let_def N_def s_def start_def)
    show "\<forall>j < length rows. int (length rows) * bs div chunk * chunk < (int j + 1) * bs \<longrightarrow> row_hit p gs (hs ! j) (rows ! j)"
    proof (intro allI impI)
      fix j
      assume j: "j < length rows" "int (length rows) * bs div chunk * chunk < (int j + 1) * bs"
      from j(2) have "int s * bs < (int j + 1) * bs" unfolding same s .
      then have "s \<le> j" using bs(2) by simp
      with rows(5) j(1) show "row_hit p gs (hs ! j) (rows ! j)" by blast
    qed
  qed
qed

lemma mamba_loop_spec:
  assumes core: "pool_core p xs" and gs: "group_ids_ok gs" and al: "0 < alignment"
    and view: "view_from view 0 = Inr hs" and "N \<le> length hs"
  shows "\<exists>rows. mamba_loop p view gs bs alignment N = Inr rows \<and> rows_ok p gs hs rows \<and> length rows \<le> N \<and>
    aligned bs alignment (length rows) \<and>
    (rows \<noteq> [] \<longrightarrow> row_hit p gs (hs ! (length rows - 1)) (last rows))"
  using assms(5)
proof (induction N)
  case 0
  then show ?case by (simp add: rows_ok_def aligned_def)
next
  case (Suc i)
  then have at_i: "view_at view (int i) = Inr (hs ! i)" by (intro view_at_from [OF view]) simp
  have IH: "\<exists>rows. mamba_loop p view gs bs alignment i = Inr rows \<and> rows_ok p gs hs rows \<and> length rows \<le> Suc i \<and>
    aligned bs alignment (length rows) \<and> (rows \<noteq> [] \<longrightarrow> row_hit p gs (hs ! (length rows - 1)) (last rows))"
    using Suc by (meson Suc_leD le_SucI)
  show ?case
  proof (cases rule: lookup_row_cases [OF core gs, of "hs ! i", case_names miss hit])
    case miss
    with IH at_i show ?thesis by simp
  next
    case (hit row)
    show ?thesis
    proof (cases "aligned bs alignment (Suc i)")
      case True
      have "mamba_loop p view gs bs alignment (Suc i) = Inr (replicate i (replicate (length gs) (null_block p)) @ [row])"
        using at_i hit(1) al True by (auto simp: aligned_def ac_simps)
      moreover have "rows_ok p gs hs (replicate i (replicate (length gs) (null_block p)) @ [row])"
        using Suc.prems hit(2) by (auto simp: rows_ok_def row_ok_def nth_append less_Suc_eq)
      ultimately show ?thesis using hit(2) True by simp
    next
      case False
      then have "mamba_loop p view gs bs alignment (Suc i) = mamba_loop p view gs bs alignment i"
        using at_i hit(1) al by (auto simp: aligned_def ac_simps)
      with IH show ?thesis by simp
    qed
  qed
qed

section \<open>The contract of a lookup\<close>

lemma row_ok_blocks:
  assumes "pool_core p xs" and "row_ok p gs h row"
  shows "length row = length gs" and "\<And>b. b \<in> set row \<Longrightarrow> pool_block p b"
proof -
  have null: "pool_block p (null_block p)" using assms(1) by (simp add: pool_core_def data_ok_def pool_block_def)
  show "length row = length gs" using assms(2) by (auto simp: row_ok_def row_hit_length)
  show "pool_block p b" if "b \<in> set row" for b
    using assms(2) that null unfolding row_ok_def row_hit_def
    by (auto simp: list_all2_conv_all_nth holds_hash_def in_set_conv_nth intro: real_pool_block)
qed

locale prefix_lookup =
  fixes find :: "block_pool \<Rightarrow> hash_view \<Rightarrow> int \<Rightarrow> int list \<Rightarrow> kv_cache_spec \<Rightarrow> bool \<Rightarrow> int \<Rightarrow> int \<Rightarrow> int \<Rightarrow> ref list list res"
    and usable :: "kv_cache_spec \<Rightarrow> bool \<Rightarrow> int \<Rightarrow> bool"
  assumes find_law: "pool_core p xs \<Longrightarrow> group_ids_ok gs \<Longrightarrow> usable spec use_eagle alignment \<Longrightarrow> 0 < block_size spec \<Longrightarrow>
    0 < alignment \<Longrightarrow> 0 \<le> max_length \<Longrightarrow> view_from view 0 = Inr hs \<Longrightarrow> max_length div block_size spec \<le> int (length hs) \<Longrightarrow>
    \<exists>rows. find p view max_length gs spec use_eagle alignment 1 1 = Inr (columns (length gs) rows) \<and>
      rows_ok p gs hs rows \<and> int (length rows) * block_size spec \<le> max_length \<and>
      aligned (block_size spec) alignment (length rows)"
begin

text \<open>What a caller sees: one list of blocks of the pool per group, all of the same length.\<close>

lemma hit_lists:
  assumes core: "pool_core p xs" and "group_ids_ok gs" and "usable spec use_eagle alignment" and "0 < block_size spec"
    and "0 < alignment" and "0 \<le> max_length" and "view_from view 0 = Inr hs"
    and "max_length div block_size spec \<le> int (length hs)"
  shows "\<exists>cols n. find p view max_length gs spec use_eagle alignment 1 1 = Inr cols \<and> length cols = length gs \<and>
    (\<forall>col \<in> set cols. length col = n \<and> (\<forall>b \<in> set col. pool_block p b)) \<and>
    int n * block_size spec \<le> max_length \<and> aligned (block_size spec) alignment n"
proof -
  obtain rows where rows: "find p view max_length gs spec use_eagle alignment 1 1 = Inr (columns (length gs) rows)"
      "rows_ok p gs hs rows" "int (length rows) * block_size spec \<le> max_length"
      "aligned (block_size spec) alignment (length rows)"
    using find_law [OF assms] by blast
  have "pool_block p (rows ! j ! k)" if "j < length rows" "k < length gs" for j k
    using that rows(2) row_ok_blocks [OF core, of gs "hs ! j" "rows ! j"] by (simp add: rows_ok_def)
  then have "\<forall>col \<in> set (columns (length gs) rows). length col = length rows \<and> (\<forall>b \<in> set col. pool_block p b)"
    by (auto simp: columns_def in_set_conv_nth)
  with rows show ?thesis by (intro exI [of _ "columns (length gs) rows"] exI [of _ "length rows"]) (simp add: columns_def)
qed

end

interpretation full_lookup: prefix_lookup full_find_longest_cache_hit "\<lambda>spec _ _. is_full_attention (spec_class spec)"
proof
  fix p xs gs use_eagle view hs and spec :: kv_cache_spec and alignment max_length :: int
  assume *: "pool_core p xs" "group_ids_ok gs" "is_full_attention (spec_class spec)" "0 < block_size spec" "0 < alignment"
    "0 \<le> max_length" "view_from view 0 = Inr hs"
  obtain rows where
      "full_find_longest_cache_hit p view max_length gs spec use_eagle alignment 1 1 = Inr (columns (length gs) rows)"
      "rows_hit p gs hs rows" "int (length rows) * block_size spec \<le> max_length" "aligned (block_size spec) alignment (length rows)"
    by (rule full_hit_spec [OF *(1-3), of "block_size spec" 1 1 alignment max_length view hs use_eagle]) (use * in simp_all)
  then show "\<exists>rows. full_find_longest_cache_hit p view max_length gs spec use_eagle alignment 1 1 = Inr (columns (length gs) rows) \<and>
      rows_ok p gs hs rows \<and> int (length rows) * block_size spec \<le> max_length \<and> aligned (block_size spec) alignment (length rows)"
    by (auto simp: rows_ok_def row_ok_def rows_hit_def)
qed

interpretation window_lookup: prefix_lookup window_find_longest_cache_hit "\<lambda>spec _ _. sliding_window_of spec \<noteq> None"
proof
  fix p xs gs use_eagle view hs and spec :: kv_cache_spec and alignment max_length :: int
  assume *: "pool_core p xs" "group_ids_ok gs" "sliding_window_of spec \<noteq> None" "0 < block_size spec" "0 < alignment"
    "0 \<le> max_length" "view_from view 0 = Inr hs" "max_length div block_size spec \<le> int (length hs)"
  then obtain w where w: "sliding_window_of spec = Some w" by blast
  obtain rows where rows:
      "window_find_longest_cache_hit p view max_length gs spec use_eagle alignment 1 1 = Inr (columns (length gs) rows)"
      "int (length rows) * block_size spec \<le> max_length" "aligned (block_size spec) alignment (length rows)"
      "\<forall>j < length rows. row_ok p gs (hs ! j) (rows ! j)"
    by (rule window_hit_spec [OF *(1,2) w refl *(4-8), of use_eagle]) blast
  have "length rows \<le> length hs" using rows(2) *(8) blocks_within [OF *(4,6), of "length rows"] by linarith
  with rows show "\<exists>rows. window_find_longest_cache_hit p view max_length gs spec use_eagle alignment 1 1 = Inr (columns (length gs) rows) \<and>
      rows_ok p gs hs rows \<and> int (length rows) * block_size spec \<le> max_length \<and> aligned (block_size spec) alignment (length rows)"
    by (auto simp: rows_ok_def)
qed

definition chunk_usable :: "kv_cache_spec \<Rightarrow> bool \<Rightarrow> int \<Rightarrow> bool" where
  "chunk_usable spec use_eagle alignment \<longleftrightarrow>
     (\<exists>chunk. spec_class spec = ChunkedLocalAttentionSpec chunk \<and> 0 < chunk \<and> block_size spec dvd chunk) \<and>
     \<not> use_eagle \<and> alignment = block_size spec"

interpretation chunk_lookup: prefix_lookup chunk_find_longest_cache_hit chunk_usable
proof
  fix p xs gs use_eagle view hs and spec :: kv_cache_spec and alignment max_length :: int
  assume *: "pool_core p xs" "group_ids_ok gs" "chunk_usable spec use_eagle alignment" "0 < block_size spec" "0 < alignment"
    "0 \<le> max_length" "view_from view 0 = Inr hs" "max_length div block_size spec \<le> int (length hs)"
  then obtain chunk where c: "spec_class spec = ChunkedLocalAttentionSpec chunk" "0 < chunk" "block_size spec dvd chunk"
      "\<not> use_eagle" "alignment = block_size spec" by (auto simp: chunk_usable_def)
  obtain rows where
      "chunk_find_longest_cache_hit p view max_length gs spec False (block_size spec) 1 1 = Inr (columns (length gs) rows)"
      "int (length rows) * block_size spec \<le> max_length" "rows_ok p gs hs rows"
    by (rule chunk_hit_spec [OF *(1,2) c(1) refl *(4) c(2,3) *(6-8)])
  with c(4,5) show "\<exists>rows. chunk_find_longest_cache_hit p view max_length gs spec use_eagle alignment 1 1 = Inr (columns (length gs) rows) \<and>
      rows_ok p gs hs rows \<and> int (length rows) * block_size spec \<le> max_length \<and> aligned (block_size spec) alignment (length rows)"
    by (auto simp: aligned_def)
qed

fun is_mamba :: "spec_class \<Rightarrow> bool" where
  "is_mamba (MambaSpec _ _) = True"
| "is_mamba _ = False"

interpretation mamba_lookup: prefix_lookup mamba_find_longest_cache_hit "\<lambda>spec _ _. is_mamba (spec_class spec)"
proof
  fix p xs gs use_eagle view hs and spec :: kv_cache_spec and alignment max_length :: int
  assume *: "pool_core p xs" "group_ids_ok gs" "is_mamba (spec_class spec)" "0 < block_size spec" "0 < alignment"
    "0 \<le> max_length" "view_from view 0 = Inr hs" "max_length div block_size spec \<le> int (length hs)"
  then obtain m k where spec: "spec_class spec = MambaSpec m k" by (cases "spec_class spec") auto
  have "nat (max_length div block_size spec) \<le> length hs" using *(8) by linarith
  from mamba_loop_spec [OF *(1,2,5,7) this, of "block_size spec"] obtain rows where
      rows: "mamba_loop p view gs (block_size spec) alignment (nat (max_length div block_size spec)) = Inr rows"
      "rows_ok p gs hs rows" "length rows \<le> nat (max_length div block_size spec)"
      "aligned (block_size spec) alignment (length rows)" by blast
  with blocks_within [OF *(4,6), of "length rows"] spec *(4)
  show "\<exists>rows. mamba_find_longest_cache_hit p view max_length gs spec use_eagle alignment 1 1 = Inr (columns (length gs) rows) \<and>
      rows_ok p gs hs rows \<and> int (length rows) * block_size spec \<le> max_length \<and> aligned (block_size spec) alignment (length rows)"
    by (auto simp: mamba_find_longest_cache_hit_def)
qed

section \<open>Properties\<close>

text \<open>A pool in which one block holds a hash, for concrete instances.\<close>

lemma example_cached_pool: "\<exists>p xs. pool_core p xs \<and> hit_at p [0] [7]"
proof -
  obtain p where p: "pool_rep p (map Blk [1..<nat 4])" "num_gpu_blocks p = 4" "hash_block_size p = 16"
      "\<forall>i. block_hash (pool_heap p (Blk i)) = None"
    using reachable_init [of 4] by auto
  have "\<exists>p' r'. cache_full_blocks id ((plain_request 0 ''a'' [])\<lparr>block_hashes := [[7]]\<rparr>) [Blk 1] 0 1 16 0 p = Inr (p', r') \<and>
      pool_rep p' (map Blk [1..<nat 4]) \<and> num_gpu_blocks p' = num_gpu_blocks p \<and>
      (\<forall>c. ref_cnt (pool_heap p' c) = ref_cnt (pool_heap p c)) \<and>
      (\<forall>j. 0 \<le> int j \<longrightarrow> int j < 1 \<longrightarrow> real_block p ([Blk 1] ! j) \<longrightarrow>
        holds_hash p' (block_hashes ((plain_request 0 ''a'' [])\<lparr>block_hashes := [[7]]\<rparr>) ! j) 0 ([Blk 1] ! j))"
    by (rule cache_full_blocks_spec [OF p(1)]) (use p in \<open>simp_all add: pool_block_def py_slice_nonneg\<close>)
  then obtain p' where "pool_rep p' (map Blk [1..<nat 4])" "holds_hash p' [7] 0 (Blk 1)" using p(2) by force
  then show ?thesis by (auto simp: pool_rep_def hit_at_def)
qed

definition example_spec :: "spec_class \<Rightarrow> kv_cache_spec" where
  "example_spec cls = \<lparr>spec_class = cls, block_size = 16, spec_layout = 0\<rparr>"

lemma example_spec_simps [simp]: "spec_class (example_spec cls) = cls" "block_size (example_spec cls) = 16"
  by (simp_all add: example_spec_def)

text \<open>
  C16. A full-attention lookup returns the longest usable prefix. In a pool that satisfies the invariant
  it cannot raise; every block it returns holds the hash of its position for its group; the hit is not
  longer than allowed and its length is a multiple of the alignment; and no longer prefix qualifies: any
  aligned prefix whose blocks are all cached (with one more block if the last one is dropped for Eagle)
  is at most as long.
\<close>

theorem full_hit_is_longest_prefix:
  fixes use_eagle :: bool
  assumes "pool_core p xs" and "group_ids_ok gs" and "is_full_attention (spec_class spec)"
    and "0 < block_size spec" and "0 < alignment" and "0 \<le> max_length"
  shows "\<exists>rows. full_find_longest_cache_hit p (PlainHashes hs) max_length gs spec use_eagle alignment 1 1 =
        Inr (columns (length gs) rows) \<and>
      (\<forall>i < length rows. list_all2 (holds_hash p (hs ! i)) gs (rows ! i)) \<and>
      int (length rows) * block_size spec \<le> max_length \<and> aligned (block_size spec) alignment (length rows) \<and>
      (\<forall>k. aligned (block_size spec) alignment k \<longrightarrow> int (k + of_bool use_eagle) * block_size spec \<le> max_length \<longrightarrow>
         k + of_bool use_eagle \<le> length hs \<longrightarrow> (\<forall>i < k + of_bool use_eagle. hit_at p gs (hs ! i)) \<longrightarrow> k \<le> length rows)"
proof -
  have view: "view_from (PlainHashes hs) 0 = Inr hs" by (simp add: py_slice_nonneg)
  have bs: "block_size spec = (if 1 < (1 :: int) * 1 then block_size spec * (1 * 1) else block_size spec)" by simp
  show ?thesis
    by (rule full_hit_spec [OF assms(1-3) bs assms(4-6) view, of use_eagle])
      (intro exI conjI, assumption, simp_all add: rows_hit_def row_hit_def)
qed

theorem full_hit_is_longest_prefix_witness:
  "\<exists>p rows. full_find_longest_cache_hit p (PlainHashes [[7]]) 20 [0] (example_spec FullAttentionSpec) False 16 1 1 =
     Inr (columns 1 rows) \<and> length rows = 1"
proof -
  obtain p xs where p: "pool_core p xs" "hit_at p [0] [7]" using example_cached_pool by blast
  from full_hit_is_longest_prefix [OF p(1), of "[0]" "example_spec FullAttentionSpec" 16 20 "[[7]]" False]
  obtain rows where rows: "full_find_longest_cache_hit p (PlainHashes [[7]]) 20 [0] (example_spec FullAttentionSpec) False 16 1 1 =
      Inr (columns 1 rows)" "int (length rows) * 16 \<le> 20"
      "\<forall>k. int k * 16 \<le> 20 \<longrightarrow> k \<le> 1 \<longrightarrow> (\<forall>i < k. hit_at p [0] ([[7]] ! i)) \<longrightarrow> k \<le> length rows"
    by (auto simp: group_ids_ok_def aligned_def)
  have "1 \<le> length rows" using rows(3) [rule_format, of 1] p(2) by simp
  with rows(1,2) show ?thesis by (intro exI [of _ p] exI [of _ rows]) simp
qed

text \<open>
  C17. A sliding-window lookup never skips a block that is needed. In a pool that satisfies the invariant
  it cannot raise; the hit is aligned and not longer than allowed; every block it returns is the null
  block or holds the hash of its position; and every block that overlaps the window of the next token,
  the last \<open>w - 1\<close> tokens of the hit, holds its hash.
\<close>

theorem window_hit_covers_window:
  assumes "pool_core p xs" and "group_ids_ok gs" and "sliding_window_of spec = Some w"
    and "0 < block_size spec" and "0 < alignment" and "0 \<le> max_length"
    and "max_length div block_size spec \<le> int (length hs)"
  shows "\<exists>rows. window_find_longest_cache_hit p (PlainHashes hs) max_length gs spec use_eagle alignment 1 1 =
        Inr (columns (length gs) rows) \<and>
      int (length rows) * block_size spec \<le> max_length \<and> aligned (block_size spec) alignment (length rows) \<and>
      (\<forall>j < length rows. rows ! j = replicate (length gs) (null_block p) \<or> list_all2 (holds_hash p (hs ! j)) gs (rows ! j)) \<and>
      (\<forall>j < length rows. int (length rows) * block_size spec - (w - 1) < (int j + 1) * block_size spec \<longrightarrow>
         list_all2 (holds_hash p (hs ! j)) gs (rows ! j))"
proof -
  have view: "view_from (PlainHashes hs) 0 = Inr hs" by (simp add: py_slice_nonneg)
  show ?thesis
    by (rule window_hit_spec [OF assms(1-3) refl assms(4-6) view assms(7), of use_eagle])
      (intro exI conjI, assumption, simp_all add: row_ok_def row_hit_def)
qed

theorem window_hit_covers_window_witness:
  "\<exists>p rows. window_find_longest_cache_hit p (PlainHashes [[7]]) 20 [0] (example_spec (SlidingWindowSpec 16)) False 16 1 1 =
     Inr (columns 1 rows) \<and> int (length rows) * 16 \<le> 20"
proof -
  obtain p xs where p: "pool_core p xs" using example_cached_pool by blast
  from window_hit_covers_window [OF p, of "[0]" "example_spec (SlidingWindowSpec 16)" 16 16 20 "[[7]]" False]
  show ?thesis by (auto simp: group_ids_ok_def sliding_window_of_def)
qed

end
