(* ===== verification/Single_Type_Manager.thy ===== *)
theory Single_Type_Manager
  imports Cache_Hit "HOL-Library.AList"
begin

text \<open>
  The managers of \<^verbatim>\<open>vllm/v1/core/single_type_kv_cache_manager.py\<close>, each for the layers of one
  attention type.

  One record holds the attributes of all classes; the class decides which method runs. Operations
  take the manager and the block pool it shares with the others and return both.
  \<^verbatim>\<open>req_to_blocks\<close> is an association list; a subscript of this \<^verbatim>\<open>defaultdict\<close> that may insert an
  empty entry is modelled where the operation goes on to use the entry (\<open>put_blocks\<close>), not where it
  only reads the length. The attention chunk size is positive, so its division does not raise.

  The lemmas about these operations are in \<open>Manager_Accounting\<close>.
\<close>

section \<open>State\<close>

record kv_manager =
  km_class :: manager_class
  km_spec :: kv_cache_spec
  km_block_size :: int
  km_enable_caching :: bool
  km_group_id :: int
  max_admission_blocks :: "int option"
  new_block_ids :: "int list"
  req_to_blocks :: "(string \<times> ref list) list"
  num_cached_block :: "string \<Rightarrow> int option"
  cached_blocks_this_step :: "byte_string set"
  last_state_block_idx :: "string \<Rightarrow> int option"
  allocated_block_reqs :: "string set"
  sink_blocks :: "ref list"

definition new_manager ::
    "manager_class \<Rightarrow> kv_cache_spec \<Rightarrow> bool \<Rightarrow> int \<Rightarrow> int \<Rightarrow> int \<Rightarrow> int option \<Rightarrow> kv_manager" where
  "new_manager cls spec caching group_id dcp pcp cap =
     \<lparr>km_class = cls, km_spec = spec,
      km_block_size = (if 1 < dcp * pcp then block_size spec * (dcp * pcp) else block_size spec),
      km_enable_caching = caching, km_group_id = group_id, max_admission_blocks = cap, new_block_ids = [],
      req_to_blocks = [], num_cached_block = Map.empty, cached_blocks_this_step = {},
      last_state_block_idx = Map.empty, allocated_block_reqs = {}, sink_blocks = []\<rparr>"

text \<open>The sink manager takes its blocks from the free queue when it is built.\<close>

definition init_sink_manager :: "kv_manager \<Rightarrow> block_pool \<Rightarrow> (kv_manager \<times> block_pool) res" where
  "init_sink_manager m p =
     (case spec_class (km_spec m) of
        SinkFullAttentionSpec (Some sink_len) \<Rightarrow>
          if 0 < sink_len \<and> km_block_size m = 0 then Inl ZeroDivisionError
          else assertE (0 < sink_len \<and> sink_len mod km_block_size m = 0)
            (bindE (popleft_n (sink_len div km_block_size m) (free_block_queue p)) (\<lambda>(bs, q).
              Inr (m\<lparr>sink_blocks := bs\<rparr>, p\<lparr>free_block_queue := q\<rparr>)))
      | _ \<Rightarrow> Inl AssertionError)"

definition get_manager_for_kv_cache_spec ::
    "kv_cache_spec \<Rightarrow> int \<Rightarrow> int \<Rightarrow> bool \<Rightarrow> int \<Rightarrow> int \<Rightarrow> int \<Rightarrow> block_pool \<Rightarrow> (kv_manager \<times> block_pool) res" where
  "get_manager_for_kv_cache_spec spec max_num_batched_tokens max_model_len caching group_id dcp pcp p =
     (let cls = spec_manager_map (spec_class spec);
          cap = max_admission_blocks_per_request spec max_num_batched_tokens max_model_len;
          m = new_manager cls spec caching group_id dcp pcp cap
      in if cls = SinkFullAttentionManager then init_sink_manager m p else Inr (m, p))"

definition blocks_of_req :: "kv_manager \<Rightarrow> string \<Rightarrow> ref list" where
  "blocks_of_req m rid = (case map_of (req_to_blocks m) rid of None \<Rightarrow> [] | Some bs \<Rightarrow> bs)"

definition put_blocks :: "string \<Rightarrow> ref list \<Rightarrow> kv_manager \<Rightarrow> kv_manager" where
  "put_blocks rid bs m = m\<lparr>req_to_blocks := AList.update rid bs (req_to_blocks m)\<rparr>"

section \<open>Predicting an allocation\<close>

definition get_num_evictable_blocks :: "block_pool \<Rightarrow> ref list \<Rightarrow> int" where
  "get_num_evictable_blocks p blocks =
     int (length (filter (\<lambda>b. ref_cnt (pool_heap p b) = 0 \<and> \<not> is_null (pool_heap p b)) blocks))"

definition get_num_skipped_tokens :: "kv_manager \<Rightarrow> int \<Rightarrow> int" where
  "get_num_skipped_tokens m computed =
     (case spec_class (km_spec m) of
        SlidingWindowSpec w \<Rightarrow> max 0 (computed - w + 1)
      | SlidingWindowMLASpec w \<Rightarrow> max 0 (computed - w + 1)
      | ChunkedLocalAttentionSpec c \<Rightarrow> computed div c * c
      | MambaSpec _ _ \<Rightarrow> computed - 1
      | _ \<Rightarrow> 0)"

definition base_get_num_blocks_to_allocate ::
    "kv_manager \<Rightarrow> block_pool \<Rightarrow> string \<Rightarrow> int \<Rightarrow> ref list \<Rightarrow> int \<Rightarrow> bool \<Rightarrow> int res" where
  "base_get_num_blocks_to_allocate m p rid num_toks new_computed_blocks total_computed_tokens apply_admission_cap =
     (let required0 = cdiv num_toks (km_block_size m);
          num_required_blocks = (case max_admission_blocks m of
            Some cap \<Rightarrow> if apply_admission_cap then min required0 cap else required0
          | None \<Rightarrow> required0);
          num_req_blocks = int (length (blocks_of_req m rid))
      in if num_cached_block m rid \<noteq> None
         then assertE (new_computed_blocks = []) (Inr (max (num_required_blocks - num_req_blocks) 0))
         else let num_skipped_tokens = get_num_skipped_tokens m total_computed_tokens;
                  num_local_computed_blocks = int (length new_computed_blocks) + num_req_blocks;
                  num_skipped_blocks = num_skipped_tokens div km_block_size m;
                  num_new_blocks = max (num_required_blocks - max num_skipped_blocks num_local_computed_blocks) 0;
                  num_skipped_new_computed_blocks = max 0 (num_skipped_blocks - num_req_blocks)
           in Inr (num_new_blocks +
                get_num_evictable_blocks p (drop (nat num_skipped_new_computed_blocks) new_computed_blocks)))"

definition mamba_get_num_blocks_to_allocate ::
    "mamba_cache_mode \<Rightarrow> int \<Rightarrow> kv_manager \<Rightarrow> block_pool \<Rightarrow> string \<Rightarrow> int \<Rightarrow> ref list \<Rightarrow> int \<Rightarrow> int \<Rightarrow> bool \<Rightarrow> int res" where
  "mamba_get_num_blocks_to_allocate mode num_speculative_blocks m p rid num_toks new_computed_blocks
       total_computed_tokens num_tokens_main_model apply_admission_cap =
     (if new_computed_blocks \<noteq> [] \<and>
         (case block_hash (pool_heap p (last new_computed_blocks)) of
            None \<Rightarrow> False | Some h \<Rightarrow> h \<in> cached_blocks_this_step m)
      then Inr (num_gpu_blocks p + 1)
      else if mode \<noteq> MambaAlign
      then base_get_num_blocks_to_allocate m p rid
             (if 0 < num_speculative_blocks then num_toks + block_size (km_spec m) * num_speculative_blocks else num_toks)
             new_computed_blocks total_computed_tokens apply_admission_cap
      else let num_required_blocks = cdiv num_tokens_main_model (km_block_size m) + num_speculative_blocks;
               num_new0 = num_required_blocks - int (length new_computed_blocks) - int (length (blocks_of_req m rid));
               num_new_blocks = (if 0 < num_new0
                 then (if rid \<in> allocated_block_reqs m then 1 else 1 + num_speculative_blocks) else num_new0)
        in Inr (num_new_blocks + get_num_evictable_blocks p new_computed_blocks))"

definition get_num_blocks_to_allocate ::
    "kv_manager \<Rightarrow> block_pool \<Rightarrow> string \<Rightarrow> int \<Rightarrow> ref list \<Rightarrow> int \<Rightarrow> int \<Rightarrow> bool \<Rightarrow> int res" where
  "get_num_blocks_to_allocate m p rid num_toks new_computed_blocks total_computed_tokens
       num_tokens_main_model apply_admission_cap =
     (case km_class m of
        MambaManager \<Rightarrow>
          (case spec_class (km_spec m) of
             MambaSpec mode k \<Rightarrow> mamba_get_num_blocks_to_allocate mode k m p rid num_toks new_computed_blocks
               total_computed_tokens num_tokens_main_model apply_admission_cap
           | _ \<Rightarrow> Inl AssertionError)
      | _ \<Rightarrow> base_get_num_blocks_to_allocate m p rid num_toks new_computed_blocks total_computed_tokens apply_admission_cap)"

section \<open>Allocating\<close>

definition extend_with_new :: "string \<Rightarrow> int \<Rightarrow> kv_manager \<Rightarrow> block_pool \<Rightarrow> (ref list \<times> kv_manager \<times> block_pool) res" where
  "extend_with_new rid n m p =
     bindE (get_new_blocks n p) (\<lambda>(bs, p').
       let m1 = put_blocks rid (blocks_of_req m rid @ bs) m
       in Inr (bs,
            if spec_class (km_spec m) = FullAttentionSpec \<or> spec_class (km_spec m) = TQFullAttentionSpec
            then m1\<lparr>new_block_ids := new_block_ids m1 @ map (\<lambda>b. block_id (pool_heap p' b)) bs\<rparr> else m1,
            p'))"

definition base_allocate_new_computed_blocks ::
    "kv_manager \<Rightarrow> block_pool \<Rightarrow> string \<Rightarrow> ref list \<Rightarrow> int \<Rightarrow> int \<Rightarrow> (kv_manager \<times> block_pool) res" where
  "base_allocate_new_computed_blocks m p rid new_computed_blocks num_local_computed_tokens num_external_computed_tokens =
     (if num_cached_block m rid \<noteq> None then assertE (new_computed_blocks = []) (Inr (m, p))
      else assertE (blocks_of_req m rid = [])
        (let num_total_computed_tokens = num_local_computed_tokens + num_external_computed_tokens;
             num_skipped_tokens = get_num_skipped_tokens m num_total_computed_tokens;
             num_skipped_blocks = num_skipped_tokens div km_block_size m;
             new_blocks = (if 0 < num_skipped_blocks then drop (nat num_skipped_blocks) new_computed_blocks
                           else new_computed_blocks);
             num_external = (if 0 < num_skipped_blocks
               then min (num_total_computed_tokens - num_skipped_tokens) num_external_computed_tokens
               else num_external_computed_tokens)
         in bindE (if km_enable_caching m then touch new_blocks p
                   else assertE (new_blocks = []) (Inr p)) (\<lambda>p1.
            let req_blocks = replicate (nat num_skipped_blocks) (null_block p) @ new_blocks;
                m1 = (put_blocks rid req_blocks m)
                  \<lparr>num_cached_block := (num_cached_block m)(rid \<mapsto> int (length req_blocks))\<rparr>
            in if 0 < num_external
               then bindE (extend_with_new rid (cdiv num_total_computed_tokens (km_block_size m) - int (length req_blocks)) m1 p1)
                      (\<lambda>(_, m2, p2). Inr (m2, p2))
               else Inr (m1, p1))))"

definition allocate_new_computed_blocks ::
    "kv_manager \<Rightarrow> block_pool \<Rightarrow> string \<Rightarrow> ref list \<Rightarrow> int \<Rightarrow> int \<Rightarrow> (kv_manager \<times> block_pool) res" where
  "allocate_new_computed_blocks m p rid new_computed_blocks num_local_computed_tokens num_external_computed_tokens =
     (case km_class m of
        CrossAttentionManager \<Rightarrow> assertE (new_computed_blocks = []) (Inr (m, p))
      | _ \<Rightarrow> base_allocate_new_computed_blocks m p rid new_computed_blocks num_local_computed_tokens num_external_computed_tokens)"

definition base_allocate_new_blocks ::
    "kv_manager \<Rightarrow> block_pool \<Rightarrow> string \<Rightarrow> int \<Rightarrow> (ref list \<times> kv_manager \<times> block_pool) res" where
  "base_allocate_new_blocks m p rid num_toks =
     (let num_new_blocks = cdiv num_toks (km_block_size m) - int (length (blocks_of_req m rid))
      in if num_new_blocks \<le> 0 then Inr ([], put_blocks rid (blocks_of_req m rid) m, p)
         else extend_with_new rid num_new_blocks m p)"

text \<open>The loop that moves the speculative blocks of the previous step behind the padding.\<close>

fun reuse_blocks :: "ref \<Rightarrow> int \<Rightarrow> int list \<Rightarrow> ref list \<Rightarrow> ref list res" where
  "reuse_blocks null num_skipped_blocks [] req_blocks = Inr req_blocks"
| "reuse_blocks null num_skipped_blocks (i # is) req_blocks =
     (if i < num_skipped_blocks
      then bindE (py_get req_blocks i) (\<lambda>b.
        let extended = req_blocks @ [b]
        in case py_position (length extended) i of
             None \<Rightarrow> Inl IndexError
           | Some k \<Rightarrow> reuse_blocks null num_skipped_blocks is (extended[k := null]))
      else Inr req_blocks)"

definition mamba_align_allocate_new_blocks ::
    "int \<Rightarrow> kv_manager \<Rightarrow> block_pool \<Rightarrow> string \<Rightarrow> int \<Rightarrow> (ref list \<times> kv_manager \<times> block_pool) res" where
  "mamba_align_allocate_new_blocks num_speculative_blocks m p rid num_toks =
     (let req_blocks = blocks_of_req m rid;
          prev_block_len = int (length req_blocks);
          num_required_blocks = cdiv num_toks (km_block_size m) + num_speculative_blocks
      in if num_required_blocks = prev_block_len then Inr ([], put_blocks rid req_blocks m, p)
         else assertE (prev_block_len < num_required_blocks)
           (let blocks_allocated = (rid \<in> allocated_block_reqs m);
                last_state = (if blocks_allocated
                  then (last_state_block_idx m)(rid \<mapsto> prev_block_len - 1 - num_speculative_blocks)
                  else if 0 < prev_block_len then (last_state_block_idx m)(rid \<mapsto> prev_block_len - 1)
                  else last_state_block_idx m);
                num_skipped_blocks = num_required_blocks - num_speculative_blocks - 1;
                padded = req_blocks @ replicate (nat (num_skipped_blocks - prev_block_len)) (null_block p)
            in bindE (if blocks_allocated
                      then reuse_blocks (null_block p) num_skipped_blocks
                             [prev_block_len - num_speculative_blocks..prev_block_len - 1] padded
                      else Inr padded) (\<lambda>reused.
               let num_new_blocks = num_required_blocks - int (length reused)
               in assertE (num_new_blocks \<le> (if blocks_allocated then 1 else num_speculative_blocks + 1))
                 (bindE (get_new_blocks num_new_blocks p) (\<lambda>(bs, p').
                   Inr (drop (length req_blocks) (reused @ bs),
                        (put_blocks rid (reused @ bs) m)
                          \<lparr>last_state_block_idx := last_state,
                           allocated_block_reqs := insert rid (allocated_block_reqs m)\<rparr>, p'))))))"

definition allocate_new_blocks ::
    "kv_manager \<Rightarrow> block_pool \<Rightarrow> string \<Rightarrow> int \<Rightarrow> int \<Rightarrow> (ref list \<times> kv_manager \<times> block_pool) res" where
  "allocate_new_blocks m p rid num_toks num_tokens_main_model =
     (case km_class m of
        MambaManager \<Rightarrow>
          (case spec_class (km_spec m) of
             MambaSpec mode k \<Rightarrow>
               if mode \<noteq> MambaAlign
               then base_allocate_new_blocks m p rid (if 0 < k then num_toks + km_block_size m * k else num_toks)
               else mamba_align_allocate_new_blocks k m p rid num_tokens_main_model
           | _ \<Rightarrow> Inl AssertionError)
      | _ \<Rightarrow> base_allocate_new_blocks m p rid num_toks)"

definition take_new_block_ids :: "kv_manager \<Rightarrow> int list \<times> kv_manager" where
  "take_new_block_ids m = (new_block_ids m, m\<lparr>new_block_ids := []\<rparr>)"

section \<open>Caching\<close>

definition base_cache_blocks ::
    "(byte_string \<Rightarrow> byte_string) \<Rightarrow> kv_manager \<Rightarrow> block_pool \<Rightarrow> request \<Rightarrow> int \<Rightarrow> (kv_manager \<times> block_pool \<times> request) res" where
  "base_cache_blocks sha m p r num_toks =
     (let num_cached_blocks = (case num_cached_block m (request_id r) of None \<Rightarrow> 0 | Some n \<Rightarrow> n);
          num_full_blocks = num_toks div km_block_size m
      in if num_full_blocks \<le> num_cached_blocks then Inr (m, p, r)
         else bindE (cache_full_blocks sha r (blocks_of_req m (request_id r)) num_cached_blocks num_full_blocks
                      (km_block_size m) (km_group_id m) p) (\<lambda>(p', r').
           Inr ((put_blocks (request_id r) (blocks_of_req m (request_id r)) m)
                  \<lparr>num_cached_block := (num_cached_block m)(request_id r \<mapsto> num_full_blocks)\<rparr>, p', r')))"

definition mamba_cache_blocks ::
    "(byte_string \<Rightarrow> byte_string) \<Rightarrow> kv_manager \<Rightarrow> block_pool \<Rightarrow> request \<Rightarrow> int \<Rightarrow> (kv_manager \<times> block_pool \<times> request) res" where
  "mamba_cache_blocks sha m p r num_toks =
     (let cached = (\<lambda>m. case num_cached_block m (request_id r) of None \<Rightarrow> 0 | Some n \<Rightarrow> n);
          num_before = cached m
      in bindE (base_cache_blocks sha m p r num_toks) (\<lambda>(m1, p1, r1).
           let num_after = cached m1
           in if num_before < num_after
              then bindE (fold_res (\<lambda>b hs.
                     if is_null (pool_heap p1 b) then Inr hs
                     else case block_hash (pool_heap p1 b) of
                            None \<Rightarrow> Inl AssertionError
                          | Some h \<Rightarrow> Inr (insert h hs))
                     (py_slice (blocks_of_req m1 (request_id r)) num_before num_after) (cached_blocks_this_step m1)) (\<lambda>hs.
                   Inr (m1\<lparr>cached_blocks_this_step := hs\<rparr>, p1, r1))
              else Inr (m1, p1, r1)))"

definition manager_cache_blocks ::
    "(byte_string \<Rightarrow> byte_string) \<Rightarrow> kv_manager \<Rightarrow> block_pool \<Rightarrow> request \<Rightarrow> int \<Rightarrow> (kv_manager \<times> block_pool \<times> request) res" where
  "manager_cache_blocks sha m p r num_toks =
     (case km_class m of
        CrossAttentionManager \<Rightarrow> Inl ValueError
      | MambaManager \<Rightarrow> mamba_cache_blocks sha m p r num_toks
      | _ \<Rightarrow> base_cache_blocks sha m p r num_toks)"

definition new_step_starts :: "kv_manager \<Rightarrow> kv_manager" where
  "new_step_starts m = (if km_class m = MambaManager then m\<lparr>cached_blocks_this_step := {}\<rparr> else m)"

section \<open>Releasing\<close>

definition base_free :: "kv_manager \<Rightarrow> block_pool \<Rightarrow> string \<Rightarrow> (kv_manager \<times> block_pool) res" where
  "base_free m p rid =
     bindE (free_blocks (rev (blocks_of_req m rid)) p) (\<lambda>p'.
       Inr (m\<lparr>req_to_blocks := AList.delete rid (req_to_blocks m),
              num_cached_block := (num_cached_block m)(rid := None)\<rparr>, p'))"

definition manager_free :: "kv_manager \<Rightarrow> block_pool \<Rightarrow> string \<Rightarrow> (kv_manager \<times> block_pool) res" where
  "manager_free m p rid =
     (case (km_class m, spec_class (km_spec m)) of
        (MambaManager, MambaSpec MambaAlign _) \<Rightarrow>
          base_free (m\<lparr>allocated_block_reqs := allocated_block_reqs m - {rid},
                       last_state_block_idx := (last_state_block_idx m)(rid := None)\<rparr>) p rid
      | _ \<Rightarrow> base_free m p rid)"

text \<open>The loop over the indices below \<open>i\<close>, from the last: the blocks of the request and those removed.\<close>

fun skip_blocks :: "ref \<Rightarrow> nat \<Rightarrow> ref list \<Rightarrow> ref list \<Rightarrow> ref list \<times> ref list" where
  "skip_blocks null 0 blocks removed = (blocks, removed)"
| "skip_blocks null (Suc i) blocks removed =
     (if blocks ! i = null then (blocks, removed)
      else skip_blocks null i (blocks[i := null]) (removed @ [blocks ! i]))"

definition base_remove_skipped_blocks ::
    "kv_manager \<Rightarrow> block_pool \<Rightarrow> string \<Rightarrow> int \<Rightarrow> (kv_manager \<times> block_pool) res" where
  "base_remove_skipped_blocks m p rid total_computed_tokens =
     (let num_skipped_tokens = get_num_skipped_tokens m total_computed_tokens
      in if num_skipped_tokens \<le> 0 then Inr (m, p)
         else let blocks = blocks_of_req m rid;
                  num_skipped_blocks = min (num_skipped_tokens div km_block_size m) (int (length blocks));
                  (blocks', removed) = skip_blocks (null_block p) (nat num_skipped_blocks) blocks []
           in bindE (free_blocks removed p) (\<lambda>p'. Inr (put_blocks rid blocks' m, p')))"

definition mamba_remove_skipped_blocks ::
    "mamba_cache_mode \<Rightarrow> int \<Rightarrow> kv_manager \<Rightarrow> block_pool \<Rightarrow> string \<Rightarrow> int \<Rightarrow> (kv_manager \<times> block_pool) res" where
  "mamba_remove_skipped_blocks mode num_speculative_blocks m p rid total_computed_tokens =
     (let computed = max 0 (total_computed_tokens - num_speculative_blocks)
      in bindE (base_remove_skipped_blocks m p rid computed) (\<lambda>(m1, p1).
         case (mode, last_state_block_idx m1 rid) of
           (MambaAlign, Some idx) \<Rightarrow>
             if idx < cdiv computed (km_block_size m) - 1
             then bindE (py_get (blocks_of_req m1 rid) idx) (\<lambda>b.
               if b \<noteq> null_block p1
               then bindE (free_blocks [b] p1) (\<lambda>p2.
                 case py_position (length (blocks_of_req m1 rid)) idx of
                   None \<Rightarrow> Inl IndexError
                 | Some k \<Rightarrow> Inr (put_blocks rid ((blocks_of_req m1 rid)[k := null_block p1]) m1, p2))
               else Inr (m1, p1))
             else Inr (m1, p1)
         | _ \<Rightarrow> Inr (m1, p1)))"

definition manager_remove_skipped_blocks ::
    "kv_manager \<Rightarrow> block_pool \<Rightarrow> string \<Rightarrow> int \<Rightarrow> (kv_manager \<times> block_pool) res" where
  "manager_remove_skipped_blocks m p rid total_computed_tokens =
     (case km_class m of
        MambaManager \<Rightarrow>
          (case spec_class (km_spec m) of
             MambaSpec mode k \<Rightarrow> mamba_remove_skipped_blocks mode k m p rid total_computed_tokens
           | _ \<Rightarrow> Inl AssertionError)
      | _ \<Rightarrow> base_remove_skipped_blocks m p rid total_computed_tokens)"

definition get_num_common_prefix_blocks :: "kv_manager \<Rightarrow> block_pool \<Rightarrow> string \<Rightarrow> int" where
  "get_num_common_prefix_blocks m p rid =
     (if km_class m = FullAttentionManager \<or> km_class m = SinkFullAttentionManager
      then int (length (takeWhile (\<lambda>b. ref_cnt (pool_heap p b) = int (length (req_to_blocks m))) (blocks_of_req m rid)))
      else 0)"

end
