(* ===== verification/Manager_Accounting.thy ===== *)
theory Manager_Accounting
  imports Single_Type_Manager
begin

text \<open>
  The accounting of blocks by one manager.

  \<^item> \<open>pool_static\<close>: no operation changes the configuration of the pool.
  \<^item> \<open>occ m b\<close> counts how often block \<open>b\<close> stands in the tables of manager \<open>m\<close>. \<open>mgr_ok m p held\<close> says that
    the reference count of every block is \<open>occ m b\<close> plus what the other managers hold, that no request
    lists a block twice, and that the blocks of a request that are not yet cached carry no hash and
    belong to it alone.
  \<^item> Every operation of a manager keeps \<open>mgr_ok\<close>, changes no private block of another owner, and takes
    from or returns to the free queue the number of blocks stated with it.
\<close>

section \<open>The configuration of the pool\<close>

definition pool_static :: "block_pool \<Rightarrow> block_pool \<Rightarrow> bool" where
  "pool_static p p' \<longleftrightarrow>
     num_gpu_blocks p' = num_gpu_blocks p \<and> enable_caching p' = enable_caching p \<and>
     hash_block_size p' = hash_block_size p \<and> null_block p' = null_block p"

lemma pool_static_refl [simp]: "pool_static p p"
  by (simp add: pool_static_def)

lemma pool_static_trans: "pool_static p p' \<Longrightarrow> pool_static p' p'' \<Longrightarrow> pool_static p p''"
  by (simp add: pool_static_def)

lemma pool_static_queue [simp]: "pool_static p (p'\<lparr>free_block_queue := q\<rparr>) = pool_static p p'"
  by (simp add: pool_static_def)

lemma pool_static_event [simp]: "pool_static p (p'\<lparr>kv_event_queue := q\<rparr>) = pool_static p p'"
  by (simp add: pool_static_def)

lemma pool_static_map [simp]: "pool_static p (p'\<lparr>cached_block_hash_to_block := c\<rparr>) = pool_static p p'"
  by (simp add: pool_static_def)

lemma pool_static_heap [simp]: "pool_static p (put_heap h p') = pool_static p p'"
  by (simp add: pool_static_def put_heap_def)

lemma pool_static_add_ref [simp]: "pool_static p (add_ref d b p') = pool_static p p'"
  by (simp add: add_ref_def)

lemma fold_res_static:
  "fold_res f xs p = Inr p' \<Longrightarrow> (\<And>x q q'. f x q = Inr q' \<Longrightarrow> pool_static q q') \<Longrightarrow> pool_static p p'"
  by (rule fold_res_preserves [where P = "pool_static p"]) (auto intro: pool_static_trans)

lemma maybe_evict_static: "pool_static p (snd (maybe_evict_cached_block b p))"
  by (simp add: maybe_evict_cached_block_def Let_def split: option.split prod.split)

lemma get_new_blocks_static:
  assumes "get_new_blocks n p = Inr (bs, p')"
  shows "pool_static p p'"
proof -
  have "pool_static q q'" if "take_block_step b q = Inr q'" for b q q'
    using that maybe_evict_static [of q b] by (auto simp: take_block_step_def Let_def assertE_eq_Inr split: if_splits)
  with assms show ?thesis
    by (auto simp: get_new_blocks_def bindE_eq_Inr pool_static_def dest!: fold_res_static split: if_splits)
qed

lemma touch_static: "touch bs p = Inr p' \<Longrightarrow> pool_static p p'"
  unfolding touch_def by (erule fold_res_static) (auto simp: touch_step_def bindE_eq_Inr split: if_splits)

lemma fold_add_ref_static: "pool_static p (fold (add_ref d) bs p') = pool_static p p'"
  by (induction bs arbitrary: p') simp_all

lemma free_blocks_static: "free_blocks bs p = Inr p' \<Longrightarrow> pool_static p p'"
  by (auto simp: free_blocks_def Let_def bindE_eq_Inr fold_add_ref_static)

lemma cache_block_step_static:
  "cache_block_step nbh g x st = Inr st' \<Longrightarrow> pool_static (fst st) (fst st')"
  by (auto simp: cache_block_step_def Let_def bindE_eq_Inr assertE_eq_Inr split: prod.splits if_splits)

lemma cache_full_blocks_static:
  assumes "cache_full_blocks sha r bs nc nf sz g p = Inr (p', r')"
  shows "pool_static p p'"
proof -
  have loop: "pool_static p (fst st)" if "fold_res (cache_block_step nbh g) xs (p, hs) = Inr st" for nbh xs hs st
    by (rule fold_res_preserves [OF that, where P = "\<lambda>st. pool_static p (fst st)"])
      (auto dest: cache_block_step_static intro: pool_static_trans)
  show ?thesis
    using assms store_event_only
    by (fastforce simp: cache_full_blocks_def Let_def bindE_eq_Inr assertE_eq_Inr split: if_splits dest!: loop)
qed

text \<open>Caching touches nothing but the hashes of the new full blocks.\<close>

lemma cache_block_step_heap:
  assumes "cache_block_step nbh g x st = Inr st'"
  shows "ref_cnt (pool_heap (fst st') c) = ref_cnt (pool_heap (fst st) c)"
    and "c \<noteq> snd x \<Longrightarrow> pool_heap (fst st') c = pool_heap (fst st) c"
  using assms
  by (auto simp: cache_block_step_def Let_def bindE_eq_Inr assertE_eq_Inr set_block_hash_def split: prod.splits if_splits)

lemma cache_full_blocks_heap:
  assumes "cache_full_blocks sha r bs nc nf sz g p = Inr (p', r')"
  shows "ref_cnt (pool_heap p' c) = ref_cnt (pool_heap p c)"
    and "c \<notin> set (py_slice bs nc nf) \<Longrightarrow> pool_heap p' c = pool_heap p c"
proof -
  define P where "P st \<longleftrightarrow> ref_cnt (pool_heap (fst st) c) = ref_cnt (pool_heap p c) \<and>
      (c \<notin> set (py_slice bs nc nf) \<longrightarrow> pool_heap (fst st) c = pool_heap p c)"
    for st :: "block_pool \<times> external_block_hash list"
  have elem: "snd x \<in> set (py_slice bs nc nf)" if "x \<in> set (enumerate 0 (py_slice bs nc nf))" for x
    using imageI [OF that, of snd] by (simp only: set_map [symmetric] map_snd_enumerate)
  have loop: "P st" if "fold_res (cache_block_step nbh g) (enumerate 0 (py_slice bs nc nf)) (p, []) = Inr st" for nbh st
  proof (rule fold_res_preserves [OF that])
    fix x st st'
    assume x: "x \<in> set (enumerate 0 (py_slice bs nc nf))" "P st" "cache_block_step nbh g x st = Inr st'"
    then have "c \<noteq> snd x" if "c \<notin> set (py_slice bs nc nf)" using elem that by metis
    with x(2) cache_block_step_heap [OF x(3), of c] show "P st'" by (auto simp: P_def)
  qed (simp add: P_def)
  have "P (p', [])"
  proof (cases "nf \<le> nc")
    case True
    with assms show ?thesis by (simp add: cache_full_blocks_def P_def)
  next
    case False
    with assms obtain view nbh p1 hs where
        fold: "fold_res (cache_block_step nbh g) (enumerate 0 (py_slice bs nc nf)) (p, []) = Inr (p1, hs)"
      and ev: "store_event sha r bs nc nf sz g view hs p1 = Inr (p', r')"
      unfolding cache_full_blocks_def Let_def by (auto simp: bindE_eq_Inr assertE_eq_Inr)
    from loop [OF fold] store_event_only [OF ev] show ?thesis by (auto simp: P_def)
  qed
  then show "ref_cnt (pool_heap p' c) = ref_cnt (pool_heap p c)"
    and "c \<notin> set (py_slice bs nc nf) \<Longrightarrow> pool_heap p' c = pool_heap p c" by (simp_all add: P_def)
qed

section \<open>Counting blocks\<close>

definition occ :: "kv_manager \<Rightarrow> ref \<Rightarrow> int" where
  "occ m b = sum_list (map (\<lambda>(_, bs). int (count_list bs b)) (req_to_blocks m))"

definition mgr_wf :: "kv_manager \<Rightarrow> block_pool \<Rightarrow> bool" where
  "mgr_wf m p \<longleftrightarrow>
     distinct (map fst (req_to_blocks m)) \<and>
     (\<forall>rid. \<forall>b \<in> set (blocks_of_req m rid). pool_block p b) \<and>
     (\<forall>rid. distinct (filter (real_block p) (blocks_of_req m rid)))"

text \<open>The first block of a request that is not cached yet.\<close>

definition cached_upto :: "kv_manager \<Rightarrow> string \<Rightarrow> int" where
  "cached_upto m rid = (case num_cached_block m rid of None \<Rightarrow> 0 | Some n \<Rightarrow> n)"

definition sole :: "block_pool \<Rightarrow> ref \<Rightarrow> bool" where
  "sole p b \<longleftrightarrow> block_hash (pool_heap p b) = None \<and> ref_cnt (pool_heap p b) = 1"

definition tail_ok :: "kv_manager \<Rightarrow> block_pool \<Rightarrow> bool" where
  "tail_ok m p \<longleftrightarrow>
     (\<forall>rid. 0 \<le> cached_upto m rid \<and>
        (\<forall>j < length (blocks_of_req m rid). cached_upto m rid \<le> int j \<longrightarrow>
           real_block p (blocks_of_req m rid ! j) \<longrightarrow> sole p (blocks_of_req m rid ! j)))"

text \<open>Without prefix caching no block ever gets a hash.\<close>

definition hash_free :: "block_pool \<Rightarrow> bool" where
  "hash_free p \<longleftrightarrow> enable_caching p \<or> (\<forall>i. block_hash (pool_heap p (Blk i)) = None)"

definition mgr_ok :: "kv_manager \<Rightarrow> block_pool \<Rightarrow> (ref \<Rightarrow> int) \<Rightarrow> bool" where
  "mgr_ok m p held \<longleftrightarrow>
     mgr_wf m p \<and> tail_ok m p \<and> hash_free p \<and>
     (\<forall>b. 0 \<le> held b \<and> (real_block p b \<longrightarrow> ref_cnt (pool_heap p b) = occ m b + held b))"

definition keeps_private :: "ref set \<Rightarrow> block_pool \<Rightarrow> block_pool \<Rightarrow> bool" where
  "keeps_private B p p' \<longleftrightarrow> (\<forall>b. real_block p b \<longrightarrow> b \<notin> B \<longrightarrow> sole p b \<longrightarrow> sole p' b)"

definition mgr_static :: "kv_manager \<Rightarrow> kv_manager \<Rightarrow> bool" where
  "mgr_static m m' \<longleftrightarrow>
     km_class m' = km_class m \<and> km_spec m' = km_spec m \<and> km_block_size m' = km_block_size m \<and>
     km_enable_caching m' = km_enable_caching m \<and> km_group_id m' = km_group_id m \<and>
     max_admission_blocks m' = max_admission_blocks m"

lemma mgr_static_refl [simp]: "mgr_static m m"
  by (simp add: mgr_static_def)

lemma mgr_static_trans: "mgr_static m m' \<Longrightarrow> mgr_static m' m'' \<Longrightarrow> mgr_static m m''"
  by (simp add: mgr_static_def)

lemma put_blocks_simps [simp]:
  "blocks_of_req (put_blocks rid bs m) rid' = (if rid' = rid then bs else blocks_of_req m rid')"
  "num_cached_block (put_blocks rid bs m) = num_cached_block m"
  "mgr_static m' (put_blocks rid bs m) = mgr_static m' m"
  "km_spec (put_blocks rid bs m) = km_spec m"
  "km_block_size (put_blocks rid bs m) = km_block_size m"
  by (simp_all add: put_blocks_def blocks_of_req_def mgr_static_def update_conv')

lemma mgr_static_cached [simp]: "mgr_static m (m'\<lparr>num_cached_block := c\<rparr>) = mgr_static m m'"
  by (simp add: mgr_static_def)

lemma put_blocks_keys [simp]:
  "distinct (map fst (req_to_blocks m)) \<Longrightarrow> distinct (map fst (req_to_blocks (put_blocks rid bs m)))"
  by (simp add: put_blocks_def distinct_update)

lemma blocks_of_req_cached [simp]: "blocks_of_req (m\<lparr>num_cached_block := c\<rparr>) rid = blocks_of_req m rid"
  by (simp add: blocks_of_req_def)

lemma blocks_of_req_ids [simp]: "blocks_of_req (m\<lparr>new_block_ids := c\<rparr>) rid = blocks_of_req m rid"
  by (simp add: blocks_of_req_def)

lemma sum_blocks_update:
  assumes "distinct (map fst d)"
  shows "sum_list (map (\<lambda>(_, bs). f bs) (AList.update k v d)) =
    sum_list (map (\<lambda>(_, bs). f bs) d) - (case map_of d k of None \<Rightarrow> 0 | Some bs \<Rightarrow> f bs) + (f v :: int)"
  using assms
proof (induction d)
  case (Cons x d)
  then show ?case by (cases x) (auto simp: map_of_eq_None_iff split: option.splits)
qed simp

lemma sum_blocks_delete:
  assumes "distinct (map fst d)"
  shows "sum_list (map (\<lambda>(_, bs). f bs) (AList.delete k d)) =
    sum_list (map (\<lambda>(_, bs). f bs) d) - (case map_of d k of None \<Rightarrow> 0 | Some bs \<Rightarrow> (f bs :: int))"
  using assms
proof (induction d)
  case (Cons x d)
  then show ?case by (cases x) (auto simp: map_of_eq_None_iff split: option.splits)
qed simp

lemma occ_put_blocks:
  "distinct (map fst (req_to_blocks m)) \<Longrightarrow>
   occ (put_blocks rid bs m) b = occ m b - int (count_list (blocks_of_req m rid) b) + int (count_list bs b)"
  unfolding occ_def put_blocks_def blocks_of_req_def
  by (simp add: sum_blocks_update [where f = "\<lambda>bs. int (count_list bs b)"] split: option.split)

lemma occ_ge_count:
  assumes "distinct (map fst (req_to_blocks m))"
  shows "int (count_list (blocks_of_req m rid) b) \<le> occ m b"
proof -
  have "0 \<le> occ (put_blocks rid [] m) b" unfolding occ_def by (intro sum_list_nonneg) auto
  then show ?thesis unfolding occ_put_blocks [OF assms] by simp
qed

lemma real_block_static: "pool_static p p' \<Longrightarrow> real_block p' = real_block p"
  by (simp add: pool_static_def real_block_def fun_eq_iff)

lemma pool_block_static: "pool_static p p' \<Longrightarrow> pool_block p' = pool_block p"
  by (simp add: pool_static_def pool_block_def fun_eq_iff)

lemma occ_two_requests:
  assumes "distinct (map fst (req_to_blocks m))" and "rid \<noteq> rid'"
    and "b \<in> set (blocks_of_req m rid)" and "b \<in> set (blocks_of_req m rid')"
  shows "2 \<le> occ m b"
proof -
  have "distinct (map fst (req_to_blocks (put_blocks rid [] m)))"
    using assms(1) by (simp add: put_blocks_def distinct_update)
  from occ_ge_count [OF this, of rid' b] assms(1,2)
  have "int (count_list (blocks_of_req m rid') b) \<le> occ m b - int (count_list (blocks_of_req m rid) b)"
    by (simp add: occ_put_blocks)
  moreover have "0 < count_list (blocks_of_req m rid) b" "0 < count_list (blocks_of_req m rid') b"
    using assms(3,4) by (metis count_list_0_iff neq0_conv)+
  ultimately show ?thesis by linarith
qed

text \<open>An operation that replaces the blocks of one request and adjusts the counts accordingly.\<close>

lemma mgr_ok_change:
  assumes ok: "mgr_ok m p held" and static: "pool_static p p'" and hf: "hash_free p'"
    and blocks: "\<And>r. blocks_of_req m' r = (if r = rid then bs else blocks_of_req m r)"
    and keys: "distinct (map fst (req_to_blocks m'))"
    and occ': "\<And>b. occ m' b = occ m b - int (count_list (blocks_of_req m rid) b) + int (count_list bs b)"
    and refs: "\<And>b. real_block p b \<Longrightarrow> ref_cnt (pool_heap p' b) =
       ref_cnt (pool_heap p b) - int (count_list (blocks_of_req m rid) b) + int (count_list bs b)"
    and cached: "\<And>r. r \<noteq> rid \<Longrightarrow> cached_upto m' r = cached_upto m r" "0 \<le> cached_upto m' rid"
    and bs: "\<forall>b \<in> set bs. pool_block p b" "distinct (filter (real_block p) bs)"
    and tail: "\<And>j. j < length bs \<Longrightarrow> cached_upto m' rid \<le> int j \<Longrightarrow> real_block p (bs ! j) \<Longrightarrow> sole p' (bs ! j)"
    and priv: "keeps_private (set (blocks_of_req m rid)) p p'"
  shows "mgr_ok m' p' held"
proof -
  have wf: "mgr_wf m p" and tl: "tail_ok m p" and
    cnt: "\<And>b. real_block p b \<Longrightarrow> ref_cnt (pool_heap p b) = occ m b + held b" and nn: "\<And>b. 0 \<le> held b"
    using ok by (auto simp: mgr_ok_def)
  have wf': "mgr_wf m' p'"
    using wf keys bs unfolding mgr_wf_def blocks real_block_static [OF static] pool_block_static [OF static] by auto
  have other: "sole p' (blocks_of_req m r ! j)"
    if r: "r \<noteq> rid" and j: "j < length (blocks_of_req m r)" "cached_upto m r \<le> int j" "real_block p (blocks_of_req m r ! j)" for r j
  proof -
    let ?b = "blocks_of_req m r ! j"
    have s: "sole p ?b" using tl j by (simp add: tail_ok_def)
    have "?b \<notin> set (blocks_of_req m rid)"
    proof
      assume "?b \<in> set (blocks_of_req m rid)"
      with occ_two_requests [of m rid r ?b] wf r j(1) have "2 \<le> occ m ?b" by (simp add: mgr_wf_def)
      with cnt [OF j(3)] nn [of ?b] s show False by (simp add: sole_def)
    qed
    with priv s j(3) show ?thesis by (simp add: keeps_private_def)
  qed
  have "tail_ok m' p'"
    unfolding tail_ok_def real_block_static [OF static] blocks
  proof (intro allI conjI impI)
    fix r
    show "0 \<le> cached_upto m' r" using cached tl by (cases "r = rid") (simp_all add: tail_ok_def)
    fix j
    assume "j < length (if r = rid then bs else blocks_of_req m r)" "cached_upto m' r \<le> int j"
      "real_block p ((if r = rid then bs else blocks_of_req m r) ! j)"
    then show "sole p' ((if r = rid then bs else blocks_of_req m r) ! j)"
      using tail other cached(1) by (cases "r = rid") simp_all
  qed
  with wf' hf nn cnt refs occ' show ?thesis by (simp add: mgr_ok_def real_block_static [OF static])
qed

lemma mgr_ok_cong:
  "req_to_blocks m' = req_to_blocks m \<Longrightarrow> num_cached_block m' = num_cached_block m \<Longrightarrow>
   mgr_ok m' p held = mgr_ok m p held"
  by (simp add: mgr_ok_def mgr_wf_def tail_ok_def occ_def blocks_of_req_def cached_upto_def)

text \<open>What every operation of a manager on request \<open>rid\<close> guarantees.\<close>

definition op_ok :: "string \<Rightarrow> (ref \<Rightarrow> int) \<Rightarrow> kv_manager \<Rightarrow> block_pool \<Rightarrow> kv_manager \<Rightarrow> block_pool \<Rightarrow> bool" where
  "op_ok rid held m p m' p' \<longleftrightarrow>
     pool_static p p' \<and> mgr_static m m' \<and> mgr_ok m' p' held \<and> keeps_private (set (blocks_of_req m rid)) p p' \<and>
     (\<forall>r. r \<noteq> rid \<longrightarrow> blocks_of_req m' r = blocks_of_req m r \<and> num_cached_block m' r = num_cached_block m r)"

lemma mgr_ok_blocks:
  assumes "mgr_ok m p held"
  shows "\<forall>b \<in> set (blocks_of_req m rid). pool_block p b" and "distinct (filter (real_block p) (blocks_of_req m rid))"
    and "\<And>b. b \<in> set (blocks_of_req m rid) \<Longrightarrow> real_block p b \<Longrightarrow> 0 < ref_cnt (pool_heap p b)"
proof -
  show "\<forall>b \<in> set (blocks_of_req m rid). pool_block p b" and "distinct (filter (real_block p) (blocks_of_req m rid))"
    using assms by (simp_all add: mgr_ok_def mgr_wf_def)
  fix b
  assume b: "b \<in> set (blocks_of_req m rid)" "real_block p b"
  then have "0 < count_list (blocks_of_req m rid) b" by (metis count_list_0_iff neq0_conv)
  with occ_ge_count [of m rid b] assms b(2) show "0 < ref_cnt (pool_heap p b)"
    by (auto simp: mgr_ok_def mgr_wf_def intro: add_pos_nonneg)
qed

lemma count_list_rev [simp]: "count_list (rev xs) b = count_list xs b"
  by (induction xs) auto

lemma count_list_update:
  "i < length xs \<Longrightarrow> int (count_list (xs[i := y]) b) = int (count_list xs b) - of_bool (xs ! i = b) + of_bool (y = b)"
proof (induction xs arbitrary: i)
  case (Cons x xs)
  then show ?case by (cases i) (simp_all add: Cons.IH)
qed simp

lemma distinct_if_counts: "(\<And>b. b \<in> set xs \<Longrightarrow> count_list xs b \<le> 1) \<Longrightarrow> distinct xs"
proof (induction xs)
  case (Cons x xs)
  have "count_list xs x = 0" using Cons.prems [of x] by simp
  moreover have "count_list xs b \<le> 1" if "b \<in> set xs" for b
    using Cons.prems [of b] that by (simp split: if_splits)
  ultimately show ?case using Cons.IH by (simp add: count_list_0_iff)
qed simp

lemma count_filter_real: "P b \<Longrightarrow> count_list (filter P xs) b = count_list xs b"
  by (induction xs) auto

lemma filter_drop_distinct: "distinct (filter P xs) \<Longrightarrow> distinct (filter P (drop n xs))"
  by (metis append_take_drop_id distinct_append filter_append)

lemma pool_block_null: "pool_rep p xs \<Longrightarrow> pool_block p (Blk 0)"
  by (auto simp: pool_block_def pool_rep_def pool_core_def data_ok_def)

lemma null_not_real:
  "pool_rep p xs \<Longrightarrow> null_block p = Blk 0 \<and> (\<forall>b. real_block p b \<longrightarrow> b \<noteq> null_block p)"
  by (auto simp: pool_rep_def pool_core_def data_ok_def)

lemma occ_sum:
  assumes "distinct (map fst (req_to_blocks m))" and "finite K" and "fst ` set (req_to_blocks m) \<subseteq> K"
  shows "occ m b = (\<Sum>r \<in> K. int (count_list (blocks_of_req m r) b))"
proof -
  have "occ m b = (\<Sum>r \<in> fst ` set (req_to_blocks m). int (count_list (blocks_of_req m r) b))"
    using assms(1) unfolding occ_def
    by (subst sum_list_distinct_conv_sum_set)
      (auto simp: distinct_map sum.reindex blocks_of_req_def map_of_eq_Some_iff [OF assms(1)] intro!: sum.cong split: option.splits)
  also have "\<dots> = (\<Sum>r \<in> K. int (count_list (blocks_of_req m r) b))"
    using assms by (intro sum.mono_neutral_left) (auto simp: blocks_of_req_def map_of_eq_None_iff split: option.splits, force)
  finally show ?thesis .
qed

lemma occ_others:
  assumes "mgr_ok m p held" and "op_ok rid held m p m' p'"
  shows "occ m' b - int (count_list (blocks_of_req m' rid) b) = occ m b - int (count_list (blocks_of_req m rid) b)"
proof -
  have keys: "distinct (map fst (req_to_blocks m))" "distinct (map fst (req_to_blocks m'))"
    using assms by (simp_all add: op_ok_def mgr_ok_def mgr_wf_def)
  define K where "K = insert rid (fst ` set (req_to_blocks m) \<union> fst ` set (req_to_blocks m'))"
  have K: "finite K" "rid \<in> K" by (simp_all add: K_def)
  have "(\<Sum>r \<in> K - {rid}. int (count_list (blocks_of_req m' r) b)) = (\<Sum>r \<in> K - {rid}. int (count_list (blocks_of_req m r) b))"
    using assms(2) by (intro sum.cong) (auto simp: op_ok_def)
  moreover have "occ m b = (\<Sum>r \<in> K. int (count_list (blocks_of_req m r) b))"
      "occ m' b = (\<Sum>r \<in> K. int (count_list (blocks_of_req m' r) b))"
    by (rule occ_sum; use keys in \<open>auto simp: K_def\<close>)+
  ultimately show ?thesis using K by (simp add: sum.remove)
qed

lemma op_ok_trans:
  assumes ok: "mgr_ok m p held" and op1: "op_ok rid held m p m1 p1" and op2: "op_ok rid held m1 p1 m2 p2"
  shows "op_ok rid held m p m2 p2"
proof -
  have static: "pool_static p p1" using op1 by (simp add: op_ok_def)
  have "sole p2 b" if b: "real_block p b" "b \<notin> set (blocks_of_req m rid)" "sole p b" for b
  proof -
    have s1: "sole p1 b" using op1 b by (simp add: op_ok_def keeps_private_def)
    have "count_list (blocks_of_req m rid) b = 0" using b(2) by (simp add: count_list_0_iff)
    moreover have "ref_cnt (pool_heap p b) = occ m b + held b" "ref_cnt (pool_heap p1 b) = occ m1 b + held b"
      using ok op1 b(1) real_block_static [OF static] by (simp_all add: op_ok_def mgr_ok_def)
    ultimately have "count_list (blocks_of_req m1 rid) b = 0"
      using s1 b(3) occ_others [OF ok op1, of b] by (simp add: sole_def)
    with s1 op2 b(1) show ?thesis
      by (simp add: op_ok_def keeps_private_def count_list_0_iff real_block_static [OF static])
  qed
  with op1 op2 show ?thesis
    by (auto simp: op_ok_def keeps_private_def intro: pool_static_trans mgr_static_trans)
qed

section \<open>Releasing blocks\<close>

text \<open>The blocks \<open>r\<close> leave the request, the blocks \<open>bs'\<close> stay at their index.\<close>

definition splits_blocks :: "block_pool \<Rightarrow> ref list \<Rightarrow> ref list \<Rightarrow> ref list \<Rightarrow> bool" where
  "splits_blocks p bs bs' r \<longleftrightarrow>
     set r \<subseteq> set bs \<and> (\<forall>b. real_block p b \<longrightarrow> count_list bs' b + count_list r b = count_list bs b) \<and>
     (\<forall>j < length bs'. bs' ! j = null_block p \<or> j < length bs \<and> bs' ! j = bs ! j)"

lemma splits_at_most_once:
  assumes "mgr_ok m p held" and "splits_blocks p (blocks_of_req m rid) bs' r" and "real_block p b"
  shows "count_list bs' b + count_list r b \<le> 1"
  using mgr_ok_blocks(2) [OF assms(1), where rid = rid] assms(2,3)
    count_list_distinct [of "filter (real_block p) (blocks_of_req m rid)" b]
    count_filter_real [of "real_block p" b "blocks_of_req m rid"]
  by (simp add: splits_blocks_def)

lemma release_pool:
  assumes rep: "pool_rep p xs" and ok: "mgr_ok m p held" and split: "splits_blocks p (blocks_of_req m rid) bs' r"
  obtains p' where "free_blocks r p = Inr p'" and "pool_static p p'"
    and "pool_rep p' (xs @ filter (\<lambda>b. real_block p b \<and> ref_cnt (pool_heap p b) = 1) r)"
    and "\<forall>c. ref_cnt (pool_heap p' c) = ref_cnt (pool_heap p c) - int (count_list r c)"
    and "\<forall>c. block_hash (pool_heap p' c) = block_hash (pool_heap p c)"
    and "keeps_private (set (blocks_of_req m rid)) p p'" and "hash_free p'"
proof -
  note B = mgr_ok_blocks [OF ok, where rid = rid]
  have r: "set r \<subseteq> set (blocks_of_req m rid)" using split by (simp add: splits_blocks_def)
  have dist: "distinct (filter (real_block p) r)"
  proof (rule distinct_if_counts)
    fix b
    assume "b \<in> set (filter (real_block p) r)"
    then show "count_list (filter (real_block p) r) b \<le> 1"
      using splits_at_most_once [OF ok split, of b] count_filter_real [of "real_block p" b r] by simp
  qed
  have held: "\<forall>b \<in> set r. pool_block p b" "\<forall>b \<in> set r. real_block p b \<longrightarrow> 0 < ref_cnt (pool_heap p b)"
    using r B(1,3) by auto
  obtain p' where p': "free_blocks r p = Inr p'"
      "pool_rep p' (xs @ filter (\<lambda>b. real_block p b \<and> ref_cnt (pool_heap p b) = 1) r)"
      "\<forall>c. ref_cnt (pool_heap p' c) = ref_cnt (pool_heap p c) - int (count_list r c)"
      "\<forall>c. block_hash (pool_heap p' c) = block_hash (pool_heap p c)"
    using free_blocks_spec [OF rep held(1) dist held(2)] by blast
  moreover have "pool_static p p'" using p'(1) by (rule free_blocks_static)
  moreover have "keeps_private (set (blocks_of_req m rid)) p p'"
    using p'(3,4) r by (auto simp: keeps_private_def sole_def count_list_0_iff)
  ultimately show thesis using ok by (intro that [of p']) (auto simp: mgr_ok_def hash_free_def pool_static_def)
qed

lemma release_ok:
  assumes rep: "pool_rep p xs" and ok: "mgr_ok m p held" and split: "splits_blocks p (blocks_of_req m rid) bs' r"
    and blocks: "\<And>q. blocks_of_req m' q = (if q = rid then bs' else blocks_of_req m q)"
    and keys: "distinct (map fst (req_to_blocks m'))"
    and occ': "\<And>b. occ m' b = occ m b - int (count_list (blocks_of_req m rid) b) + int (count_list bs' b)"
    and cached: "\<And>q. q \<noteq> rid \<Longrightarrow> num_cached_block m' q = num_cached_block m q"
      "bs' = [] \<and> cached_upto m' rid = 0 \<or> cached_upto m' rid = cached_upto m rid"
    and static: "mgr_static m m'"
  obtains p' where "free_blocks r p = Inr p'" and "op_ok rid held m p m' p'"
    and "pool_rep p' (xs @ filter (\<lambda>b. real_block p b \<and> ref_cnt (pool_heap p b) = 1) r)"
    and "\<forall>c. block_hash (pool_heap p' c) = block_hash (pool_heap p c)"
proof -
  let ?bs = "blocks_of_req m rid"
  obtain p' where p': "free_blocks r p = Inr p'" "pool_static p p'"
      "pool_rep p' (xs @ filter (\<lambda>b. real_block p b \<and> ref_cnt (pool_heap p b) = 1) r)"
      "\<forall>c. ref_cnt (pool_heap p' c) = ref_cnt (pool_heap p c) - int (count_list r c)"
      "\<forall>c. block_hash (pool_heap p' c) = block_hash (pool_heap p c)"
      "keeps_private (set ?bs) p p'" "hash_free p'"
    by (rule release_pool [OF rep ok split])
  note null = null_not_real [OF rep]
  have nth: "bs' ! j = null_block p \<or> j < length ?bs \<and> bs' ! j = ?bs ! j" if "j < length bs'" for j
    using split that by (simp add: splits_blocks_def)
  have cnt: "count_list bs' b + count_list r b = count_list ?bs b" if "real_block p b" for b
    using split that by (simp add: splits_blocks_def)
  have "mgr_ok m' p' held"
  proof (rule mgr_ok_change [OF ok p'(2,7) blocks keys occ'])
    show "ref_cnt (pool_heap p' b) = ref_cnt (pool_heap p b) - int (count_list ?bs b) + int (count_list bs' b)"
      if "real_block p b" for b using p'(4) cnt [OF that] by simp
    show "\<forall>b \<in> set bs'. pool_block p b"
      using nth mgr_ok_blocks(1) [OF ok, where rid = rid] pool_block_null [OF rep] null
      by (metis in_set_conv_nth nth_mem)
    show "distinct (filter (real_block p) bs')"
    proof (rule distinct_if_counts)
      fix b
      assume "b \<in> set (filter (real_block p) bs')"
      then show "count_list (filter (real_block p) bs') b \<le> 1"
        using splits_at_most_once [OF ok split, of b] count_filter_real [of "real_block p" b bs'] by simp
    qed
    show "sole p' (bs' ! j)" if j: "j < length bs'" "cached_upto m' rid \<le> int j" "real_block p (bs' ! j)" for j
    proof -
      have "0 < count_list bs' (bs' ! j)" using j(1) by (metis count_list_0_iff neq0_conv nth_mem)
      with splits_at_most_once [OF ok split j(3)] have "count_list r (bs' ! j) = 0" by simp
      moreover have "sole p (bs' ! j)"
        using ok j nth [OF j(1)] null cached(2) by (auto simp: mgr_ok_def tail_ok_def)
      ultimately show ?thesis using p'(4,5) by (simp add: sole_def)
    qed
  qed (use ok p'(6) cached in \<open>auto simp: cached_upto_def mgr_ok_def tail_ok_def\<close>)
  with p' blocks cached(1) static show thesis by (intro that [of p']) (simp_all add: op_ok_def)
qed

lemma base_free_ok:
  assumes rep: "pool_rep p xs" and ok: "mgr_ok m p held"
  obtains m' p' where "base_free m p rid = Inr (m', p')" and "op_ok rid held m p m' p'"
    and "pool_rep p' (xs @ filter (\<lambda>b. real_block p b \<and> ref_cnt (pool_heap p b) = 1) (rev (blocks_of_req m rid)))"
    and "blocks_of_req m' rid = []" and "num_cached_block m' rid = None"
    and "\<forall>c. block_hash (pool_heap p' c) = block_hash (pool_heap p c)"
proof -
  let ?bs = "blocks_of_req m rid"
  define m' where "m' = m\<lparr>req_to_blocks := AList.delete rid (req_to_blocks m),
      num_cached_block := (num_cached_block m)(rid := None)\<rparr>"
  have keys: "distinct (map fst (req_to_blocks m))" using ok by (simp add: mgr_ok_def mgr_wf_def)
  have blocks: "blocks_of_req m' r = (if r = rid then [] else blocks_of_req m r)" for r
    by (simp add: m'_def blocks_of_req_def delete_conv')
  have occ': "occ m' b = occ m b - int (count_list ?bs b) + int (count_list [] b)" for b
    unfolding occ_def m'_def blocks_of_req_def using keys
    by (simp add: sum_blocks_delete [where f = "\<lambda>bs. int (count_list bs b)"] split: option.split)
  have split: "splits_blocks p ?bs [] (rev ?bs)" by (simp add: splits_blocks_def)
  obtain p' where "free_blocks (rev ?bs) p = Inr p'" "op_ok rid held m p m' p'"
      "pool_rep p' (xs @ filter (\<lambda>b. real_block p b \<and> ref_cnt (pool_heap p b) = 1) (rev ?bs))"
      "\<forall>c. block_hash (pool_heap p' c) = block_hash (pool_heap p c)"
    by (rule release_ok [OF rep ok split blocks _ occ'])
      (use keys in \<open>simp_all add: m'_def distinct_delete cached_upto_def mgr_static_def\<close>)
  then show thesis
    using blocks by (intro that [of m' p']) (simp_all add: base_free_def m'_def)
qed

lemma skip_blocks_spec:
  assumes "n \<le> length blocks" and "skip_blocks null n blocks removed0 = (blocks', removed)"
  shows "length blocks' = length blocks \<and> (\<forall>j < length blocks. blocks' ! j = blocks ! j \<or> blocks' ! j = null) \<and>
    (\<exists>r. removed = removed0 @ r \<and> null \<notin> set r \<and> set r \<subseteq> set blocks \<and>
      (\<forall>b. b \<noteq> null \<longrightarrow> count_list blocks' b + count_list r b = count_list blocks b))"
  using assms
proof (induction n arbitrary: blocks removed0)
  case (Suc n)
  show ?case
  proof (cases "blocks ! n = null")
    case True
    with Suc.prems show ?thesis by auto
  next
    case False
    let ?bl = "blocks[n := null]"
    have n: "n < length blocks" "n \<le> length ?bl" using Suc.prems(1) by simp_all
    have step: "skip_blocks null n ?bl (removed0 @ [blocks ! n]) = (blocks', removed)"
      using Suc.prems(2) False by simp
    from Suc.IH [OF n(2) step] obtain r where
      r: "length blocks' = length ?bl" "\<forall>j < length ?bl. blocks' ! j = ?bl ! j \<or> blocks' ! j = null"
        "removed = (removed0 @ [blocks ! n]) @ r" "null \<notin> set r" "set r \<subseteq> set ?bl"
        "\<forall>b. b \<noteq> null \<longrightarrow> count_list blocks' b + count_list r b = count_list ?bl b" by auto
    have "count_list blocks' b + count_list (blocks ! n # r) b = count_list blocks b" if "b \<noteq> null" for b
      using r(6) that count_list_update [OF n(1), of null b] by (auto split: if_splits)
    moreover have "set (blocks ! n # r) \<subseteq> set blocks"
      using r(4,5) n(1) set_update_subset_insert [of blocks n null] by auto
    moreover have "blocks' ! j = blocks ! j \<or> blocks' ! j = null" if "j < length blocks" for j
      using r(2) that by (cases "j = n") auto
    ultimately show ?thesis using r False by (auto intro!: exI [of _ "blocks ! n # r"])
  qed
qed simp

lemma base_remove_skipped_ok:
  assumes rep: "pool_rep p xs" and ok: "mgr_ok m p held"
  obtains m' p' ys where "base_remove_skipped_blocks m p rid tot = Inr (m', p')" and "op_ok rid held m p m' p'"
    and "pool_rep p' (xs @ ys)" and "length (blocks_of_req m' rid) = length (blocks_of_req m rid)"
    and "num_cached_block m' rid = num_cached_block m rid"
    and "\<forall>c. block_hash (pool_heap p' c) = block_hash (pool_heap p c)"
proof (cases "get_num_skipped_tokens m tot \<le> 0")
  case True
  then show thesis using rep ok
    by (intro that [of m p "[]"]) (simp_all add: base_remove_skipped_blocks_def op_ok_def keeps_private_def)
next
  case False
  let ?bs = "blocks_of_req m rid"
  define n where "n = nat (min (get_num_skipped_tokens m tot div km_block_size m) (int (length ?bs)))"
  obtain bs' r where skip: "skip_blocks (null_block p) n ?bs [] = (bs', r)" by fastforce
  have n: "n \<le> length ?bs" by (simp add: n_def nat_le_iff)
  note S = skip_blocks_spec [OF n skip]
  have keys: "distinct (map fst (req_to_blocks m))" using ok by (simp add: mgr_ok_def mgr_wf_def)
  have split: "splits_blocks p ?bs bs' r"
    unfolding splits_blocks_def
  proof (intro conjI)
    show "\<forall>b. real_block p b \<longrightarrow> count_list bs' b + count_list r b = count_list ?bs b"
      using S null_not_real [OF rep] by (metis append_Nil)
  qed (use S in auto)
  obtain p' where p': "free_blocks r p = Inr p'" "op_ok rid held m p (put_blocks rid bs' m) p'"
      "pool_rep p' (xs @ filter (\<lambda>b. real_block p b \<and> ref_cnt (pool_heap p b) = 1) r)"
      "\<forall>c. block_hash (pool_heap p' c) = block_hash (pool_heap p c)"
    by (rule release_ok [OF rep ok split, where m' = "put_blocks rid bs' m"])
      (use keys in \<open>simp_all add: occ_put_blocks cached_upto_def\<close>)
  have "base_remove_skipped_blocks m p rid tot = Inr (put_blocks rid bs' m, p')"
    using False p'(1) skip by (simp add: base_remove_skipped_blocks_def n_def Let_def)
  with p' S show thesis by (intro that [of "put_blocks rid bs' m" p']) simp_all
qed

section \<open>Taking blocks\<close>

lemma keeps_private_mono: "keeps_private A p p' \<Longrightarrow> A \<subseteq> B \<Longrightarrow> keeps_private B p p'"
  by (auto simp: keeps_private_def)

lemma free_list_real: "pool_rep p xs \<Longrightarrow> b \<in> set xs \<Longrightarrow> real_block p b \<and> ref_cnt (pool_heap p b) = 0"
  by (simp add: pool_rep_def unused_blocks_def)

lemma take_new_pool:
  assumes rep: "pool_rep p xs" and hf: "hash_free p" and n: "0 \<le> n" "n \<le> int (length xs)"
  obtains p' where "get_new_blocks n p = Inr (take (nat n) xs, p')" and "pool_rep p' (drop (nat n) xs)"
    and "pool_static p p'" and "hash_free p'" and "keeps_private {} p p'"
    and "\<forall>b \<in> set (take (nat n) xs). sole p' b"
    and "\<forall>c. ref_cnt (pool_heap p' c) = ref_cnt (pool_heap p c) + int (count_list (take (nat n) xs) c)"
proof -
  let ?new = "take (nat n) xs"
  obtain p' where p': "get_new_blocks n p = Inr (?new, p')" "pool_rep p' (drop (nat n) xs)"
      "enable_caching p' = enable_caching p"
      "\<forall>c. ref_cnt (pool_heap p' c) = (if c \<in> set ?new then 1 else ref_cnt (pool_heap p c))"
      "\<forall>c. block_hash (pool_heap p' c) = (if c \<in> set ?new \<and> enable_caching p then None else block_hash (pool_heap p c))"
    using get_new_blocks_spec [OF rep n] by blast
  have free: "ref_cnt (pool_heap p c) = 0" if "c \<in> set ?new" for c
    using that free_list_real [OF rep] by (meson in_set_takeD)
  have once: "count_list ?new c = (if c \<in> set ?new then 1 else 0)" for c
    using pool_rep_distinct [OF rep] by (simp add: count_list_distinct)
  have "keeps_private {} p p'" using p'(4,5) free by (force simp: keeps_private_def sole_def)
  moreover have "\<forall>b \<in> set ?new. sole p' b"
  proof
    fix b
    assume b: "b \<in> set ?new"
    then have "real_block p b" using free_list_real [OF rep] by (meson in_set_takeD)
    then obtain i where "b = Blk i" by (auto simp: real_block_def)
    with b p'(4,5) hf show "sole p' b" by (auto simp: sole_def hash_free_def)
  qed
  moreover have "hash_free p'" using hf p'(3,5) by (auto simp: hash_free_def)
  moreover have "\<forall>c. ref_cnt (pool_heap p' c) = ref_cnt (pool_heap p c) + int (count_list ?new c)"
    using p'(4) free once by simp
  ultimately show thesis using p'(1,2) get_new_blocks_static [OF p'(1)] by (intro that [of p'])
qed

lemma extend_with_new_ok:
  assumes rep: "pool_rep p xs" and ok: "mgr_ok m p held" and n: "0 \<le> n" "n \<le> int (length xs)"
  obtains m' p' where "extend_with_new rid n m p = Inr (take (nat n) xs, m', p')" and "op_ok rid held m p m' p'"
    and "pool_rep p' (drop (nat n) xs)" and "blocks_of_req m' rid = blocks_of_req m rid @ take (nat n) xs"
    and "num_cached_block m' = num_cached_block m"
proof -
  let ?bs = "blocks_of_req m rid" and ?new = "take (nat n) xs"
  have hf: "hash_free p" and keys: "distinct (map fst (req_to_blocks m))" using ok by (simp_all add: mgr_ok_def mgr_wf_def)
  obtain p' where p': "get_new_blocks n p = Inr (?new, p')" "pool_rep p' (drop (nat n) xs)"
      "pool_static p p'" "hash_free p'" "keeps_private {} p p'" "\<forall>b \<in> set ?new. sole p' b"
      "\<forall>c. ref_cnt (pool_heap p' c) = ref_cnt (pool_heap p c) + int (count_list ?new c)"
    by (rule take_new_pool [OF rep hf n])
  have real: "real_block p b" "b \<notin> set ?bs" if "b \<in> set ?new" for b
    using that free_list_real [OF rep] mgr_ok_blocks(3) [OF ok, where rid = rid]
    by (metis in_set_takeD less_irrefl)+
  let ?m1 = "put_blocks rid (?bs @ ?new) m"
  have ok1: "mgr_ok ?m1 p' held"
  proof (rule mgr_ok_change [OF ok p'(3,4), where rid = rid and bs = "?bs @ ?new"])
    show "\<forall>b \<in> set (?bs @ ?new). pool_block p b"
      using mgr_ok_blocks(1) [OF ok, where rid = rid] real(1) by (auto intro: real_pool_block)
    show "distinct (filter (real_block p) (?bs @ ?new))"
      using mgr_ok_blocks(2) [OF ok, where rid = rid] real pool_rep_distinct [OF rep] by auto
    show "sole p' ((?bs @ ?new) ! j)"
      if j: "j < length (?bs @ ?new)" "cached_upto ?m1 rid \<le> int j" "real_block p ((?bs @ ?new) ! j)" for j
    proof (cases "j < length ?bs")
      case True
      then have "sole p (?bs ! j)" using ok j by (simp add: mgr_ok_def tail_ok_def cached_upto_def nth_append)
      with True p'(5) j(3) show ?thesis by (simp add: keeps_private_def nth_append)
    next
      case False
      with j(1) have "(?bs @ ?new) ! j \<in> set ?new" by (simp only: nth_append if_False length_append) (rule nth_mem, linarith)
      with p'(6) show ?thesis by blast
    qed
  qed (use keys p'(7) ok keeps_private_mono [OF p'(5)] in
      \<open>simp_all add: occ_put_blocks cached_upto_def mgr_ok_def tail_ok_def\<close>)
  define m' where "m' = (if spec_class (km_spec m) = FullAttentionSpec \<or> spec_class (km_spec m) = TQFullAttentionSpec
      then ?m1\<lparr>new_block_ids := new_block_ids ?m1 @ map (\<lambda>b. block_id (pool_heap p' b)) ?new\<rparr> else ?m1)"
  have m': "blocks_of_req m' = blocks_of_req ?m1" "num_cached_block m' = num_cached_block m" "mgr_static m m'"
      "req_to_blocks m' = req_to_blocks ?m1"
    by (simp_all add: m'_def mgr_static_def put_blocks_def fun_eq_iff)
  then have "op_ok rid held m p m' p'"
    using ok1 p'(3) keeps_private_mono [OF p'(5)] mgr_ok_cong [of m' ?m1 p' held] by (simp add: op_ok_def)
  moreover have "extend_with_new rid n m p = Inr (?new, m', p')"
    using p'(1) by (simp add: extend_with_new_def m'_def Let_def)
  ultimately show thesis using p'(2) m' by (intro that [of m' p']) simp_all
qed

lemma base_allocate_new_blocks_ok:
  assumes rep: "pool_rep p xs" and ok: "mgr_ok m p held"
    and fits: "cdiv num_toks (km_block_size m) - int (length (blocks_of_req m rid)) \<le> int (length xs)"
  obtains m' p' n where "base_allocate_new_blocks m p rid num_toks = Inr (take n xs, m', p')"
    and "op_ok rid held m p m' p'" and "pool_rep p' (drop n xs)"
    and "int n = max 0 (cdiv num_toks (km_block_size m) - int (length (blocks_of_req m rid)))"
    and "blocks_of_req m' rid = blocks_of_req m rid @ take n xs" and "num_cached_block m' = num_cached_block m"
proof -
  define k where "k = cdiv num_toks (km_block_size m) - int (length (blocks_of_req m rid))"
  show thesis
  proof (cases "k \<le> 0")
    case True
    let ?m' = "put_blocks rid (blocks_of_req m rid) m"
    have "mgr_ok ?m' p held"
    proof (rule mgr_ok_change [OF ok, where rid = rid and bs = "blocks_of_req m rid"])
      show "0 \<le> cached_upto ?m' rid" using ok by (simp add: cached_upto_def mgr_ok_def tail_ok_def)
      show "sole p (blocks_of_req m rid ! j)" if "j < length (blocks_of_req m rid)" "cached_upto ?m' rid \<le> int j"
          "real_block p (blocks_of_req m rid ! j)" for j
        using ok that by (simp add: cached_upto_def mgr_ok_def tail_ok_def)
    qed (use ok mgr_ok_blocks [OF ok] in
        \<open>simp_all add: mgr_ok_def mgr_wf_def occ_put_blocks cached_upto_def keeps_private_def\<close>)
    with True rep show thesis
      by (intro that [of 0 ?m' p]) (simp_all add: base_allocate_new_blocks_def k_def op_ok_def keeps_private_def)
  next
    case False
    then have n: "0 \<le> k" "k \<le> int (length xs)" using fits by (simp_all add: k_def)
    obtain m' p' where "extend_with_new rid k m p = Inr (take (nat k) xs, m', p')" "op_ok rid held m p m' p'"
        "pool_rep p' (drop (nat k) xs)" "blocks_of_req m' rid = blocks_of_req m rid @ take (nat k) xs"
        "num_cached_block m' = num_cached_block m"
      by (rule extend_with_new_ok [OF rep ok n])
    with False show thesis
      by (intro that [of "nat k" m' p']) (simp_all add: base_allocate_new_blocks_def k_def)
  qed
qed

text \<open>Touching the cached blocks of a fresh request.\<close>

definition usable_hit :: "block_pool \<Rightarrow> ref list \<Rightarrow> bool" where
  "usable_hit p bs \<longleftrightarrow>
     (\<forall>b \<in> set bs. pool_block p b \<and> (real_block p b \<longrightarrow> block_hash (pool_heap p b) \<noteq> None)) \<and>
     distinct (filter (real_block p) bs)"

lemma usable_hit_drop: "usable_hit p bs \<Longrightarrow> usable_hit p (drop n bs)"
  by (auto simp: usable_hit_def filter_drop_distinct dest: in_set_dropD)

lemma touch_length:
  assumes rep: "pool_rep p xs" and hit: "usable_hit p bs"
  shows "int (length xs) = int (length (filter (\<lambda>b. b \<notin> set bs) xs)) + get_num_evictable_blocks p bs"
proof -
  let ?ev = "filter (\<lambda>b. ref_cnt (pool_heap p b) = 0 \<and> \<not> is_null (pool_heap p b)) bs"
  have core: "data_ok p" "distinct xs" using rep pool_rep_distinct by (auto simp: pool_rep_def pool_core_def)
  have ev: "?ev = filter (\<lambda>b. b \<in> set xs) bs"
  proof (rule filter_cong [OF refl])
    fix b
    assume b: "b \<in> set bs"
    then have "b = Blk 0 \<or> real_block p b" using hit pool_block_cases by (auto simp: usable_hit_def)
    then show "ref_cnt (pool_heap p b) = 0 \<and> \<not> is_null (pool_heap p b) \<longleftrightarrow> b \<in> set xs"
      using rep core(1) by (auto simp: pool_rep_def unused_blocks_def data_ok_def)
  qed
  have split: "filter (\<lambda>b. b \<in> set xs) bs = filter (\<lambda>b. b \<in> set xs) (filter (real_block p) bs)"
    unfolding filter_filter by (rule filter_cong) (auto dest: free_list_real [OF rep])
  have "distinct (filter (\<lambda>b. b \<in> set xs) bs)"
    unfolding split using hit by (simp only: usable_hit_def distinct_filter)
  then have "length ?ev = card (set bs \<inter> set xs)" unfolding ev
    by (simp add: distinct_card [symmetric] Int_def)
  moreover have "length (filter (\<lambda>b. b \<notin> set bs) xs) = card (set xs - set bs)"
    using core(2) by (simp add: distinct_card [symmetric] set_diff_eq)
  moreover have "length xs = card (set bs \<inter> set xs) + card (set xs - set bs)"
    using core(2) card_Int_Diff [of "set xs" "set bs"] by (simp add: distinct_card Int_commute)
  ultimately show ?thesis by (simp add: get_num_evictable_blocks_def)
qed

lemma touch_pool:
  assumes rep: "pool_rep p xs" and hf: "hash_free p" and hit: "usable_hit p bs"
  obtains p' where "touch bs p = Inr p'" and "pool_rep p' (filter (\<lambda>b. b \<notin> set bs) xs)"
    and "pool_static p p'" and "hash_free p'" and "keeps_private {} p p'"
    and "\<forall>c. ref_cnt (pool_heap p' c) = ref_cnt (pool_heap p c) + int (count_list bs c)"
proof -
  have blks: "\<forall>b \<in> set bs. pool_block p b" using hit by (simp add: usable_hit_def)
  obtain p' where p': "touch bs p = Inr p'" "pool_rep p' (filter (\<lambda>b. b \<notin> set bs) xs)"
      "\<forall>c. ref_cnt (pool_heap p' c) = ref_cnt (pool_heap p c) + int (count_list bs c)"
      "\<forall>c. block_hash (pool_heap p' c) = block_hash (pool_heap p c)"
    using touch_spec [OF rep blks] by blast
  have static: "pool_static p p'" using p'(1) by (rule touch_static)
  moreover have "hash_free p'" using hf static p'(4) by (simp add: hash_free_def pool_static_def)
  moreover have "keeps_private {} p p'"
    using p'(3,4) hit by (auto simp: keeps_private_def sole_def usable_hit_def count_list_0_iff)
  ultimately show thesis using p' by (intro that [of p'])
qed

text \<open>The blocks of a fresh request: padding, then the part of the hit that is not skipped.\<close>

definition padded_hit :: "kv_manager \<Rightarrow> block_pool \<Rightarrow> ref list \<Rightarrow> int \<Rightarrow> ref list" where
  "padded_hit m p bs total_computed_tokens =
     (let k = nat (get_num_skipped_tokens m total_computed_tokens div km_block_size m)
      in replicate k (null_block p) @ drop k bs)"

definition fresh :: "kv_manager \<Rightarrow> string \<Rightarrow> bool" where
  "fresh m rid \<longleftrightarrow> num_cached_block m rid = None \<and> blocks_of_req m rid = []"

lemma adopt_hit_ok:
  assumes rep: "pool_rep p xs" and ok: "mgr_ok m p held" and fresh: "fresh m rid" and hit: "usable_hit p bs"
    and touch: "touch bs p = Inr p1"
    and req: "req_blocks = replicate k (null_block p) @ bs"
    and m1: "m1 = (put_blocks rid req_blocks m)\<lparr>num_cached_block := (num_cached_block m)(rid \<mapsto> int (length req_blocks))\<rparr>"
  shows "op_ok rid held m p m1 p1" and "pool_rep p1 (filter (\<lambda>b. b \<notin> set bs) xs)"
proof -
  have hf: "hash_free p" and keys: "distinct (map fst (req_to_blocks m))" using ok by (simp_all add: mgr_ok_def mgr_wf_def)
  obtain p' where p': "touch bs p = Inr p'" "pool_rep p' (filter (\<lambda>b. b \<notin> set bs) xs)"
      "pool_static p p'" "hash_free p'" "keeps_private {} p p'"
      "\<forall>c. ref_cnt (pool_heap p' c) = ref_cnt (pool_heap p c) + int (count_list bs c)"
    by (rule touch_pool [OF rep hf hit])
  have p1: "p' = p1" using p'(1) touch by simp
  note null = null_not_real [OF rep]
  have none: "filter (real_block p) (replicate k (null_block p)) = []" using null by (auto simp: filter_empty_conv)
  have cnt: "count_list req_blocks b = count_list bs b" if "real_block p b" for b
    using that null none count_filter_real [of "real_block p" b req_blocks] count_filter_real [of "real_block p" b bs]
    by (simp add: req)
  have "mgr_ok m1 p' held"
  proof (rule mgr_ok_change [OF ok p'(3,4), where rid = rid and bs = req_blocks])
    show "\<forall>b \<in> set req_blocks. pool_block p b"
      using hit null pool_block_null [OF rep] by (auto simp: req usable_hit_def)
    show "distinct (filter (real_block p) req_blocks)" using hit none by (simp add: req usable_hit_def)
    show "occ m1 b = occ m b - int (count_list (blocks_of_req m rid) b) + int (count_list req_blocks b)" for b
      using occ_put_blocks [OF keys, of rid req_blocks b] by (simp add: m1 occ_def)
  qed (use keys fresh p'(6) cnt p'(5) in \<open>simp_all add: m1 cached_upto_def fresh_def\<close>)
  then show "op_ok rid held m p m1 p1"
    using p'(3) keeps_private_mono [OF p'(5)] unfolding p1 by (simp add: op_ok_def m1)
  show "pool_rep p1 (filter (\<lambda>b. b \<notin> set bs) xs)" using p'(2) unfolding p1 .
qed

text \<open>The specification of a manager is one whose skipped tokens lie below the computed ones.\<close>

definition spec_ok :: "kv_manager \<Rightarrow> bool" where
  "spec_ok m \<longleftrightarrow> 0 < km_block_size m \<and>
     (case spec_class (km_spec m) of
        SlidingWindowSpec w \<Rightarrow> 0 < w
      | SlidingWindowMLASpec w \<Rightarrow> 0 < w
      | ChunkedLocalAttentionSpec c \<Rightarrow> 0 < c
      | MambaSpec _ _ \<Rightarrow> False
      | _ \<Rightarrow> True)"

lemma skipped_tokens_range:
  assumes "spec_ok m" and "0 \<le> tot"
  shows "0 \<le> get_num_skipped_tokens m tot" and "get_num_skipped_tokens m tot \<le> tot"
  using assms div_mult_mod_eq [of tot]
  by (auto simp: spec_ok_def get_num_skipped_tokens_def pos_imp_zdiv_nonneg_iff split: spec_class.splits)
    (smt (verit) mult_div_mod_eq mult.commute pos_mod_sign)

lemma skipped_blocks_range:
  assumes "spec_ok m" and "0 \<le> tot"
  shows "0 \<le> get_num_skipped_tokens m tot div km_block_size m"
    and "get_num_skipped_tokens m tot div km_block_size m \<le> tot div km_block_size m"
  using skipped_tokens_range [OF assms] assms(1)
  by (simp_all add: spec_ok_def pos_imp_zdiv_nonneg_iff zdiv_mono1)

lemma length_padded_hit:
  "spec_ok m \<Longrightarrow> 0 \<le> tot \<Longrightarrow>
   int (length (padded_hit m p bs tot)) = max (get_num_skipped_tokens m tot div km_block_size m) (int (length bs))"
  using skipped_blocks_range(1) [of m tot] by (simp add: padded_hit_def Let_def)

text \<open>The call for a fresh request, in terms of the blocks it adopts and the number it adds.\<close>

definition adopted :: "kv_manager \<Rightarrow> string \<Rightarrow> ref list \<Rightarrow> kv_manager" where
  "adopted m rid pad = (put_blocks rid pad m)\<lparr>num_cached_block := (num_cached_block m)(rid \<mapsto> int (length pad))\<rparr>"

lemma computed_run:
  assumes fresh: "fresh m rid" and spec: "spec_ok m" and caching: "km_enable_caching m \<or> bs = []"
    and tot: "tot = local_toks + ext" "0 \<le> tot"
    and kept: "kept = drop (nat (get_num_skipped_tokens m tot div km_block_size m)) bs"
    and pad: "pad = padded_hit m p bs tot" and touch: "touch kept p = Inr p1"
  obtains num_ext where "base_allocate_new_computed_blocks m p rid bs local_toks ext =
      (if 0 < num_ext then bindE (extend_with_new rid (cdiv tot (km_block_size m) - int (length pad)) (adopted m rid pad) p1)
         (\<lambda>(_, m2, p2). Inr (m2, p2)) else Inr (adopted m rid pad, p1))"
    and "num_ext \<le> ext" and "get_num_skipped_tokens m tot div km_block_size m \<le> 0 \<Longrightarrow> num_ext = ext"
proof -
  define k where "k = get_num_skipped_tokens m tot div km_block_size m"
  define num_ext where "num_ext = (if 0 < k then min (tot - get_num_skipped_tokens m tot) ext else ext)"
  have k: "0 \<le> k" using skipped_blocks_range(1) [OF spec tot(2)] by (simp add: k_def)
  have new: "(if 0 < k then drop (nat k) bs else bs) = kept" using k by (auto simp: kept k_def)
  have pad': "replicate (nat k) (null_block p) @ kept = pad" by (simp add: pad padded_hit_def kept k_def Let_def)
  have stage: "(if km_enable_caching m then touch kept p else assertE (kept = []) (Inr p)) = Inr p1"
    using caching touch by (auto simp: kept touch_def)
  show thesis
  proof (rule that [of num_ext])
    show "base_allocate_new_computed_blocks m p rid bs local_toks ext =
        (if 0 < num_ext then bindE (extend_with_new rid (cdiv tot (km_block_size m) - int (length pad)) (adopted m rid pad) p1)
           (\<lambda>(_, m2, p2). Inr (m2, p2)) else Inr (adopted m rid pad, p1))"
      using fresh unfolding base_allocate_new_computed_blocks_def Let_def tot(1) [symmetric] k_def [symmetric]
        num_ext_def [symmetric] new stage pad' adopted_def
      by (simp add: fresh_def)
  qed (simp_all add: num_ext_def k_def)
qed

lemma pad_within:
  assumes spec: "spec_ok m" and local: "local_toks = int (length bs) * km_block_size m" and ext: "0 \<le> ext"
    and tot: "tot = local_toks + ext"
  shows "int (length (padded_hit m p bs tot)) \<le> cdiv tot (km_block_size m)"
proof -
  have b0: "0 < km_block_size m" using spec by (simp add: spec_ok_def)
  have tot0: "0 \<le> tot" using b0 local ext tot by simp
  have "int (length bs) \<le> tot div km_block_size m"
    using zdiv_mono1 [of local_toks tot "km_block_size m"] local tot ext b0 by simp
  then show ?thesis
    using skipped_blocks_range(2) [OF spec tot0] div_le_cdiv [OF b0, of tot] length_padded_hit [OF spec tot0, of p bs] by simp
qed

lemma base_allocate_new_computed_ok:
  assumes rep: "pool_rep p xs" and ok: "mgr_ok m p held" and fresh: "fresh m rid" and spec: "spec_ok m"
    and hit: "usable_hit p bs" and caching: "km_enable_caching m \<or> bs = []"
    and local: "local_toks = int (length bs) * km_block_size m" and ext: "0 \<le> ext"
    and tot: "tot = local_toks + ext"
    and kept: "kept = drop (nat (get_num_skipped_tokens m tot div km_block_size m)) bs"
    and pad: "pad = padded_hit m p bs tot"
    and fits: "cdiv tot (km_block_size m) - int (length pad) + get_num_evictable_blocks p kept \<le> int (length xs)"
  obtains m' p' ys where "base_allocate_new_computed_blocks m p rid bs local_toks ext = Inr (m', p')"
    and "op_ok rid held m p m' p'" and "pool_rep p' ys" and "num_cached_block m' rid = Some (int (length pad))"
    and "int (length ys) + int (length (blocks_of_req m' rid)) + get_num_evictable_blocks p kept = int (length xs) + int (length pad)"
    and "length pad \<le> length (blocks_of_req m' rid)" and "int (length (blocks_of_req m' rid)) \<le> cdiv tot (km_block_size m)"
    and "ext = 0 \<Longrightarrow> touch kept p = Inr p'"
proof -
  have tot0: "0 \<le> tot" using spec local ext tot by (simp add: spec_ok_def)
  have hit': "usable_hit p kept" unfolding kept by (rule usable_hit_drop [OF hit])
  obtain p1 where p1: "touch kept p = Inr p1"
    by (rule touch_pool [OF rep _ hit']) (use ok in \<open>simp add: mgr_ok_def\<close>)
  let ?m1 = "adopted m rid pad" and ?xs1 = "filter (\<lambda>b. b \<notin> set kept) xs"
  have pad': "pad = replicate (nat (get_num_skipped_tokens m tot div km_block_size m)) (null_block p) @ kept"
    by (simp add: pad padded_hit_def kept Let_def)
  have ok1: "op_ok rid held m p ?m1 p1" and rep1: "pool_rep p1 ?xs1"
    using adopt_hit_ok [OF rep ok fresh hit' p1 pad' adopted_def] by simp_all
  note xs1 = touch_length [OF rep hit']
  have len: "int (length pad) \<le> cdiv tot (km_block_size m)" unfolding pad by (rule pad_within [OF spec local ext tot])
  obtain num_ext where run: "base_allocate_new_computed_blocks m p rid bs local_toks ext =
      (if 0 < num_ext then bindE (extend_with_new rid (cdiv tot (km_block_size m) - int (length pad)) ?m1 p1)
         (\<lambda>(_, m2, p2). Inr (m2, p2)) else Inr (?m1, p1))" "num_ext \<le> ext"
    by (rule computed_run [OF fresh spec caching tot tot0 kept pad p1])
  show thesis
  proof (cases "0 < num_ext")
    case False
    with run(1) ok1 rep1 xs1 len p1 show thesis by (intro that [of ?m1 p1 ?xs1]) (simp_all add: adopted_def)
  next
    case True
    define n where "n = cdiv tot (km_block_size m) - int (length pad)"
    have n: "0 \<le> n" "n \<le> int (length ?xs1)" using len fits xs1 by (simp_all add: n_def)
    have "mgr_ok ?m1 p1 held" using ok1 by (simp add: op_ok_def)
    then obtain m2 p2 where m2: "extend_with_new rid n ?m1 p1 = Inr (take (nat n) ?xs1, m2, p2)" "op_ok rid held ?m1 p1 m2 p2"
        "pool_rep p2 (drop (nat n) ?xs1)" "blocks_of_req m2 rid = blocks_of_req ?m1 rid @ take (nat n) ?xs1"
        "num_cached_block m2 = num_cached_block ?m1"
      by (rule extend_with_new_ok [OF rep1 _ n])
    have "length (blocks_of_req m2 rid) = length pad + nat n" using m2(4) n by (simp add: adopted_def)
    with True run m2 op_ok_trans [OF ok ok1 m2(2)] xs1 n show thesis
      by (intro that [of m2 p2 "drop (nat n) ?xs1"]) (simp_all add: adopted_def n_def)
  qed
qed

end
