(* ===== verification/Manager_Caching.thy ===== *)
theory Manager_Caching
  imports Manager_Accounting
begin

text \<open>
  Caching the full blocks of a request in one manager keeps the accounting of
  \<open>Manager_Accounting\<close>: the hashes go to blocks of the request that were not cached before, the
  reference counts stay.
\<close>

section \<open>The request\<close>

text \<open>Of the request, caching only changes the memo of the prompt embedding hashes.\<close>

definition memo_only :: "request \<Rightarrow> request \<Rightarrow> bool" where
  "memo_only r r' \<longleftrightarrow> (\<exists>h. r' = r\<lparr>prompt_embeds_per_block_hashes := h\<rparr>)"

lemma memo_only_refl [simp]: "memo_only r r"
  unfolding memo_only_def by (rule exI [of _ "prompt_embeds_per_block_hashes r"]) simp

lemma memo_only_trans: "memo_only r r' \<Longrightarrow> memo_only r' r'' \<Longrightarrow> memo_only r r''"
  by (auto simp: memo_only_def)

lemma memo_only_fields:
  "memo_only r r' \<Longrightarrow> request_id r' = request_id r \<and> block_hashes r' = block_hashes r"
  by (auto simp: memo_only_def)

lemma generate_memo: "generate_block_hash_extra_keys sha r s e idx = Inr (x, r') \<Longrightarrow> memo_only r r'"
  unfolding memo_only_def by (rule generate_memo_only)

lemma event_keys_step_memo:
  "event_keys_step sha p bs sz i st = Inr st' \<Longrightarrow> memo_only (snd (snd st)) (snd (snd st'))"
  by (auto simp: event_keys_step_def bindE_eq_Inr split: prod.splits if_splits dest!: generate_memo)

lemma store_event_memo:
  assumes "store_event sha r bs nc nf sz g view hs p = Inr (p', r')"
  shows "memo_only r r'"
proof -
  have loop: "memo_only r (snd (snd st))"
    if "fold_res (event_keys_step sha p bs sz) xs ([], 0, r) = Inr st" for xs st
    by (rule fold_res_preserves [OF that, where P = "\<lambda>st. memo_only r (snd (snd st))"])
      (auto dest: event_keys_step_memo intro: memo_only_trans)
  show ?thesis
  proof (cases "enable_kv_cache_events p")
    case True
    with assms show ?thesis unfolding store_event_def
      by (auto simp: bindE_eq_Inr split: prod.splits dest!: loop)
  qed (use assms in \<open>simp add: store_event_def\<close>)
qed

lemma cache_full_blocks_memo:
  assumes "cache_full_blocks sha r bs nc nf sz g p = Inr (p', r')"
  shows "memo_only r r'"
  using assms by (auto simp: cache_full_blocks_def Let_def bindE_eq_Inr assertE_eq_Inr store_event_memo split: if_splits)

section \<open>The blocks\<close>

lemma not_in_take_nth:
  assumes "distinct (filter P xs)" and "j < length xs" and "P (xs ! j)" and "n \<le> j"
  shows "xs ! j \<notin> set (take n xs)"
proof
  assume "xs ! j \<in> set (take n xs)"
  moreover have "xs ! j \<in> set (drop n xs)" using assms(2,4) by (auto simp: in_set_conv_nth intro!: exI [of _ "j - n"])
  moreover have "distinct (filter P (take n xs) @ filter P (drop n xs))"
    using assms(1) by (metis append_take_drop_id filter_append)
  ultimately show False using assms(3) by auto
qed

lemma in_slice_nth:
  assumes "b \<in> set (drop a (take n xs))"
  shows "\<exists>j < length xs. a \<le> j \<and> b = xs ! j"
proof -
  from assms obtain i where i: "i < length (drop a (take n xs))" "b = drop a (take n xs) ! i"
    by (auto simp: in_set_conv_nth)
  then have "a + i < length xs" "a + i < n" by auto
  with i(2) show ?thesis by (intro exI [of _ "a + i"]) (simp add: nth_drop)
qed

lemma base_cache_blocks_ok:
  assumes rep: "pool_rep p xs" and ok: "mgr_ok m p held" and caching: "enable_caching p"
    and sz: "km_block_size m = hash_block_size p"
    and fits: "num_toks div km_block_size m \<le> int (length (blocks_of_req m (request_id r)))"
      "num_toks div km_block_size m \<le> int (length (block_hashes r))"
    and g: "0 \<le> km_group_id m" "km_group_id m < 2 ^ 32"
  obtains m' p' r' where "base_cache_blocks sha m p r num_toks = Inr (m', p', r')"
    and "op_ok (request_id r) held m p m' p'" and "pool_rep p' xs" and "memo_only r r'"
    and "blocks_of_req m' = blocks_of_req m"
    and "cached_upto m' (request_id r) = max (cached_upto m (request_id r)) (num_toks div km_block_size m)"
proof (cases "num_toks div km_block_size m \<le> cached_upto m (request_id r)")
  case True
  with ok rep show thesis
    by (intro that [of m p r]) (simp_all add: base_cache_blocks_def cached_upto_def op_ok_def keeps_private_def)
next
  case False
  let ?rid = "request_id r" and ?bs = "blocks_of_req m (request_id r)"
  let ?nc = "cached_upto m ?rid" and ?nf = "num_toks div km_block_size m"
  have nc: "0 \<le> ?nc" using ok by (simp add: mgr_ok_def tail_ok_def)
  note B = mgr_ok_blocks [OF ok, where rid = ?rid]
  have slice: "py_slice ?bs ?nc ?nf = drop (nat ?nc) (take (nat ?nf) ?bs)" using nc False by (simp add: py_slice_nonneg)
  have at_slice: "\<exists>j < length ?bs. ?nc \<le> int j \<and> b = ?bs ! j" if "b \<in> set (py_slice ?bs ?nc ?nf)" for b
    using in_slice_nth [OF that [unfolded slice]] by auto
  have new: "\<forall>b \<in> set (py_slice ?bs ?nc ?nf). real_block p b \<longrightarrow> block_hash (pool_heap p b) = None"
    using at_slice ok by (fastforce simp: mgr_ok_def tail_ok_def sole_def)
  have dist: "distinct (filter (real_block p) (py_slice ?bs ?nc ?nf))"
    unfolding slice by (rule filter_drop_distinct) (metis B(2) append_take_drop_id distinct_append filter_append)
  obtain p' r' where run: "cache_full_blocks sha r ?bs ?nc ?nf (km_block_size m) (km_group_id m) p = Inr (p', r')"
      "pool_rep p' xs"
    using cache_full_blocks_spec [OF rep sz nc fits B(1) new dist g] by blast
  note heap = cache_full_blocks_heap [OF run(1)]
  define m' where "m' = (put_blocks ?rid ?bs m)\<lparr>num_cached_block := (num_cached_block m)(?rid \<mapsto> ?nf)\<rparr>"
  have m': "base_cache_blocks sha m p r num_toks = Inr (m', p', r')" "cached_upto m' ?rid = ?nf"
      "blocks_of_req m' = blocks_of_req m"
    using False run(1) by (auto simp: base_cache_blocks_def cached_upto_def m'_def fun_eq_iff)
  have priv: "keeps_private (set ?bs) p p'"
  proof -
    have "set (py_slice ?bs ?nc ?nf) \<subseteq> set ?bs" unfolding slice by (auto dest: in_set_dropD in_set_takeD)
    with heap(2) show ?thesis unfolding keeps_private_def sole_def by (metis subsetD)
  qed
  have ok': "mgr_ok m' p' held"
  proof (rule mgr_ok_change [OF ok cache_full_blocks_static [OF run(1)], where rid = ?rid and bs = ?bs])
    show "hash_free p'" using caching cache_full_blocks_static [OF run(1)] by (simp add: hash_free_def pool_static_def)
    show "occ m' b = occ m b - int (count_list ?bs b) + int (count_list ?bs b)" for b
      using occ_put_blocks [of m ?rid ?bs b] ok by (simp add: m'_def occ_def mgr_ok_def mgr_wf_def)
    show "sole p' (?bs ! j)" if j: "j < length ?bs" "cached_upto m' ?rid \<le> int j" "real_block p (?bs ! j)" for j
    proof -
      have "sole p (?bs ! j)" using ok j False m'(2) by (simp add: mgr_ok_def tail_ok_def)
      moreover have "?bs ! j \<notin> set (py_slice ?bs ?nc ?nf)"
        unfolding slice using not_in_take_nth [OF B(2) j(1,3)] j(2) m'(2) by (auto dest: in_set_dropD)
      ultimately show ?thesis using heap(2) by (simp add: sole_def)
    qed
  qed (use ok B heap(1) priv False nc m' in \<open>simp_all add: m'_def cached_upto_def mgr_ok_def mgr_wf_def\<close>)
  then have "op_ok ?rid held m p m' p'"
    using priv cache_full_blocks_static [OF run(1)] by (simp add: op_ok_def m'_def)
  with m' run(2) cache_full_blocks_memo [OF run(1)] False show thesis by (intro that [of m' p' r']) simp_all
qed

end
