(* ===== verification/Kv_Coordinator.thy ===== *)
theory Kv_Coordinator
  imports Manager_Caching
begin

text \<open>
  The coordinator of \<^verbatim>\<open>vllm/v1/core/kv_cache_coordinator.py\<close>: it owns the block pool and one manager per
  KV-cache group and runs each operation on all of them, in order.

  One record holds the attributes of the three classes. \<open>for_managers\<close> is the loop over the managers;
  the state it threads is the pool, with the results or the request where an operation has them. The
  fixed-point loop of the hybrid lookup is a \<open>partial_function\<close>: \<open>None\<close> means that it does not return.

  Shown here: the hybrid lookup always returns. The other lemmas are in \<open>Hybrid_Lookup\<close> and
  \<open>Coordinator_Accounting\<close>.
\<close>

section \<open>Configuration and state\<close>

record kv_cache_group =
  kv_cache_spec_of :: kv_cache_spec
  is_eagle_group :: bool

record kv_cache_config =
  cfg_num_blocks :: int
  kv_cache_groups :: "kv_cache_group list"

datatype coordinator_class = NoPrefixCacheCoordinator | UnitaryCoordinator | HybridCoordinator

type_synonym attention_group = "kv_cache_spec \<times> int list \<times> manager_class"

record kv_coordinator =
  co_class :: coordinator_class
  co_config :: kv_cache_config
  co_block_pool :: block_pool
  eagle_group_ids :: "int set"
  single_type_managers :: "kv_manager list"
  co_block_size :: int
  co_dcp_world_size :: int
  co_pcp_world_size :: int
  attention_groups :: "attention_group list"
  lcm_block_size :: int
  eagle_attn_group_indices :: "int set"

section \<open>Construction\<close>

fun init_managers ::
    "int \<Rightarrow> int \<Rightarrow> bool \<Rightarrow> int \<Rightarrow> int \<Rightarrow> int \<Rightarrow> kv_cache_group list \<Rightarrow> block_pool \<Rightarrow> (kv_manager list \<times> block_pool) res" where
  "init_managers max_num_batched_tokens max_model_len caching dcp pcp i [] p = Inr ([], p)"
| "init_managers max_num_batched_tokens max_model_len caching dcp pcp i (g # gs) p =
     bindE (get_manager_for_kv_cache_spec (kv_cache_spec_of g) max_num_batched_tokens max_model_len caching i dcp pcp p)
       (\<lambda>(m, p1).
     bindE (init_managers max_num_batched_tokens max_model_len caching dcp pcp (i + 1) gs p1) (\<lambda>(ms, p2).
       Inr (m # ms, p2)))"

definition eagle_groups :: "kv_cache_config \<Rightarrow> bool \<Rightarrow> int set" where
  "eagle_groups cfg use_eagle =
     (let flagged = [int i. (i, g) \<leftarrow> enumerate 0 (kv_cache_groups cfg), is_eagle_group g]
      in if use_eagle \<and> flagged = [] then set (map int [0..<length (kv_cache_groups cfg)]) else set flagged)"

text \<open>The part of the constructor the classes share.\<close>

definition init_coordinator ::
    "coordinator_class \<Rightarrow> kv_cache_config \<Rightarrow> int \<Rightarrow> int \<Rightarrow> bool \<Rightarrow> bool \<Rightarrow> bool \<Rightarrow> int \<Rightarrow> int \<Rightarrow> int \<Rightarrow> bool \<Rightarrow> kv_coordinator res" where
  "init_coordinator cls cfg max_model_len max_num_batched_tokens use_eagle caching use_events dcp pcp hash_size use_int =
     bindE (init_block_pool (cfg_num_blocks cfg) caching hash_size use_events use_int) (\<lambda>p0.
     bindE (init_managers max_num_batched_tokens max_model_len caching dcp pcp 0 (kv_cache_groups cfg) p0) (\<lambda>(ms, p).
       Inr \<lparr>co_class = cls, co_config = cfg, co_block_pool = p, eagle_group_ids = eagle_groups cfg use_eagle,
            single_type_managers = ms, co_block_size = 0, co_dcp_world_size = dcp, co_pcp_world_size = pcp,
            attention_groups = [], lcm_block_size = 0, eagle_attn_group_indices = {}\<rparr>))"

definition init_unitary :: "bool \<Rightarrow> int \<Rightarrow> kv_coordinator \<Rightarrow> kv_coordinator res" where
  "init_unitary caching hash_size co =
     bindE (py_get (kv_cache_groups (co_config co)) 0) (\<lambda>g.
       let dcp = co_dcp_world_size co; pcp = co_pcp_world_size co;
           b0 = block_size (kv_cache_spec_of g);
           b1 = (if 1 < dcp then b0 * dcp else b0);
           b2 = (if 1 < pcp then b1 * pcp else b1)
       in assertE (\<not> caching \<or> hash_size = b2)
         (assertE (length (kv_cache_groups (co_config co)) = 1)
           (Inr (co\<lparr>co_block_size := b2\<rparr>))))"

fun add_group :: "int \<Rightarrow> kv_cache_spec \<Rightarrow> manager_class \<Rightarrow> attention_group list \<Rightarrow> attention_group list res" where
  "add_group i spec cls [] = Inr [(spec, [i], cls)]"
| "add_group i spec cls ((existing_spec, ids, existing_cls) # rest) =
     (if existing_spec = spec
      then assertE (cls = existing_cls) (Inr ((existing_spec, ids @ [i], existing_cls) # rest))
      else bindE (add_group i spec cls rest) (\<lambda>r. Inr ((existing_spec, ids, existing_cls) # r)))"

fun split_groups :: "int \<Rightarrow> kv_cache_group list \<Rightarrow> kv_manager list \<Rightarrow> attention_group list \<Rightarrow> attention_group list res" where
  "split_groups i [] ms acc = Inr acc"
| "split_groups i (g # gs) [] acc = Inl IndexError"
| "split_groups i (g # gs) (m # ms) acc =
     bindE (add_group i (kv_cache_spec_of g) (km_class m) acc) (split_groups (i + 1) gs ms)"

definition full_first :: "attention_group \<Rightarrow> nat" where
  "full_first g = of_bool (\<not> is_full_attention (spec_class (fst g)))"

definition verify_and_split_kv_cache_groups :: "kv_coordinator \<Rightarrow> kv_coordinator res" where
  "verify_and_split_kv_cache_groups co =
     bindE (split_groups 0 (kv_cache_groups (co_config co)) (single_type_managers co) []) (\<lambda>groups.
       assertE (1 < length groups)
         (let ags = sort_key full_first groups
          in Inr (co\<lparr>attention_groups := ags,
                     lcm_block_size := fold lcm (map (block_size \<circ> fst) groups) 1,
                     eagle_attn_group_indices := set [int i. (i, (_, ids, _)) \<leftarrow> enumerate 0 ags, \<exists>g \<in> set ids. g \<in> eagle_group_ids co]\<rparr>)))"

definition init_hybrid :: "int \<Rightarrow> kv_coordinator \<Rightarrow> kv_coordinator res" where
  "init_hybrid hash_size co =
     (if kv_cache_groups (co_config co) \<noteq> [] \<and> hash_size = 0 then Inl ZeroDivisionError
      else assertE (\<forall>g \<in> set (kv_cache_groups (co_config co)). block_size (kv_cache_spec_of g) mod hash_size = 0)
        (assertE (co_dcp_world_size co = 1) (assertE (co_pcp_world_size co = 1)
          (verify_and_split_kv_cache_groups co))))"

definition get_kv_cache_coordinator ::
    "kv_cache_config \<Rightarrow> int \<Rightarrow> int \<Rightarrow> bool \<Rightarrow> bool \<Rightarrow> bool \<Rightarrow> int \<Rightarrow> int \<Rightarrow> int \<Rightarrow> bool \<Rightarrow> kv_coordinator res" where
  "get_kv_cache_coordinator cfg max_model_len max_num_batched_tokens use_eagle caching use_events dcp pcp hash_size use_int =
     (if \<not> caching
      then init_coordinator NoPrefixCacheCoordinator cfg max_model_len max_num_batched_tokens use_eagle False use_events dcp pcp hash_size use_int
      else if length (kv_cache_groups cfg) = 1
      then bindE (init_coordinator UnitaryCoordinator cfg max_model_len max_num_batched_tokens use_eagle caching use_events dcp pcp hash_size use_int)
             (init_unitary caching hash_size)
      else bindE (init_coordinator HybridCoordinator cfg max_model_len max_num_batched_tokens use_eagle caching use_events dcp pcp hash_size use_int)
             (init_hybrid hash_size))"

section \<open>Operations on all managers\<close>

fun for_managers ::
    "(int \<Rightarrow> kv_manager \<Rightarrow> 's \<Rightarrow> (kv_manager \<times> 's) res) \<Rightarrow> int \<Rightarrow> kv_manager list \<Rightarrow> 's \<Rightarrow> (kv_manager list \<times> 's) res" where
  "for_managers f i [] s = Inr ([], s)"
| "for_managers f i (m # ms) s =
     bindE (f i m s) (\<lambda>(m', s'). bindE (for_managers f (i + 1) ms s') (\<lambda>(ms', s''). Inr (m' # ms', s'')))"

definition update_managers ::
    "(int \<Rightarrow> kv_manager \<Rightarrow> block_pool \<Rightarrow> (kv_manager \<times> block_pool) res) \<Rightarrow> kv_coordinator \<Rightarrow> kv_coordinator res" where
  "update_managers f co =
     bindE (for_managers f 0 (single_type_managers co) (co_block_pool co)) (\<lambda>(ms, p).
       Inr (co\<lparr>single_type_managers := ms, co_block_pool := p\<rparr>))"

definition co_get_num_blocks_to_allocate ::
    "kv_coordinator \<Rightarrow> string \<Rightarrow> int \<Rightarrow> ref list list \<Rightarrow> int \<Rightarrow> int \<Rightarrow> int \<Rightarrow> bool \<Rightarrow> int res" where
  "co_get_num_blocks_to_allocate co rid num_toks new_computed_blocks num_encoder_tokens total_computed_tokens
       num_tokens_main_model apply_admission_cap =
     fold_res (\<lambda>(i, m) n.
       bindE (if km_class m = CrossAttentionManager
              then get_num_blocks_to_allocate m (co_block_pool co) rid num_encoder_tokens [] 0 num_encoder_tokens apply_admission_cap
              else bindE (py_get new_computed_blocks (int i)) (\<lambda>bs.
                get_num_blocks_to_allocate m (co_block_pool co) rid num_toks bs total_computed_tokens
                  num_tokens_main_model apply_admission_cap))
         (\<lambda>k. Inr (n + k)))
       (enumerate 0 (single_type_managers co)) 0"

definition co_allocate_new_computed_blocks ::
    "kv_coordinator \<Rightarrow> string \<Rightarrow> ref list list \<Rightarrow> int \<Rightarrow> int \<Rightarrow> kv_coordinator res" where
  "co_allocate_new_computed_blocks co rid new_computed_blocks num_local_computed_tokens num_external_computed_tokens =
     update_managers (\<lambda>i m p. bindE (py_get new_computed_blocks i) (\<lambda>bs.
       allocate_new_computed_blocks m p rid bs num_local_computed_tokens num_external_computed_tokens)) co"

definition co_allocate_new_blocks ::
    "kv_coordinator \<Rightarrow> string \<Rightarrow> int \<Rightarrow> int \<Rightarrow> int \<Rightarrow> (ref list list \<times> kv_coordinator) res" where
  "co_allocate_new_blocks co rid num_toks num_tokens_main_model num_encoder_tokens =
     bindE (for_managers (\<lambda>_ m (new, p).
              bindE (allocate_new_blocks m p rid
                      (if km_class m = CrossAttentionManager then num_encoder_tokens else num_toks) num_tokens_main_model)
                (\<lambda>(bs, m', p'). Inr (m', (new @ [bs], p'))))
            0 (single_type_managers co) ([], co_block_pool co)) (\<lambda>(ms, (new, p)).
       Inr (new, co\<lparr>single_type_managers := ms, co_block_pool := p\<rparr>))"

definition co_cache_blocks ::
    "(byte_string \<Rightarrow> byte_string) \<Rightarrow> kv_coordinator \<Rightarrow> request \<Rightarrow> int \<Rightarrow> (kv_coordinator \<times> request) res" where
  "co_cache_blocks sha co r computed =
     bindE (for_managers (\<lambda>_ m (p, r).
              bindE (manager_cache_blocks sha m p r computed) (\<lambda>(m', p', r'). Inr (m', (p', r'))))
            0 (single_type_managers co) (co_block_pool co, r)) (\<lambda>(ms, (p, r')).
       Inr (co\<lparr>single_type_managers := ms, co_block_pool := p\<rparr>, r'))"

definition co_free :: "kv_coordinator \<Rightarrow> string \<Rightarrow> kv_coordinator res" where
  "co_free co rid = update_managers (\<lambda>_ m p. manager_free m p rid) co"

definition co_remove_skipped_blocks :: "kv_coordinator \<Rightarrow> string \<Rightarrow> int \<Rightarrow> kv_coordinator res" where
  "co_remove_skipped_blocks co rid total_computed_tokens =
     update_managers (\<lambda>_ m p. manager_remove_skipped_blocks m p rid total_computed_tokens) co"

definition co_get_num_common_prefix_blocks :: "kv_coordinator \<Rightarrow> string \<Rightarrow> int list" where
  "co_get_num_common_prefix_blocks co rid =
     (if co_class co = NoPrefixCacheCoordinator then replicate (length (single_type_managers co)) 0
      else map (\<lambda>m. get_num_common_prefix_blocks m (co_block_pool co) rid) (single_type_managers co))"

definition co_get_blocks :: "kv_coordinator \<Rightarrow> string \<Rightarrow> ref list list" where
  "co_get_blocks co rid = map (\<lambda>m. blocks_of_req m rid) (single_type_managers co)"

definition co_new_step_starts :: "kv_coordinator \<Rightarrow> kv_coordinator" where
  "co_new_step_starts co = co\<lparr>single_type_managers := map new_step_starts (single_type_managers co)\<rparr>"

section \<open>Lookup\<close>

definition unitary_find_longest_cache_hit ::
    "kv_coordinator \<Rightarrow> byte_string list \<Rightarrow> int \<Rightarrow> (ref list list \<times> int) res" where
  "unitary_find_longest_cache_hit co hashes max_cache_hit_length =
     bindE (py_get (single_type_managers co) 0) (\<lambda>m.
     bindE (py_get (kv_cache_groups (co_config co)) 0) (\<lambda>g.
     bindE (find_longest_cache_hit (km_class m) (co_block_pool co) (PlainHashes hashes) max_cache_hit_length [0]
             (kv_cache_spec_of g) (0 \<in> eagle_group_ids co) (co_block_size co) (co_dcp_world_size co) (co_pcp_world_size co))
       (\<lambda>hit_blocks.
     bindE (py_get hit_blocks 0) (\<lambda>first. Inr (hit_blocks, int (length first) * co_block_size co)))))"

definition block_hashes_for :: "kv_coordinator \<Rightarrow> byte_string list \<Rightarrow> kv_cache_spec \<Rightarrow> hash_view res" where
  "block_hashes_for co hashes spec =
     (if block_size spec = hash_block_size (co_block_pool co) then Inr (PlainHashes hashes)
      else bindE (init_block_hash_list hashes (hash_block_size (co_block_pool co)) (block_size spec))
             (\<lambda>l. Inr (ScaledHashes l)))"

text \<open>
  The state of the search: the current length, the blocks found for each group, and the attention groups
  whose Eagle drop is verified.
\<close>

type_synonym hybrid_state = "int \<times> (int \<rightharpoonup> ref list) \<times> int set"

text \<open>One iteration of the loop over the attention groups.\<close>

definition hybrid_step ::
    "kv_coordinator \<Rightarrow> byte_string list \<Rightarrow> int \<Rightarrow> nat \<times> attention_group \<Rightarrow> hybrid_state \<Rightarrow> hybrid_state res" where
  "hybrid_step co hashes max_cache_hit_length x st =
     (case (x, st) of ((idx, (spec, group_ids, cls)), (curr_hit_length, found, verified)) \<Rightarrow>
        bindE (py_get group_ids 0) (\<lambda>g0.
        if is_full_attention (spec_class spec) \<and> found g0 \<noteq> None
        then if block_size spec = 0 then Inl ZeroDivisionError
             else Inr (curr_hit_length div block_size spec * block_size spec, found, verified)
        else
          let use_eagle = (int idx \<in> eagle_attn_group_indices co \<and> int idx \<notin> verified);
              max_length = (if use_eagle then min (curr_hit_length + block_size spec) max_cache_hit_length else curr_hit_length)
          in bindE (block_hashes_for co hashes spec) (\<lambda>view.
             bindE (find_longest_cache_hit cls (co_block_pool co) view max_length group_ids spec use_eagle (lcm_block_size co) 1 1)
               (\<lambda>hit_blocks.
             bindE (py_get hit_blocks 0) (\<lambda>first.
               let new_hit_length = int (length first) * block_size spec
               in Inr (new_hit_length,
                    found ++ map_of (rev (zip group_ids hit_blocks)),
                    if use_eagle then insert (int idx) verified
                    else if new_hit_length < curr_hit_length then {} else verified))))))"

definition hybrid_pass ::
    "kv_coordinator \<Rightarrow> byte_string list \<Rightarrow> int \<Rightarrow> hybrid_state \<Rightarrow> hybrid_state res" where
  "hybrid_pass co hashes max_cache_hit_length st =
     fold_res (hybrid_step co hashes max_cache_hit_length) (enumerate 0 (attention_groups co)) st"

definition is_simple_hybrid :: "kv_coordinator \<Rightarrow> bool" where
  "is_simple_hybrid co \<longleftrightarrow>
     length (attention_groups co) = 2 \<and> is_full_attention (spec_class (fst (hd (attention_groups co))))"

partial_function (option) hybrid_loop ::
    "kv_coordinator \<Rightarrow> byte_string list \<Rightarrow> int \<Rightarrow> int \<Rightarrow> (int \<rightharpoonup> ref list) \<Rightarrow> int set \<Rightarrow> (int \<times> (int \<rightharpoonup> ref list)) res option" where
  "hybrid_loop co hashes max_cache_hit_length hit_length found verified =
     (case hybrid_pass co hashes max_cache_hit_length (hit_length, found, verified) of
        Inl e \<Rightarrow> Some (Inl e)
      | Inr (curr_hit_length, found', verified') \<Rightarrow>
          if hit_length \<le> curr_hit_length then Some (Inr (hit_length, found'))
          else if is_simple_hybrid co then Some (Inr (curr_hit_length, found'))
          else hybrid_loop co hashes max_cache_hit_length curr_hit_length found' verified')"

declare hybrid_loop.simps [code]

text \<open>The blocks of full attention are cut to the final length, which may be shorter than their hit.\<close>

definition truncate_full :: "kv_coordinator \<Rightarrow> int \<Rightarrow> (int \<rightharpoonup> ref list) \<Rightarrow> (int \<rightharpoonup> ref list) res" where
  "truncate_full co hit_length found =
     (case attention_groups co of
        [] \<Rightarrow> Inl IndexError
      | (spec, group_ids, _) # _ \<Rightarrow>
          if \<not> is_full_attention (spec_class spec) then Inr found
          else if block_size spec = 0 then Inl ZeroDivisionError
          else Inr (\<lambda>g. if g \<in> set group_ids
                        then map_option (\<lambda>blks. py_slice blks 0 (hit_length div block_size spec)) (found g) else found g))"

definition hybrid_find_longest_cache_hit ::
    "kv_coordinator \<Rightarrow> byte_string list \<Rightarrow> int \<Rightarrow> (ref list list \<times> int) res option" where
  "hybrid_find_longest_cache_hit co hashes max_cache_hit_length =
     map_option (\<lambda>r. bindE r (\<lambda>(hit_length, found).
         bindE (truncate_full co hit_length found) (\<lambda>found'.
           Inr (map (\<lambda>i. case found' (int i) of None \<Rightarrow> [] | Some blks \<Rightarrow> blks) [0..<length (kv_cache_groups (co_config co))],
                hit_length))))
       (hybrid_loop co hashes max_cache_hit_length max_cache_hit_length Map.empty {})"

definition co_find_longest_cache_hit ::
    "kv_coordinator \<Rightarrow> byte_string list \<Rightarrow> int \<Rightarrow> (ref list list \<times> int) res option" where
  "co_find_longest_cache_hit co hashes max_cache_hit_length =
     (case co_class co of
        NoPrefixCacheCoordinator \<Rightarrow> Some (Inr (replicate (length (single_type_managers co)) [], 0))
      | UnitaryCoordinator \<Rightarrow> Some (unitary_find_longest_cache_hit co hashes max_cache_hit_length)
      | HybridCoordinator \<Rightarrow> hybrid_find_longest_cache_hit co hashes max_cache_hit_length)"

section \<open>Termination of the hybrid lookup\<close>

definition block_sizes_positive :: "kv_coordinator \<Rightarrow> bool" where
  "block_sizes_positive co \<longleftrightarrow> (\<forall>(spec, _, _) \<in> set (attention_groups co). 0 < block_size spec)"

lemma hybrid_step_nonneg:
  assumes "hybrid_step co hashes mx x st = Inr st'" and "0 \<le> fst st" and "0 < block_size (fst (snd x))"
  shows "0 \<le> fst st'"
  using assms
  by (auto simp: hybrid_step_def bindE_eq_Inr Let_def pos_imp_zdiv_nonneg_iff split: prod.splits if_splits)

lemma hybrid_pass_nonneg:
  assumes run: "hybrid_pass co hashes mx st = Inr st'" and "0 \<le> fst st" and pos: "block_sizes_positive co"
  shows "0 \<le> fst st'"
proof (rule fold_res_preserves [OF run [unfolded hybrid_pass_def], where P = "\<lambda>st. 0 \<le> fst st"])
  fix x st1 st2
  assume x: "x \<in> set (enumerate 0 (attention_groups co))" and "0 \<le> fst st1" "hybrid_step co hashes mx x st1 = Inr st2"
  moreover have "snd x \<in> set (attention_groups co)"
    using imageI [OF x, of snd] by (simp only: set_map [symmetric] map_snd_enumerate)
  ultimately show "0 \<le> fst st2" using pos hybrid_step_nonneg by (fastforce simp: block_sizes_positive_def)
qed (use assms(2) in simp)

lemma hybrid_loop_returns:
  assumes pos: "block_sizes_positive co"
  shows "0 \<le> hit_length \<Longrightarrow> \<exists>r. hybrid_loop co hashes mx hit_length found verified = Some r \<and>
    (\<forall>n found'. r = Inr (n, found') \<longrightarrow> 0 \<le> n \<and> n \<le> hit_length)"
proof (induction "nat hit_length" arbitrary: hit_length found verified rule: less_induct)
  case less
  show ?case
  proof (cases "hybrid_pass co hashes mx (hit_length, found, verified)")
    case (Inl e)
    then show ?thesis by (subst hybrid_loop.simps) simp
  next
    case (Inr st)
    obtain c found' verified' where st: "st = (c, found', verified')" by (metis prod.collapse)
    have c: "0 \<le> c" using hybrid_pass_nonneg [OF Inr _ pos] less.prems by (simp add: st)
    show ?thesis
    proof (cases "hit_length \<le> c \<or> is_simple_hybrid co")
      case True
      with Inr st c less.prems show ?thesis by (subst hybrid_loop.simps) auto
    next
      case False
      with c have "nat c < nat hit_length" by simp
      from less.hyps [OF this c, of found' verified'] obtain r where
        "hybrid_loop co hashes mx c found' verified' = Some r"
        "\<forall>n found''. r = Inr (n, found'') \<longrightarrow> 0 \<le> n \<and> n \<le> c" by blast
      with Inr st False show ?thesis by (subst hybrid_loop.simps) force
    qed
  qed
qed

section \<open>Properties\<close>

text \<open>
  C15. The fixed-point search of the hybrid coordinator terminates. Whatever the pool, the hashes and the
  Eagle flags, if all block sizes are positive and the allowed length is not negative then the lookup
  returns or raises, and the length it returns lies between 0 and the allowed one.
\<close>

theorem hybrid_lookup_terminates:
  assumes "block_sizes_positive co" and "0 \<le> max_cache_hit_length"
  shows "\<exists>r. hybrid_find_longest_cache_hit co hashes max_cache_hit_length = Some r \<and>
    (\<forall>blocks n. r = Inr (blocks, n) \<longrightarrow> 0 \<le> n \<and> n \<le> max_cache_hit_length)"
proof -
  obtain r where r: "hybrid_loop co hashes max_cache_hit_length max_cache_hit_length Map.empty {} = Some r"
      "\<forall>n found. r = Inr (n, found) \<longrightarrow> 0 \<le> n \<and> n \<le> max_cache_hit_length"
    using hybrid_loop_returns [OF assms] by blast
  then show ?thesis
    by (auto simp: hybrid_find_longest_cache_hit_def bindE_eq_Inr)
qed

text \<open>A model with a full-attention and a sliding-window group.\<close>

definition example_config :: "spec_class list \<Rightarrow> int \<Rightarrow> kv_cache_config" where
  "example_config classes n = \<lparr>cfg_num_blocks = n,
     kv_cache_groups = map (\<lambda>c. \<lparr>kv_cache_spec_of = example_spec c, is_eagle_group = False\<rparr>) classes\<rparr>"

lemma example_hybrid:
  "case get_kv_cache_coordinator (example_config [SlidingWindowSpec 32, FullAttentionSpec] 8) 128 64 False True False 1 1 16 False of
     Inl _ \<Rightarrow> False
   | Inr co \<Rightarrow> attention_groups co = [(example_spec FullAttentionSpec, [1], FullAttentionManager),
       (example_spec (SlidingWindowSpec 32), [0], SlidingWindowManager)] \<and> lcm_block_size co = 16"
  by code_simp

theorem hybrid_lookup_terminates_witness:
  "\<exists>co r. get_kv_cache_coordinator (example_config [SlidingWindowSpec 32, FullAttentionSpec] 8) 128 64 False True False 1 1 16 False =
     Inr co \<and> hybrid_find_longest_cache_hit co [[7]] 20 = Some r"
proof -
  obtain co where co: "get_kv_cache_coordinator (example_config [SlidingWindowSpec 32, FullAttentionSpec] 8) 128 64 False True False 1 1 16 False = Inr co"
      "block_sizes_positive co"
    using example_hybrid by (auto simp: block_sizes_positive_def split: sum.splits)
  from hybrid_lookup_terminates [OF co(2), of 20 "[[7]]"] co(1) show ?thesis by auto
qed

end
