(* ===== verification/Kv_Cache_Manager.thy ===== *)
theory Kv_Cache_Manager
  imports Kv_Coordinator
begin

text \<open>
  \<^verbatim>\<open>KVCacheManager\<close> and \<^verbatim>\<open>KVCacheBlocks\<close> of \<^verbatim>\<open>vllm/v1/core/kv_cache_manager.py\<close>, the interface between the
  scheduler and the KV cache, with \<^verbatim>\<open>PrefixCacheStats\<close> of \<^verbatim>\<open>vllm/v1/metrics/stats.py\<close>.

  \<open>EmptyBlocks\<close> is the pre-built object the manager compares by identity; every other
  \<^verbatim>\<open>KVCacheBlocks\<close> is a \<open>GroupBlocks\<close> with its tuple. Operations take and return the manager;
  \<open>allocate_slots\<close> also returns the request, whose memo of embedding hashes caching may fill. The lookup
  of the hybrid coordinator may not return, so \<open>get_computed_blocks\<close> is an \<open>option\<close>.
\<close>

section \<open>Blocks\<close>

datatype kv_cache_blocks = EmptyBlocks nat | GroupBlocks "ref list list"

fun blocks_tuple :: "kv_cache_blocks \<Rightarrow> ref list list" where
  "blocks_tuple (EmptyBlocks n) = replicate n []"
| "blocks_tuple (GroupBlocks bs) = bs"

definition kv_cache_blocks_add :: "kv_cache_blocks \<Rightarrow> kv_cache_blocks \<Rightarrow> kv_cache_blocks" where
  "kv_cache_blocks_add a b = GroupBlocks (map (\<lambda>(x, y). x @ y) (zip (blocks_tuple a) (blocks_tuple b)))"

definition blocks_get_block_ids :: "block_pool \<Rightarrow> kv_cache_blocks \<Rightarrow> bool \<Rightarrow> int list list option" where
  "blocks_get_block_ids p bs allow_none =
     (if allow_none \<and> (\<forall>g \<in> set (blocks_tuple bs). g = []) then None
      else Some (map (map (\<lambda>b. block_id (pool_heap p b))) (blocks_tuple bs)))"

definition get_unhashed_block_ids :: "block_pool \<Rightarrow> kv_cache_blocks \<Rightarrow> int list res" where
  "get_unhashed_block_ids p bs =
     (case blocks_tuple bs of
        [g] \<Rightarrow> Inr [block_id (pool_heap p b). b \<leftarrow> g, block_hash (pool_heap p b) = None]
      | _ \<Rightarrow> Inl AssertionError)"

definition get_unhashed_block_ids_all_groups :: "block_pool \<Rightarrow> kv_cache_blocks \<Rightarrow> int list list" where
  "get_unhashed_block_ids_all_groups p bs =
     map (\<lambda>g. [block_id (pool_heap p b). b \<leftarrow> g, block_hash (pool_heap p b) = None \<and> \<not> is_null (pool_heap p b)]) (blocks_tuple bs)"

definition new_empty :: "kv_cache_blocks \<Rightarrow> kv_cache_blocks" where
  "new_empty bs = GroupBlocks (replicate (length (blocks_tuple bs)) [])"

section \<open>Statistics\<close>

record prefix_cache_stats =
  pcs_reset :: bool
  pcs_requests :: int
  pcs_queries :: int
  pcs_hits :: int
  pcs_preempted_requests :: int
  pcs_preempted_queries :: int
  pcs_preempted_hits :: int

definition new_prefix_cache_stats :: prefix_cache_stats where
  "new_prefix_cache_stats = \<lparr>pcs_reset = False, pcs_requests = 0, pcs_queries = 0, pcs_hits = 0,
     pcs_preempted_requests = 0, pcs_preempted_queries = 0, pcs_preempted_hits = 0\<rparr>"

definition record_stats :: "int \<Rightarrow> int \<Rightarrow> bool \<Rightarrow> prefix_cache_stats \<Rightarrow> prefix_cache_stats" where
  "record_stats num_toks num_hits preempted s =
     (if preempted
      then s\<lparr>pcs_preempted_requests := pcs_preempted_requests s + 1,
             pcs_preempted_queries := pcs_preempted_queries s + num_toks,
             pcs_preempted_hits := pcs_preempted_hits s + num_hits\<rparr>
      else s\<lparr>pcs_requests := pcs_requests s + 1, pcs_queries := pcs_queries s + num_toks, pcs_hits := pcs_hits s + num_hits\<rparr>)"

section \<open>The manager\<close>

record kv_cache_manager =
  kcm_max_model_len :: int
  kcm_enable_caching :: bool
  log_stats :: bool
  prefix_cache_stats :: "prefix_cache_stats option"
  coordinator :: kv_coordinator
  num_kv_cache_groups :: nat

definition init_kv_cache_manager ::
    "kv_cache_config \<Rightarrow> int \<Rightarrow> int \<Rightarrow> int option \<Rightarrow> bool \<Rightarrow> bool \<Rightarrow> bool \<Rightarrow> bool \<Rightarrow> int \<Rightarrow> int \<Rightarrow> bool \<Rightarrow> kv_cache_manager res" where
  "init_kv_cache_manager cfg model_len hash_size max_num_batched_tokens caching use_eagle stats use_events dcp pcp use_int =
     bindE (get_kv_cache_coordinator cfg model_len
             (case max_num_batched_tokens of None \<Rightarrow> model_len | Some n \<Rightarrow> n) use_eagle caching use_events dcp pcp hash_size use_int)
       (\<lambda>co. Inr \<lparr>kcm_max_model_len = model_len, kcm_enable_caching = caching, log_stats = stats,
         prefix_cache_stats = (if stats then Some new_prefix_cache_stats else None), coordinator = co,
         num_kv_cache_groups = length (kv_cache_groups cfg)\<rparr>)"

abbreviation kcm_pool :: "kv_cache_manager \<Rightarrow> block_pool" where
  "kcm_pool k \<equiv> co_block_pool (coordinator k)"

definition empty_kv_cache_blocks :: "kv_cache_manager \<Rightarrow> kv_cache_blocks" where
  "empty_kv_cache_blocks k = EmptyBlocks (num_kv_cache_groups k)"

definition create_kv_cache_blocks :: "kv_cache_manager \<Rightarrow> ref list list \<Rightarrow> kv_cache_blocks" where
  "create_kv_cache_blocks k blocks =
     (if \<exists>b \<in> set blocks. b \<noteq> [] then GroupBlocks blocks else empty_kv_cache_blocks k)"

definition usage :: "kv_cache_manager \<Rightarrow> real" where
  "usage k = get_usage (kcm_pool k)"

definition get_remaining_free_blocks :: "kv_cache_manager \<Rightarrow> int" where
  "get_remaining_free_blocks k = get_num_free_blocks (kcm_pool k)"

definition footprint_for :: "kv_cache_manager \<Rightarrow> request \<Rightarrow> int \<Rightarrow> int res" where
  "footprint_for k r target_num_tokens =
     co_get_num_blocks_to_allocate (coordinator k) (request_id r) target_num_tokens (blocks_tuple (empty_kv_cache_blocks k)) 0
       (min (num_computed_tokens r) (kcm_max_model_len k)) target_num_tokens True"

definition estimate_future_footprint :: "kv_cache_manager \<Rightarrow> request \<Rightarrow> int res" where
  "estimate_future_footprint k r =
     (let remaining_output_tokens = max 0 (max_tokens r - num_output_tokens r)
      in if remaining_output_tokens = 0 then Inr 0
         else footprint_for k r (min
           (if is_short_lived r
            then num_tokens r + max 1 \<lceil>real_of_int remaining_output_tokens * (1 - prob_short r)\<rceil>
            else num_prompt_tokens r + max_tokens r) (kcm_max_model_len k)))"

definition estimate_future_footprint_for_output_len :: "kv_cache_manager \<Rightarrow> request \<Rightarrow> int \<Rightarrow> int res" where
  "estimate_future_footprint_for_output_len k r target_output_tokens =
     footprint_for k r (min
       (num_prompt_tokens r + max (num_output_tokens r) (min (max_tokens r) target_output_tokens)) (kcm_max_model_len k))"

definition make_prefix_cache_stats :: "kv_cache_manager \<Rightarrow> prefix_cache_stats option \<times> kv_cache_manager" where
  "make_prefix_cache_stats k =
     (if \<not> log_stats k then (None, k)
      else (prefix_cache_stats k, k\<lparr>prefix_cache_stats := Some new_prefix_cache_stats\<rparr>))"

definition record_lookup :: "request \<Rightarrow> int \<Rightarrow> kv_cache_manager \<Rightarrow> kv_cache_manager res" where
  "record_lookup r num_hits k =
     (if \<not> log_stats k then Inr k
      else case prefix_cache_stats k of
             None \<Rightarrow> Inl AssertionError
           | Some s \<Rightarrow> Inr (k\<lparr>prefix_cache_stats := Some (record_stats (num_tokens r) num_hits (0 < num_preemptions r) s)\<rparr>))"

definition get_computed_blocks :: "kv_cache_manager \<Rightarrow> request \<Rightarrow> (kv_cache_blocks \<times> int \<times> kv_cache_manager) res option" where
  "get_computed_blocks k r =
     (if \<not> kcm_enable_caching k \<or> skip_reading_prefix_cache r then Some (Inr (empty_kv_cache_blocks k, 0, k))
      else map_option (\<lambda>res. bindE res (\<lambda>(computed_blocks, num_new_computed_tokens).
             bindE (record_lookup r num_new_computed_tokens k) (\<lambda>k'.
               Inr (create_kv_cache_blocks k computed_blocks, num_new_computed_tokens, k'))))
           (co_find_longest_cache_hit (coordinator k) (block_hashes r) (num_tokens r - 1)))"

section \<open>Allocating slots\<close>

text \<open>The admission gate: does the whole sequence fit?\<close>

definition full_sequence_fits :: "kv_cache_manager \<Rightarrow> request \<Rightarrow> ref list list \<Rightarrow> int \<Rightarrow> int \<Rightarrow> bool res" where
  "full_sequence_fits k r new_computed num_encoder_tokens total_computed_tokens =
     (let full_num_tokens = min (num_tokens r) (kcm_max_model_len k)
      in bindE (co_get_num_blocks_to_allocate (coordinator k) (request_id r) full_num_tokens new_computed
                 num_encoder_tokens total_computed_tokens full_num_tokens True)
           (\<lambda>n. Inr (n \<le> get_num_free_blocks (kcm_pool k))))"

text \<open>
  The rest of the function: remove the skipped blocks, check the capacity, then take the computed blocks
  and allocate. When the capacity is too small the skipped blocks are gone all the same.
\<close>

definition reserve_slots ::
    "kv_coordinator \<Rightarrow> string \<Rightarrow> int \<Rightarrow> int \<Rightarrow> ref list list \<Rightarrow> bool \<Rightarrow> int \<Rightarrow> int \<Rightarrow> int \<Rightarrow> int \<Rightarrow>
     (ref list list option \<times> kv_coordinator) res" where
  "reserve_slots co rid num_tokens_need_slot num_tokens_main_model new_computed has_computed
       num_local_computed_tokens num_external_computed_tokens num_encoder_tokens total_computed_tokens =
     bindE (co_remove_skipped_blocks co rid total_computed_tokens) (\<lambda>co1.
     bindE (co_get_num_blocks_to_allocate co1 rid num_tokens_need_slot new_computed num_encoder_tokens
             (num_local_computed_tokens + num_external_computed_tokens) num_tokens_main_model False) (\<lambda>n.
       if get_num_free_blocks (co_block_pool co1) < n then Inr (None, co1)
       else bindE (if has_computed \<or> 0 < num_external_computed_tokens
                   then co_allocate_new_computed_blocks co1 rid new_computed num_local_computed_tokens num_external_computed_tokens
                   else Inr co1) (\<lambda>co2.
            bindE (co_allocate_new_blocks co2 rid num_tokens_need_slot num_tokens_main_model num_encoder_tokens)
              (\<lambda>(new_blocks, co3). Inr (Some new_blocks, co3)))))"

definition allocate_slots ::
    "(byte_string \<Rightarrow> byte_string) \<Rightarrow> kv_cache_manager \<Rightarrow> request \<Rightarrow> int \<Rightarrow> int \<Rightarrow> kv_cache_blocks option \<Rightarrow> int \<Rightarrow> int \<Rightarrow>
     bool \<Rightarrow> int \<Rightarrow> bool \<Rightarrow> (kv_cache_blocks option \<times> kv_cache_manager \<times> request) res" where
  "allocate_slots sha k r num_new_tokens num_new_computed_tokens new_computed_blocks num_lookahead_tokens
       num_external_computed_tokens delay_cache_blocks num_encoder_tokens full_sequence_must_fit =
     (if num_new_tokens = 0 \<and> num_external_computed_tokens = 0 then Inl ValueError
      else
        let given = (case new_computed_blocks of None \<Rightarrow> empty_kv_cache_blocks k | Some bs \<Rightarrow> bs);
            new_computed = blocks_tuple given;
            num_local_computed_tokens = num_computed_tokens r + num_new_computed_tokens;
            total_computed_tokens = min (num_local_computed_tokens + num_external_computed_tokens) (kcm_max_model_len k)
        in bindE (if full_sequence_must_fit
                  then full_sequence_fits k r new_computed num_encoder_tokens total_computed_tokens else Inr True) (\<lambda>fits.
           if \<not> fits then Inr (None, k, r)
           else let num_tokens_main_model = total_computed_tokens + num_new_tokens;
                    num_tokens_need_slot = min (num_tokens_main_model + num_lookahead_tokens) (kcm_max_model_len k)
             in bindE (reserve_slots (coordinator k) (request_id r) num_tokens_need_slot num_tokens_main_model new_computed
                        (given \<noteq> empty_kv_cache_blocks k) num_local_computed_tokens num_external_computed_tokens
                        num_encoder_tokens total_computed_tokens) (\<lambda>(new_blocks, co).
                case new_blocks of
                  None \<Rightarrow> Inr (None, k\<lparr>coordinator := co\<rparr>, r)
                | Some blocks \<Rightarrow>
                    if \<not> kcm_enable_caching k \<or> delay_cache_blocks
                    then Inr (Some (create_kv_cache_blocks k blocks), k\<lparr>coordinator := co\<rparr>, r)
                    else bindE (co_cache_blocks sha co r (min (total_computed_tokens + num_new_tokens) (num_tokens r)))
                      (\<lambda>(co', r'). Inr (Some (create_kv_cache_blocks k blocks), k\<lparr>coordinator := co'\<rparr>, r')))))"

section \<open>The other operations\<close>

definition kcm_free :: "kv_cache_manager \<Rightarrow> request \<Rightarrow> kv_cache_manager res" where
  "kcm_free k r = bindE (co_free (coordinator k) (request_id r)) (\<lambda>co. Inr (k\<lparr>coordinator := co\<rparr>))"

definition kcm_remove_skipped_blocks :: "kv_cache_manager \<Rightarrow> string \<Rightarrow> int \<Rightarrow> kv_cache_manager res" where
  "kcm_remove_skipped_blocks k rid total_computed_tokens =
     bindE (co_remove_skipped_blocks (coordinator k) rid total_computed_tokens) (\<lambda>co. Inr (k\<lparr>coordinator := co\<rparr>))"

definition kcm_evict_blocks :: "kv_cache_manager \<Rightarrow> int list \<Rightarrow> kv_cache_manager res" where
  "kcm_evict_blocks k block_ids =
     bindE (evict_blocks block_ids (kcm_pool k)) (\<lambda>p. Inr (k\<lparr>coordinator := (coordinator k)\<lparr>co_block_pool := p\<rparr>\<rparr>))"

definition kcm_reset_prefix_cache :: "kv_cache_manager \<Rightarrow> (bool \<times> kv_cache_manager) res" where
  "kcm_reset_prefix_cache k =
     (case reset_prefix_cache (kcm_pool k) of
        (False, p) \<Rightarrow> Inr (False, k\<lparr>coordinator := (coordinator k)\<lparr>co_block_pool := p\<rparr>\<rparr>)
      | (True, p) \<Rightarrow>
          let k' = k\<lparr>coordinator := (coordinator k)\<lparr>co_block_pool := p\<rparr>\<rparr>
          in if \<not> log_stats k then Inr (True, k')
             else case prefix_cache_stats k of
                    None \<Rightarrow> Inl AssertionError
                  | Some s \<Rightarrow> Inr (True, k'\<lparr>prefix_cache_stats := Some (s\<lparr>pcs_reset := True\<rparr>)\<rparr>))"

definition kcm_get_num_common_prefix_blocks :: "kv_cache_manager \<Rightarrow> string \<Rightarrow> int list" where
  "kcm_get_num_common_prefix_blocks k rid = co_get_num_common_prefix_blocks (coordinator k) rid"

definition kcm_take_events :: "kv_cache_manager \<Rightarrow> kv_cache_event list \<times> kv_cache_manager" where
  "kcm_take_events k =
     (let (evs, p) = take_kv_events (kcm_pool k) in (evs, k\<lparr>coordinator := (coordinator k)\<lparr>co_block_pool := p\<rparr>\<rparr>))"

definition kcm_get_blocks :: "kv_cache_manager \<Rightarrow> string \<Rightarrow> kv_cache_blocks" where
  "kcm_get_blocks k rid = create_kv_cache_blocks k (co_get_blocks (coordinator k) rid)"

definition kcm_get_block_ids :: "kv_cache_manager \<Rightarrow> string \<Rightarrow> int list list option" where
  "kcm_get_block_ids k rid = blocks_get_block_ids (kcm_pool k) (kcm_get_blocks k rid) False"

definition kcm_cache_blocks ::
    "(byte_string \<Rightarrow> byte_string) \<Rightarrow> kv_cache_manager \<Rightarrow> request \<Rightarrow> int \<Rightarrow> (kv_cache_manager \<times> request) res" where
  "kcm_cache_blocks sha k r computed =
     (if kcm_enable_caching k
      then bindE (co_cache_blocks sha (coordinator k) r computed) (\<lambda>(co, r'). Inr (k\<lparr>coordinator := co\<rparr>, r'))
      else Inr (k, r))"

definition kcm_take_new_block_ids :: "kv_cache_manager \<Rightarrow> int list \<times> kv_cache_manager" where
  "kcm_take_new_block_ids k =
     (let taken = map take_new_block_ids (single_type_managers (coordinator k))
      in (concat (map fst taken), k\<lparr>coordinator := (coordinator k)\<lparr>single_type_managers := map snd taken\<rparr>\<rparr>))"

definition kcm_new_step_starts :: "kv_cache_manager \<Rightarrow> kv_cache_manager" where
  "kcm_new_step_starts k = k\<lparr>coordinator := co_new_step_starts (coordinator k)\<rparr>"

end
