(* ===== verification/Coordinator_Accounting.thy ===== *)
theory Coordinator_Accounting
  imports Kv_Cache_Manager
begin

text \<open>
  The accounting of blocks over all managers.

  \<^item> \<open>coord_ok\<close>: the reference count of every block is the number of its entries in the tables of all
    managers.
  \<^item> \<open>manager_op\<close> is the contract of an operation that the coordinator runs on every manager; inside it,
    the loop over the managers is shown to succeed and to keep \<open>coord_ok\<close>. It is interpreted for freeing,
    removing skipped blocks, taking computed blocks, allocating and caching.
\<close>

section \<open>The tables of all managers\<close>

definition occs :: "kv_manager list \<Rightarrow> ref \<Rightarrow> int" where
  "occs ms b = (\<Sum>m \<leftarrow> ms. occ m b)"

lemma occs_simps [simp]:
  "occs [] b = 0" "occs (m # ms) b = occ m b + occs ms b" "occs (ms @ ms') b = occs ms b + occs ms' b"
  by (simp_all add: occs_def)

lemma occ_nonneg: "0 \<le> occ m b"
  unfolding occ_def by (intro sum_list_nonneg) auto

lemma occs_nonneg: "0 \<le> occs ms b"
  by (induction ms) (simp_all add: occ_nonneg)

lemma occ_le_occs: "m \<in> set ms \<Longrightarrow> occ m b \<le> occs ms b"
proof (induction ms)
  case (Cons n ms)
  then show ?case using occs_nonneg [of ms b] occ_nonneg [of n b] by auto
qed simp

definition coord_ok :: "kv_manager list \<Rightarrow> block_pool \<Rightarrow> bool" where
  "coord_ok ms p \<longleftrightarrow>
     hash_free p \<and> (\<forall>m \<in> set ms. mgr_wf m p \<and> tail_ok m p) \<and>
     (\<forall>b. real_block p b \<longrightarrow> ref_cnt (pool_heap p b) = occs ms b)"

lemma coord_mgr_ok:
  "coord_ok (ms1 @ m # ms2) p \<Longrightarrow> mgr_ok m p (\<lambda>b. occs ms1 b + occs ms2 b)"
  by (simp add: coord_ok_def mgr_ok_def occs_nonneg)

lemma coord_op:
  assumes ok: "coord_ok (ms1 @ m # ms2) p" and op: "op_ok rid (\<lambda>b. occs ms1 b + occs ms2 b) m p m' p'"
  shows "coord_ok (ms1 @ m' # ms2) p'"
proof -
  have static: "pool_static p p'" and mok: "mgr_ok m' p' (\<lambda>b. occs ms1 b + occs ms2 b)"
    and priv: "keeps_private (set (blocks_of_req m rid)) p p'" using op by (simp_all add: op_ok_def)
  note real = real_block_static [OF static]
  have cnt: "ref_cnt (pool_heap p b) = occs ms1 b + occ m b + occs ms2 b" if "real_block p b" for b
    using ok that by (simp add: coord_ok_def)
  have other: "mgr_wf n p' \<and> tail_ok n p'" if n: "n \<in> set ms1 \<union> set ms2" for n
  proof -
    have wf: "mgr_wf n p" and tl: "tail_ok n p" using ok n by (auto simp: coord_ok_def)
    have ge: "occ n b \<le> occs ms1 b + occs ms2 b" for b
      using n occ_le_occs [of n "ms1 @ ms2" b] by simp
    have "sole p' (blocks_of_req n r ! j)"
      if j: "j < length (blocks_of_req n r)" "cached_upto n r \<le> int j" "real_block p (blocks_of_req n r ! j)" for r j
    proof -
      let ?b = "blocks_of_req n r ! j"
      have s: "sole p ?b" using tl j by (simp add: tail_ok_def)
      have "0 < count_list (blocks_of_req n r) ?b" using j(1) by (metis count_list_0_iff neq0_conv nth_mem)
      then have "1 \<le> occ n ?b" using occ_ge_count [of n r ?b] wf by (simp add: mgr_wf_def)
      then have "occ m ?b = 0" using s cnt [OF j(3)] ge [of ?b] occ_nonneg [of m ?b] by (simp add: sole_def)
      moreover have "mgr_wf m p" using ok by (simp add: coord_ok_def)
      ultimately have "count_list (blocks_of_req m rid) ?b = 0" using occ_ge_count [of m rid ?b] by (simp add: mgr_wf_def)
      then show ?thesis using priv s j(3) by (simp add: keeps_private_def count_list_0_iff)
    qed
    then show ?thesis using wf tl unfolding mgr_wf_def tail_ok_def real pool_block_static [OF static] by auto
  qed
  have "ref_cnt (pool_heap p' b) = occs (ms1 @ m' # ms2) b" if "real_block p' b" for b
    using mok that by (simp add: mgr_ok_def)
  with other mok show ?thesis by (auto simp: coord_ok_def mgr_ok_def)
qed

section \<open>The contract of an operation on every manager\<close>

text \<open>The managers carry consecutive numbers.\<close>

fun sum_from :: "(int \<Rightarrow> 'm \<Rightarrow> int) \<Rightarrow> int \<Rightarrow> 'm list \<Rightarrow> int" where
  "sum_from c i [] = 0"
| "sum_from c i (m # ms) = c i m + sum_from c (i + 1) ms"

fun all_from :: "(int \<Rightarrow> 'm \<Rightarrow> bool) \<Rightarrow> int \<Rightarrow> 'm list \<Rightarrow> bool" where
  "all_from P i [] = True"
| "all_from P i (m # ms) \<longleftrightarrow> P i m \<and> all_from P (i + 1) ms"

fun all2_from :: "(int \<Rightarrow> 'm \<Rightarrow> 'm \<Rightarrow> bool) \<Rightarrow> int \<Rightarrow> 'm list \<Rightarrow> 'm list \<Rightarrow> bool" where
  "all2_from Q i [] [] = True"
| "all2_from Q i (m # ms) (m' # ms') \<longleftrightarrow> Q i m m' \<and> all2_from Q (i + 1) ms ms'"
| "all2_from Q i _ _ = False"

text \<open>What every operation on request \<open>rid\<close> leaves unchanged in a manager.\<close>

definition mgr_frame :: "string \<Rightarrow> kv_manager \<Rightarrow> kv_manager \<Rightarrow> bool" where
  "mgr_frame rid m m' \<longleftrightarrow> mgr_static m m' \<and>
     (\<forall>r. r \<noteq> rid \<longrightarrow> blocks_of_req m' r = blocks_of_req m r \<and> num_cached_block m' r = num_cached_block m r)"

text \<open>
  \<open>f\<close> runs on manager number \<open>i\<close> and a state that contains the pool. In a state that satisfies \<open>pre\<close>, with
  \<open>cost\<close> free blocks, it succeeds, keeps the accounting, takes at most that many blocks and relates the
  managers by \<open>post\<close>. What it does for one manager leaves the preconditions of the next intact.
\<close>

locale manager_op =
  fixes f :: "int \<Rightarrow> kv_manager \<Rightarrow> 's \<Rightarrow> (kv_manager \<times> 's) res"
    and pool_of :: "'s \<Rightarrow> block_pool"
    and rid :: string
    and pre :: "int \<Rightarrow> kv_manager \<Rightarrow> 's \<Rightarrow> bool"
    and cost :: "int \<Rightarrow> kv_manager \<Rightarrow> 's \<Rightarrow> int"
    and post :: "int \<Rightarrow> kv_manager \<Rightarrow> kv_manager \<Rightarrow> bool"
    and later :: "'s \<Rightarrow> 's \<Rightarrow> bool"
  assumes op_law: "pool_rep (pool_of s) xs \<Longrightarrow> mgr_ok m (pool_of s) held \<Longrightarrow> pre i m s \<Longrightarrow> cost i m s \<le> int (length xs) \<Longrightarrow>
      \<exists>m' s' ys. f i m s = Inr (m', s') \<and> op_ok rid held m (pool_of s) m' (pool_of s') \<and> pool_rep (pool_of s') ys \<and>
        int (length xs) \<le> int (length ys) + cost i m s \<and> post i m m' \<and> later s s'"
    and later_refl: "later s s"
    and later_trans: "later s s' \<Longrightarrow> later s' s'' \<Longrightarrow> later s s''"
    and pre_later: "later s s' \<Longrightarrow> pool_static (pool_of s) (pool_of s') \<Longrightarrow> pre i m s \<Longrightarrow> pre i m s'"
    and cost_later: "later s s' \<Longrightarrow> pre i m s \<Longrightarrow> cost i m s' \<le> cost i m s"
    and cost_nonneg: "0 \<le> cost i m s"
begin

lemma costs_nonneg: "0 \<le> sum_from (\<lambda>i m. cost i m s) i ms"
  by (induction ms arbitrary: i) (simp_all add: cost_nonneg)

lemma pres_later: "later s s' \<Longrightarrow> pool_static (pool_of s) (pool_of s') \<Longrightarrow> all_from (\<lambda>i m. pre i m s) i ms \<Longrightarrow> all_from (\<lambda>i m. pre i m s') i ms"
  by (induction ms arbitrary: i) (auto intro: pre_later)

lemma costs_later: "later s s' \<Longrightarrow> all_from (\<lambda>i m. pre i m s) i ms \<Longrightarrow>
    sum_from (\<lambda>i m. cost i m s') i ms \<le> sum_from (\<lambda>i m. cost i m s) i ms"
  by (induction ms arbitrary: i) (auto intro: add_mono cost_later)

lemma run_managers:
  assumes "coord_ok (before_ms @ ms) (pool_of s)" and "pool_rep (pool_of s) xs" and "all_from (\<lambda>i m. pre i m s) i ms"
    and "sum_from (\<lambda>i m. cost i m s) i ms \<le> int (length xs)"
  shows "\<exists>ms' s' ys. for_managers f i ms s = Inr (ms', s') \<and> coord_ok (before_ms @ ms') (pool_of s') \<and>
    pool_rep (pool_of s') ys \<and> int (length xs) \<le> int (length ys) + sum_from (\<lambda>i m. cost i m s) i ms \<and>
    all2_from (\<lambda>i m m'. post i m m' \<and> mgr_frame rid m m') i ms ms' \<and> later s s' \<and>
    pool_static (pool_of s) (pool_of s')"
  using assms
proof (induction ms arbitrary: before_ms s xs i)
  case Nil
  then show ?case by (auto simp: later_refl)
next
  case (Cons m ms)
  let ?held = "\<lambda>b. occs before_ms b + occs ms b" and ?rest = "\<lambda>s. sum_from (\<lambda>i m. cost i m s) (i + 1) ms"
  have pre: "pre i m s" "all_from (\<lambda>i m. pre i m s) (i + 1) ms" using Cons.prems(3) by simp_all
  have fits: "cost i m s \<le> int (length xs)" using Cons.prems(4) costs_nonneg [of s "i + 1" ms] by simp
  obtain m' s' ys where op: "f i m s = Inr (m', s')" "op_ok rid ?held m (pool_of s) m' (pool_of s')"
      "pool_rep (pool_of s') ys" "int (length xs) \<le> int (length ys) + cost i m s" "post i m m'" "later s s'"
    using op_law [OF Cons.prems(2) coord_mgr_ok [OF Cons.prems(1)] pre(1) fits] by blast
  have static: "pool_static (pool_of s) (pool_of s')" using op(2) by (simp add: op_ok_def)
  have ok': "coord_ok ((before_ms @ [m']) @ ms) (pool_of s')" using coord_op [OF Cons.prems(1) op(2)] by simp
  have pres': "all_from (\<lambda>i m. pre i m s') (i + 1) ms" by (rule pres_later [OF op(6) static pre(2)])
  have costs': "?rest s' \<le> ?rest s" by (rule costs_later [OF op(6) pre(2)])
  then have fits': "?rest s' \<le> int (length ys)" using op(4) Cons.prems(4) by simp
  obtain ms' s'' zs where rest: "for_managers f (i + 1) ms s' = Inr (ms', s'')"
      "coord_ok ((before_ms @ [m']) @ ms') (pool_of s'')" "pool_rep (pool_of s'') zs"
      "int (length ys) \<le> int (length zs) + ?rest s'"
      "all2_from (\<lambda>i m m'. post i m m' \<and> mgr_frame rid m m') (i + 1) ms ms'" "later s' s''"
      "pool_static (pool_of s') (pool_of s'')"
    using Cons.IH [OF ok' op(3) pres' fits'] by blast
  have "mgr_frame rid m m'" using op(2) by (simp add: op_ok_def mgr_frame_def)
  with op rest costs' pool_static_trans [OF static rest(7)] later_trans [OF op(6) rest(6)] show ?case
    by (intro exI [of _ "m' # ms'"] exI [of _ s''] exI [of _ zs]) simp
qed

end

section \<open>The operations of the coordinator\<close>

text \<open>
  The managers of attention layers; Mamba managers have their own operations, and cross-attention
  managers neither look up nor cache blocks.
\<close>

definition plain_mgr :: "kv_manager \<Rightarrow> bool" where
  "plain_mgr m \<longleftrightarrow> spec_ok m \<and> km_class m \<noteq> MambaManager \<and> km_class m \<noteq> CrossAttentionManager"

lemma plain_dispatch:
  assumes "plain_mgr m"
  shows "manager_free m p rid = base_free m p rid"
    and "manager_remove_skipped_blocks m p rid tot = base_remove_skipped_blocks m p rid tot"
    and "allocate_new_computed_blocks m p rid bs local_toks ext = base_allocate_new_computed_blocks m p rid bs local_toks ext"
    and "allocate_new_blocks m p rid n main = base_allocate_new_blocks m p rid n"
    and "manager_cache_blocks sha m p r n = base_cache_blocks sha m p r n"
    and "get_num_blocks_to_allocate m p rid n bs tot main cap = base_get_num_blocks_to_allocate m p rid n bs tot cap"
  using assms
  by (cases "km_class m";
      simp add: plain_mgr_def manager_free_def manager_remove_skipped_blocks_def allocate_new_computed_blocks_def
        allocate_new_blocks_def manager_cache_blocks_def get_num_blocks_to_allocate_def)+

definition same_hashes :: "block_pool \<Rightarrow> block_pool \<Rightarrow> bool" where
  "same_hashes p p' \<longleftrightarrow> (\<forall>b. block_hash (pool_heap p' b) = block_hash (pool_heap p b))"

interpretation free_op: manager_op "\<lambda>_ m p. manager_free m p rid" "\<lambda>p. p" rid "\<lambda>_ m _. plain_mgr m" "\<lambda>_ _ _. 0"
  "\<lambda>_ _ m'. blocks_of_req m' rid = [] \<and> num_cached_block m' rid = None" same_hashes for rid
proof
  fix p xs m held
  assume *: "pool_rep p xs" "mgr_ok m p held" "plain_mgr m"
  obtain m' p' where "base_free m p rid = Inr (m', p')" "op_ok rid held m p m' p'"
      "pool_rep p' (xs @ filter (\<lambda>b. real_block p b \<and> ref_cnt (pool_heap p b) = 1) (rev (blocks_of_req m rid)))"
      "blocks_of_req m' rid = []" "num_cached_block m' rid = None"
      "\<forall>c. block_hash (pool_heap p' c) = block_hash (pool_heap p c)"
    by (rule base_free_ok [OF *(1,2)])
  then show "\<exists>m' p' ys. manager_free m p rid = Inr (m', p') \<and> op_ok rid held m p m' p' \<and> pool_rep p' ys \<and>
      int (length xs) \<le> int (length ys) + 0 \<and> (blocks_of_req m' rid = [] \<and> num_cached_block m' rid = None) \<and> same_hashes p p'"
    using plain_dispatch(1) [OF *(3)] by (fastforce simp: same_hashes_def)
qed (simp_all add: same_hashes_def)

interpretation skip_op: manager_op "\<lambda>_ m p. manager_remove_skipped_blocks m p rid tot" "\<lambda>p. p" rid "\<lambda>_ m _. plain_mgr m"
  "\<lambda>_ _ _. 0" "\<lambda>_ m m'. length (blocks_of_req m' rid) = length (blocks_of_req m rid) \<and> num_cached_block m' rid = num_cached_block m rid"
  same_hashes for rid tot
proof
  fix p xs m held
  assume *: "pool_rep p xs" "mgr_ok m p held" "plain_mgr m"
  obtain m' p' ys where "base_remove_skipped_blocks m p rid tot = Inr (m', p')" "op_ok rid held m p m' p'"
      "pool_rep p' (xs @ ys)" "length (blocks_of_req m' rid) = length (blocks_of_req m rid)"
      "num_cached_block m' rid = num_cached_block m rid"
      "\<forall>c. block_hash (pool_heap p' c) = block_hash (pool_heap p c)"
    by (rule base_remove_skipped_ok [OF *(1,2)])
  then show "\<exists>m' p' ys. manager_remove_skipped_blocks m p rid tot = Inr (m', p') \<and> op_ok rid held m p m' p' \<and> pool_rep p' ys \<and>
      int (length xs) \<le> int (length ys) + 0 \<and>
      (length (blocks_of_req m' rid) = length (blocks_of_req m rid) \<and> num_cached_block m' rid = num_cached_block m rid) \<and> same_hashes p p'"
    using plain_dispatch(2) [OF *(3)] by (fastforce simp: same_hashes_def)
qed (simp_all add: same_hashes_def)

definition alloc_cost :: "string \<Rightarrow> int \<Rightarrow> kv_manager \<Rightarrow> int" where
  "alloc_cost rid n m = max 0 (cdiv n (km_block_size m) - int (length (blocks_of_req m rid)))"

definition allocate_step ::
    "string \<Rightarrow> int \<Rightarrow> int \<Rightarrow> int \<Rightarrow> int \<Rightarrow> kv_manager \<Rightarrow> ref list list \<times> block_pool \<Rightarrow> (kv_manager \<times> ref list list \<times> block_pool) res" where
  "allocate_step rid n main enc i m = (\<lambda>(new, p).
     bindE (allocate_new_blocks m p rid (if km_class m = CrossAttentionManager then enc else n) main)
       (\<lambda>(bs, m', p'). Inr (m', (new @ [bs], p'))))"

interpretation alloc_op: manager_op "allocate_step rid n main enc" snd rid "\<lambda>_ m _. plain_mgr m"
  "\<lambda>_ m _. alloc_cost rid n m"
  "\<lambda>_ m m'. int (length (blocks_of_req m' rid)) = int (length (blocks_of_req m rid)) + alloc_cost rid n m \<and>
     num_cached_block m' rid = num_cached_block m rid" "\<lambda>_ _. True" for rid n main enc
proof
  fix s :: "ref list list \<times> block_pool" and xs m held i
  assume *: "pool_rep (snd s) xs" "mgr_ok m (snd s) held" "plain_mgr m" "alloc_cost rid n m \<le> int (length xs)"
  obtain new p where s: "s = (new, p)" by (cases s)
  have fits: "cdiv n (km_block_size m) - int (length (blocks_of_req m rid)) \<le> int (length xs)" using *(4) by (simp add: alloc_cost_def)
  have rep: "pool_rep p xs" and ok: "mgr_ok m p held" using *(1,2) by (simp_all add: s)
  obtain m' p' k where op: "base_allocate_new_blocks m p rid n = Inr (take k xs, m', p')" "op_ok rid held m p m' p'"
      "pool_rep p' (drop k xs)" "int k = max 0 (cdiv n (km_block_size m) - int (length (blocks_of_req m rid)))"
      "blocks_of_req m' rid = blocks_of_req m rid @ take k xs" "num_cached_block m' = num_cached_block m"
    by (rule base_allocate_new_blocks_ok [OF rep ok fits])
  have k: "int k = alloc_cost rid n m" "k \<le> length xs" using op(4) *(4) by (simp_all add: alloc_cost_def)
  have "allocate_step rid n main enc i m s = Inr (m', (new @ [take k xs], p'))"
    using op(1) plain_dispatch(4) [OF *(3)] *(3) by (simp add: allocate_step_def s plain_mgr_def)
  with op k show "\<exists>m' s' ys. allocate_step rid n main enc i m s = Inr (m', s') \<and> op_ok rid held m (snd s) m' (snd s') \<and>
      pool_rep (snd s') ys \<and> int (length xs) \<le> int (length ys) + alloc_cost rid n m \<and>
      (int (length (blocks_of_req m' rid)) = int (length (blocks_of_req m rid)) + alloc_cost rid n m \<and>
       num_cached_block m' rid = num_cached_block m rid) \<and> True"
    by (intro exI [of _ m'] exI [of _ "(new @ [take k xs], p')"] exI [of _ "drop k xs"]) (simp add: s)
qed (simp_all add: alloc_cost_def)

text \<open>Taking the computed blocks when no tokens come from a connector.\<close>

definition hit_step ::
    "string \<Rightarrow> ref list list \<Rightarrow> int \<Rightarrow> int \<Rightarrow> int \<Rightarrow> kv_manager \<Rightarrow> block_pool \<Rightarrow> (kv_manager \<times> block_pool) res" where
  "hit_step rid hits local_toks ext i m p =
     bindE (py_get hits i) (\<lambda>bs. allocate_new_computed_blocks m p rid bs local_toks ext)"

definition kept_hit :: "kv_manager \<Rightarrow> ref list \<Rightarrow> int \<Rightarrow> ref list" where
  "kept_hit m bs tot = drop (nat (get_num_skipped_tokens m tot div km_block_size m)) bs"

definition hit_pre :: "string \<Rightarrow> ref list list \<Rightarrow> int \<Rightarrow> int \<Rightarrow> kv_manager \<Rightarrow> block_pool \<Rightarrow> bool" where
  "hit_pre rid hits local_toks i m p \<longleftrightarrow>
     plain_mgr m \<and> fresh m rid \<and> 0 \<le> i \<and> i < int (length hits) \<and> usable_hit p (hits ! nat i) \<and>
     (km_enable_caching m \<or> hits ! nat i = []) \<and> local_toks = int (length (hits ! nat i)) * km_block_size m"

definition pool_touched :: "block_pool \<Rightarrow> block_pool \<Rightarrow> bool" where
  "pool_touched p p' \<longleftrightarrow> pool_static p p' \<and>
     (\<forall>b. pool_block p b \<longrightarrow> block_hash (pool_heap p' b) = block_hash (pool_heap p b) \<and>
        is_null (pool_heap p' b) = is_null (pool_heap p b) \<and>
        (\<not> is_null (pool_heap p b) \<and> ref_cnt (pool_heap p' b) = 0 \<longrightarrow> ref_cnt (pool_heap p b) = 0))"

lemma pool_touched_refl [simp]: "pool_touched p p"
  by (simp add: pool_touched_def)

lemma pool_touched_trans:
  assumes "pool_touched p p'" and "pool_touched p' p''"
  shows "pool_touched p p''"
proof -
  have "pool_block p' = pool_block p" using assms(1) by (simp add: pool_touched_def pool_block_static)
  with assms show ?thesis by (auto simp: pool_touched_def intro: pool_static_trans)
qed

lemma null_iff: "pool_rep p xs \<Longrightarrow> pool_block p b \<Longrightarrow> is_null (pool_heap p b) \<longleftrightarrow> b = Blk 0"
  using pool_block_cases [of p b] by (auto simp: pool_rep_def pool_core_def data_ok_def)

lemma touch_touched:
  assumes rep: "pool_rep p xs" and hit: "usable_hit p bs" and touch: "touch bs p = Inr p'"
  shows "pool_touched p p'"
proof -
  have blks: "\<forall>b \<in> set bs. pool_block p b" using hit by (simp add: usable_hit_def)
  have q: "pool_rep p' (filter (\<lambda>b. b \<notin> set bs) xs)"
      "\<forall>c. ref_cnt (pool_heap p' c) = ref_cnt (pool_heap p c) + int (count_list bs c)"
      "\<forall>c. block_hash (pool_heap p' c) = block_hash (pool_heap p c)"
    using touch_spec [OF rep blks] touch by auto
  have static: "pool_static p p'" using touch by (rule touch_static)
  have "ref_cnt (pool_heap p b) = 0"
    if "pool_block p b" "\<not> is_null (pool_heap p b)" "ref_cnt (pool_heap p' b) = 0" for b
  proof -
    have "real_block p b" using that null_iff [OF rep that(1)] pool_block_cases [of p b] by auto
    then have "0 \<le> ref_cnt (pool_heap p b)" using rep by (simp add: pool_rep_def pool_core_def data_ok_def)
    with q(2) that(3) show ?thesis by simp
  qed
  moreover have "is_null (pool_heap p' b) = is_null (pool_heap p b)" if "pool_block p b" for b
    using that null_iff [OF rep that] null_iff [OF q(1), of b] pool_block_static [OF static] by simp
  ultimately show ?thesis using static q(3) by (simp add: pool_touched_def)
qed

lemma usable_hit_touched:
  assumes "pool_touched p p'" and "usable_hit p bs"
  shows "usable_hit p' bs"
  using assms pool_block_static [of p p'] real_block_static [of p p'] by (auto simp: usable_hit_def pool_touched_def)

lemma evictable_touched:
  assumes "pool_touched p p'" and "usable_hit p bs"
  shows "get_num_evictable_blocks p' bs \<le> get_num_evictable_blocks p bs"
proof -
  have "length (filter P xs) \<le> length (filter Q xs)" if "\<And>b. b \<in> set xs \<Longrightarrow> P b \<Longrightarrow> Q b" for P Q and xs :: "ref list"
    using that by (induction xs) auto
  then show ?thesis using assms unfolding get_num_evictable_blocks_def
    by (force simp: usable_hit_def pool_touched_def)
qed

lemma hit_pad_length:
  assumes "hit_pre rid hits local_toks i m p"
  shows "int (length (padded_hit m p (hits ! nat i) local_toks)) = int (length (hits ! nat i))"
    and "cdiv local_toks (km_block_size m) = int (length (hits ! nat i))"
proof -
  let ?L = "int (length (hits ! nat i))"
  have spec: "spec_ok m" and loc: "local_toks = ?L * km_block_size m" using assms by (simp_all add: hit_pre_def plain_mgr_def)
  have b0: "0 < km_block_size m" using spec by (simp add: spec_ok_def)
  have l0: "0 \<le> local_toks" using b0 loc by simp
  have "local_toks div km_block_size m = ?L" using b0 loc by simp
  then show "int (length (padded_hit m p (hits ! nat i) local_toks)) = ?L"
    using length_padded_hit [OF spec l0, of p "hits ! nat i"] skipped_blocks_range(2) [OF spec l0] by simp
  show "cdiv local_toks (km_block_size m) = ?L"
    using loc b0 cdiv_bounds [OF b0, of local_toks] by (metis cdiv_le_iff dual_order.antisym mult_le_cancel_right not_le order_refl)
qed

definition hit_cost :: "ref list list \<Rightarrow> int \<Rightarrow> int \<Rightarrow> kv_manager \<Rightarrow> block_pool \<Rightarrow> int" where
  "hit_cost hits local_toks i m p = get_num_evictable_blocks p (kept_hit m (hits ! nat i) local_toks)"

interpretation hit_op: manager_op "hit_step rid hits local_toks 0" "\<lambda>p. p" rid "hit_pre rid hits local_toks"
  "hit_cost hits local_toks"
  "\<lambda>i m m'. length (blocks_of_req m' rid) = length (hits ! nat i) \<and>
     num_cached_block m' rid = Some (int (length (hits ! nat i)))" pool_touched for rid hits local_toks
proof
  fix p xs m held i
  assume rep: "pool_rep p xs" and ok: "mgr_ok m p held" and pre: "hit_pre rid hits local_toks i m p"
    and fits: "hit_cost hits local_toks i m p \<le> int (length xs)"
  let ?bs = "hits ! nat i"
  have spec: "spec_ok m" and fresh: "fresh m rid" and hit: "usable_hit p ?bs" and caching: "km_enable_caching m \<or> ?bs = []"
    and loc: "local_toks = int (length ?bs) * km_block_size m" and i: "py_get hits i = Inr ?bs" and plain: "plain_mgr m"
    using pre by (simp_all add: hit_pre_def plain_mgr_def py_get_nonneg)
  note len = hit_pad_length [OF pre]
  have fits': "cdiv local_toks (km_block_size m) - int (length (padded_hit m p ?bs local_toks)) +
      get_num_evictable_blocks p (kept_hit m ?bs local_toks) \<le> int (length xs)"
    using fits len by (simp add: hit_cost_def)
  obtain m' p' ys where op: "base_allocate_new_computed_blocks m p rid ?bs local_toks 0 = Inr (m', p')"
      "op_ok rid held m p m' p'" "pool_rep p' ys"
      "num_cached_block m' rid = Some (int (length (padded_hit m p ?bs local_toks)))"
      "int (length ys) + int (length (blocks_of_req m' rid)) + get_num_evictable_blocks p (kept_hit m ?bs local_toks) =
         int (length xs) + int (length (padded_hit m p ?bs local_toks))"
      "length (padded_hit m p ?bs local_toks) \<le> length (blocks_of_req m' rid)"
      "int (length (blocks_of_req m' rid)) \<le> cdiv local_toks (km_block_size m)"
      "touch (kept_hit m ?bs local_toks) p = Inr p'"
    using base_allocate_new_computed_ok [OF rep ok fresh spec hit caching loc order_refl _ _ refl fits'] kept_hit_def
    by (metis add_0_right)
  have touched: "pool_touched p p'"
    using touch_touched [OF rep _ op(8)] usable_hit_drop [OF hit] by (simp add: kept_hit_def)
  have "hit_step rid hits local_toks 0 i m p = Inr (m', p')"
    using op(1) plain_dispatch(3) [OF plain] i by (simp add: hit_step_def)
  with op len touched show "\<exists>m' p' ys. hit_step rid hits local_toks 0 i m p = Inr (m', p') \<and> op_ok rid held m p m' p' \<and>
      pool_rep p' ys \<and> int (length xs) \<le> int (length ys) + hit_cost hits local_toks i m p \<and>
      (length (blocks_of_req m' rid) = length ?bs \<and> num_cached_block m' rid = Some (int (length ?bs))) \<and> pool_touched p p'"
    by (intro exI [of _ m'] exI [of _ p'] exI [of _ ys]) (simp add: hit_cost_def)
next
  fix p p' i m
  assume "pool_touched p p'" "hit_pre rid hits local_toks i m p"
  then show "hit_pre rid hits local_toks i m p'" "hit_cost hits local_toks i m p' \<le> hit_cost hits local_toks i m p"
    by (auto simp: hit_pre_def hit_cost_def kept_hit_def intro: usable_hit_touched evictable_touched usable_hit_drop)
next
  fix i m p
  show "0 \<le> hit_cost hits local_toks i m p" by (simp add: hit_cost_def get_num_evictable_blocks_def)
qed (auto intro: pool_touched_trans)

definition cache_step ::
    "(byte_string \<Rightarrow> byte_string) \<Rightarrow> int \<Rightarrow> int \<Rightarrow> kv_manager \<Rightarrow> block_pool \<times> request \<Rightarrow> (kv_manager \<times> block_pool \<times> request) res" where
  "cache_step sha n i m = (\<lambda>(p, r). bindE (manager_cache_blocks sha m p r n) (\<lambda>(m', p', r'). Inr (m', (p', r'))))"

definition cache_pre :: "string \<Rightarrow> int \<Rightarrow> kv_manager \<Rightarrow> block_pool \<times> request \<Rightarrow> bool" where
  "cache_pre rid n m = (\<lambda>(p, r).
     plain_mgr m \<and> request_id r = rid \<and> enable_caching p \<and> km_block_size m = hash_block_size p \<and>
     n div km_block_size m \<le> int (length (blocks_of_req m rid)) \<and> n div km_block_size m \<le> int (length (block_hashes r)) \<and>
     0 \<le> km_group_id m \<and> km_group_id m < 2 ^ 32)"

interpretation cache_op: manager_op "cache_step sha n" fst rid "\<lambda>_ m s. cache_pre rid n m s" "\<lambda>_ _ _. 0"
  "\<lambda>_ m m'. blocks_of_req m' = blocks_of_req m \<and>
     cached_upto m' rid = max (cached_upto m rid) (n div km_block_size m)" "\<lambda>s s'. memo_only (snd s) (snd s')" for sha rid n
proof
  fix s :: "block_pool \<times> request" and xs m held i
  assume *: "pool_rep (fst s) xs" "mgr_ok m (fst s) held" "cache_pre rid n m s"
  obtain p r where s: "s = (p, r)" by (cases s)
  have pre: "plain_mgr m" "rid = request_id r" "enable_caching p" "km_block_size m = hash_block_size p"
      "n div km_block_size m \<le> int (length (blocks_of_req m (request_id r)))"
      "n div km_block_size m \<le> int (length (block_hashes r))" "0 \<le> km_group_id m" "km_group_id m < 2 ^ 32"
    using *(3) by (auto simp: s cache_pre_def)
  have rep: "pool_rep p xs" and ok: "mgr_ok m p held" using *(1,2) by (simp_all add: s)
  obtain m' p' r' where op: "base_cache_blocks sha m p r n = Inr (m', p', r')" "op_ok (request_id r) held m p m' p'"
      "pool_rep p' xs" "memo_only r r'" "blocks_of_req m' = blocks_of_req m"
      "cached_upto m' (request_id r) = max (cached_upto m (request_id r)) (n div km_block_size m)"
    by (rule base_cache_blocks_ok [OF rep ok pre(3-8)])
  then show "\<exists>m' s' ys. cache_step sha n i m s = Inr (m', s') \<and> op_ok rid held m (fst s) m' (fst s') \<and> pool_rep (fst s') ys \<and>
      int (length xs) \<le> int (length ys) + 0 \<and> (blocks_of_req m' = blocks_of_req m \<and>
      cached_upto m' rid = max (cached_upto m rid) (n div km_block_size m)) \<and> memo_only (snd s) (snd s')"
    using plain_dispatch(5) [OF pre(1)] pre(2)
    by (intro exI [of _ m'] exI [of _ "(p', r')"] exI [of _ xs]) (simp add: cache_step_def s)
next
  fix s s' :: "block_pool \<times> request" and i m
  assume "memo_only (snd s) (snd s')" "pool_static (fst s) (fst s')" "cache_pre rid n m s"
  then show "cache_pre rid n m s'"
    using memo_only_fields [of "snd s" "snd s'"] by (auto simp: cache_pre_def pool_static_def split: prod.splits)
qed (auto intro: memo_only_trans)

end
