(* ===== verification/Slot_Allocation.thy ===== *)
theory Slot_Allocation
  imports Coordinator_Accounting
begin

text \<open>
  \<open>allocate_slots\<close> on a KV cache manager that satisfies \<open>kv_inv\<close>: the capacity check predicts what the
  allocation takes, so that a call that passes it succeeds and gives every group enough slots, and a call
  that does not changes no reference of a request other than to skipped blocks.
\<close>

section \<open>Lists of managers\<close>

lemma all_from_nth: "all_from P i ms \<longleftrightarrow> (\<forall>j < length ms. P (i + int j) (ms ! j))"
proof (induction ms arbitrary: i)
  case (Cons m ms)
  have "(\<forall>j < length (m # ms). P (i + int j) ((m # ms) ! j)) \<longleftrightarrow> P i m \<and> (\<forall>j < length ms. P (i + int (Suc j)) (ms ! j))"
    by (auto simp: less_Suc_eq_0_disj)
  then show ?case by (simp add: Cons ac_simps)
qed simp

lemma all2_from_nth:
  "all2_from Q i ms ms' \<longleftrightarrow> length ms' = length ms \<and> (\<forall>j < length ms. Q (i + int j) (ms ! j) (ms' ! j))"
proof (induction Q i ms ms' rule: all2_from.induct)
  case (2 Q i m ms m' ms')
  have "(\<forall>j < length (m # ms). Q (i + int j) ((m # ms) ! j) ((m' # ms') ! j)) \<longleftrightarrow>
      Q i m m' \<and> (\<forall>j < length ms. Q (i + int (Suc j)) (ms ! j) (ms' ! j))"
    by (auto simp: less_Suc_eq_0_disj)
  then show ?case unfolding all2_from.simps 2 by (auto simp: ac_simps)
qed auto

lemma sum_from_nth: "sum_from c i ms = (\<Sum>j < length ms. c (i + int j) (ms ! j))"
proof (induction ms arbitrary: i)
  case (Cons m ms)
  have "(\<Sum>j < length (m # ms). c (i + int j) ((m # ms) ! j)) = c i m + (\<Sum>j < length ms. c (i + int (Suc j)) (ms ! j))"
    by (simp only: list.size(4) add_Suc_right add_0_right sum.lessThan_Suc_shift) simp
  then show ?case by (simp add: Cons ac_simps)
qed simp

section \<open>The prediction\<close>

definition running_ok :: "string \<Rightarrow> int \<Rightarrow> kv_manager \<Rightarrow> bool" where
  "running_ok rid computed m \<longleftrightarrow> 0 \<le> computed \<and> computed \<le> int (length (blocks_of_req m rid)) * km_block_size m"

lemma predict_running:
  assumes "plain_mgr m" and "running_ok rid computed m"
  shows "base_get_num_blocks_to_allocate m p rid n [] computed False = Inr (alloc_cost rid n m)"
proof (cases "num_cached_block m rid")
  case None
  have spec: "spec_ok m" and b0: "0 < km_block_size m" using assms(1) by (simp_all add: plain_mgr_def spec_ok_def)
  have c: "0 \<le> computed" "computed \<le> int (length (blocks_of_req m rid)) * km_block_size m"
    using assms(2) by (simp_all add: running_ok_def)
  have "computed div km_block_size m \<le> int (length (blocks_of_req m rid))"
    using zdiv_mono1 [OF c(2) b0] b0 by simp
  then have "get_num_skipped_tokens m computed div km_block_size m \<le> int (length (blocks_of_req m rid))"
    using skipped_blocks_range(2) [OF spec c(1)] by simp
  with None show ?thesis
    by (simp add: base_get_num_blocks_to_allocate_def Let_def get_num_evictable_blocks_def alloc_cost_def max.commute split: option.split)
qed (simp add: base_get_num_blocks_to_allocate_def Let_def alloc_cost_def max.commute split: option.split)

definition hit_ready :: "string \<Rightarrow> int \<Rightarrow> ref list \<Rightarrow> kv_manager \<Rightarrow> block_pool \<Rightarrow> bool" where
  "hit_ready rid local_toks bs m p \<longleftrightarrow>
     fresh m rid \<and> usable_hit p bs \<and> (km_enable_caching m \<or> bs = []) \<and> local_toks = int (length bs) * km_block_size m"

lemma predict_hit:
  assumes "plain_mgr m" and "hit_ready rid local_toks bs m p" and "0 \<le> tot"
  shows "base_get_num_blocks_to_allocate m p rid n bs tot False =
    Inr (max (cdiv n (km_block_size m) - int (length (padded_hit m p bs tot))) 0 + get_num_evictable_blocks p (kept_hit m bs tot))"
proof -
  have spec: "spec_ok m" using assms(1) by (simp add: plain_mgr_def)
  have "num_cached_block m rid = None" "blocks_of_req m rid = []" using assms(2) by (simp_all add: hit_ready_def fresh_def)
  with length_padded_hit [OF spec assms(3), of p bs] skipped_blocks_range(1) [OF spec assms(3)] show ?thesis
    by (simp add: base_get_num_blocks_to_allocate_def Let_def kept_hit_def split: option.split)
qed

lemma predict_all:
  assumes "\<forall>m \<in> set (single_type_managers co). plain_mgr m" and "length new = length (single_type_managers co)"
    and "\<And>j. j < length new \<Longrightarrow> base_get_num_blocks_to_allocate (single_type_managers co ! j) (co_block_pool co) rid n (new ! j) tot cap = Inr (c j)"
  shows "co_get_num_blocks_to_allocate co rid n new enc tot main cap = Inr (\<Sum>j < length new. c j)"
proof -
  let ?f = "\<lambda>(i, m) k. bindE (if km_class m = CrossAttentionManager
        then get_num_blocks_to_allocate m (co_block_pool co) rid enc [] 0 enc cap
        else bindE (py_get new (int i)) (\<lambda>bs. get_num_blocks_to_allocate m (co_block_pool co) rid n bs tot main cap))
      (\<lambda>d. Inr (k + d))"
  have "fold_res ?f (enumerate i (drop i (single_type_managers co))) k = Inr (k + (\<Sum>j \<in> {i..<length new}. c j))"
    if "i \<le> length new" for i k
    using that
  proof (induction "length new - i" arbitrary: i k)
    case 0
    then show ?case using assms(2) by simp
  next
    case (Suc d)
    then have i: "i < length new" by simp
    let ?m = "single_type_managers co ! i"
    have plain: "plain_mgr ?m" using assms(1,2) i by simp
    have "drop i (single_type_managers co) = ?m # drop (Suc i) (single_type_managers co)"
      using i assms(2) by (simp add: Cons_nth_drop_Suc)
    moreover have "?f (i, ?m) k = Inr (k + c i)"
      using plain plain_dispatch(6) [OF plain] assms(3) [OF i] i by (simp add: plain_mgr_def py_get_nonneg)
    moreover have "(\<Sum>j \<in> {i..<length new}. c j) = c i + (\<Sum>j \<in> {Suc i..<length new}. c j)"
      using i by (simp add: sum.atLeast_Suc_lessThan)
    ultimately show ?case using Suc.hyps(1) [of "Suc i" "k + c i"] Suc.hyps(2) i by (simp add: add.assoc)
  qed
  from this [of 0 0] show ?thesis by (simp add: co_get_num_blocks_to_allocate_def lessThan_atLeast0)
qed

section \<open>The stages\<close>

abbreviation with_managers :: "kv_coordinator \<Rightarrow> kv_manager list \<Rightarrow> block_pool \<Rightarrow> kv_coordinator" where
  "with_managers co ms p \<equiv> co\<lparr>single_type_managers := ms, co_block_pool := p\<rparr>"

text \<open>The accounting holds, \<open>xs\<close> are the free blocks, and all managers are those of attention layers.\<close>

definition co_rep :: "kv_manager list \<Rightarrow> block_pool \<Rightarrow> ref list \<Rightarrow> bool" where
  "co_rep ms p xs \<longleftrightarrow> coord_ok ms p \<and> pool_rep p xs \<and> (\<forall>m \<in> set ms. plain_mgr m)"

text \<open>The managers before and after an operation on one request.\<close>

definition related ::
    "string \<Rightarrow> (nat \<Rightarrow> kv_manager \<Rightarrow> kv_manager \<Rightarrow> bool) \<Rightarrow> kv_manager list \<Rightarrow> block_pool \<Rightarrow> kv_manager list \<Rightarrow> block_pool \<Rightarrow> bool" where
  "related rid Q ms p ms' p' \<longleftrightarrow> pool_static p p' \<and> length ms' = length ms \<and>
     (\<forall>j < length ms. mgr_frame rid (ms ! j) (ms' ! j) \<and> Q j (ms ! j) (ms' ! j))"

lemma plain_static: "mgr_static m m' \<Longrightarrow> plain_mgr m' = plain_mgr m"
  by (simp add: mgr_static_def plain_mgr_def spec_ok_def)

lemma plain_related:
  assumes "related rid Q ms p ms' p'" and "\<forall>m \<in> set ms. plain_mgr m"
  shows "\<forall>m \<in> set ms'. plain_mgr m"
proof
  fix m
  assume "m \<in> set ms'"
  then obtain j where "j < length ms" "m = ms' ! j" using assms(1) by (metis in_set_conv_nth related_def)
  with assms plain_static [of "ms ! j" m] show "plain_mgr m" by (simp add: related_def mgr_frame_def)
qed

lemma related_trans:
  assumes "related rid Q ms p ms' p'" and "related rid Q' ms' p' ms'' p''"
    and "\<And>j m m' m''. j < length ms \<Longrightarrow> Q j m m' \<Longrightarrow> Q' j m' m'' \<Longrightarrow> mgr_static m m' \<Longrightarrow> Q'' j m m''"
  shows "related rid Q'' ms p ms'' p''"
  using assms by (auto simp: related_def mgr_frame_def intro: pool_static_trans mgr_static_trans)

lemma run_related:
  assumes "all2_from (\<lambda>i m m'. post i m m' \<and> mgr_frame rid m m') 0 ms ms'" and "pool_static p p'"
  shows "related rid (\<lambda>j. post (int j)) ms p ms' p'"
  using assms by (simp add: related_def all2_from_nth)

lemma skip_stage:
  assumes "co_rep (single_type_managers co) (co_block_pool co) xs"
  shows "\<exists>ms p ys. co_remove_skipped_blocks co rid tot = Inr (with_managers co ms p) \<and> co_rep ms p ys \<and>
    length xs \<le> length ys \<and> same_hashes (co_block_pool co) p \<and>
    related rid (\<lambda>_ m m'. length (blocks_of_req m' rid) = length (blocks_of_req m rid) \<and>
      num_cached_block m' rid = num_cached_block m rid) (single_type_managers co) (co_block_pool co) ms p"
proof -
  let ?ms = "single_type_managers co" and ?p = "co_block_pool co"
  have "coord_ok ([] @ ?ms) ?p" "pool_rep ?p xs" "all_from (\<lambda>i m. plain_mgr m) 0 ?ms" "sum_from (\<lambda>i m. 0) 0 ?ms \<le> int (length xs)"
    using assms by (simp_all add: co_rep_def all_from_nth sum_from_nth)
  from skip_op.run_managers [OF this, of rid tot] obtain ms p ys where run:
      "for_managers (\<lambda>_ m p. manager_remove_skipped_blocks m p rid tot) 0 ?ms ?p = Inr (ms, p)" "coord_ok ms p" "pool_rep p ys"
      "all2_from (\<lambda>i m m'. (length (blocks_of_req m' rid) = length (blocks_of_req m rid) \<and>
         num_cached_block m' rid = num_cached_block m rid) \<and> mgr_frame rid m m') 0 ?ms ms"
      "same_hashes ?p p" "pool_static ?p p" "length xs \<le> length ys"
    by (auto simp: sum_from_nth)
  note rel = run_related [OF run(4,6)]
  with run plain_related [OF rel] assms show ?thesis
    by (intro exI [of _ ms] exI [of _ p] exI [of _ ys])
      (simp add: co_remove_skipped_blocks_def update_managers_def co_rep_def)
qed

lemma alloc_stage:
  assumes rep: "co_rep (single_type_managers co) (co_block_pool co) xs"
    and fits: "(\<Sum>j < length (single_type_managers co). alloc_cost rid n (single_type_managers co ! j)) \<le> int (length xs)"
  shows "\<exists>new ms p ys. co_allocate_new_blocks co rid n main enc = Inr (new, with_managers co ms p) \<and> co_rep ms p ys \<and>
    related rid (\<lambda>_ m m'. int (length (blocks_of_req m' rid)) = int (length (blocks_of_req m rid)) + alloc_cost rid n m \<and>
      num_cached_block m' rid = num_cached_block m rid) (single_type_managers co) (co_block_pool co) ms p"
proof -
  let ?ms = "single_type_managers co" and ?p = "co_block_pool co" and ?s = "([] :: ref list list, co_block_pool co)"
  have "coord_ok ([] @ ?ms) (snd ?s)" "pool_rep (snd ?s) xs" "all_from (\<lambda>i m. plain_mgr m) 0 ?ms"
      "sum_from (\<lambda>i m. alloc_cost rid n m) 0 ?ms \<le> int (length xs)"
    using rep fits by (simp_all add: co_rep_def all_from_nth sum_from_nth)
  from alloc_op.run_managers [OF this, of main enc] obtain ms s ys where run:
      "for_managers (allocate_step rid n main enc) 0 ?ms ?s = Inr (ms, s)" "coord_ok ms (snd s)" "pool_rep (snd s) ys"
      "all2_from (\<lambda>i m m'. (int (length (blocks_of_req m' rid)) = int (length (blocks_of_req m rid)) + alloc_cost rid n m \<and>
         num_cached_block m' rid = num_cached_block m rid) \<and> mgr_frame rid m m') 0 ?ms ms"
      "pool_static (snd ?s) (snd s)"
    by auto
  obtain new p where s: "s = (new, p)" by (cases s)
  have "allocate_step rid n main enc = (\<lambda>_ m (new, p).
      bindE (allocate_new_blocks m p rid (if km_class m = CrossAttentionManager then enc else n) main)
        (\<lambda>(bs, m', p'). Inr (m', (new @ [bs], p'))))"
    by (simp add: allocate_step_def fun_eq_iff)
  then have "co_allocate_new_blocks co rid n main enc = Inr (new, with_managers co ms p)"
    using run(1) by (simp add: co_allocate_new_blocks_def s)
  moreover have rel: "related rid (\<lambda>_ m m'. int (length (blocks_of_req m' rid)) = int (length (blocks_of_req m rid)) + alloc_cost rid n m \<and>
      num_cached_block m' rid = num_cached_block m rid) ?ms ?p ms p"
    using run_related [OF run(4)] run(5) by (simp add: s)
  ultimately show ?thesis using run(2,3) plain_related [OF rel] rep s
    by (intro exI [of _ new] exI [of _ ms] exI [of _ p] exI [of _ ys]) (simp add: co_rep_def)
qed

text \<open>What the capacity check demands of a manager for a request with a hit.\<close>

definition hit_need :: "int \<Rightarrow> int \<Rightarrow> ref list \<Rightarrow> kv_manager \<Rightarrow> block_pool \<Rightarrow> int" where
  "hit_need n tot bs m p =
     max (cdiv n (km_block_size m) - int (length (padded_hit m p bs tot))) 0 + get_num_evictable_blocks p (kept_hit m bs tot)"

definition hit_taken :: "string \<Rightarrow> int \<Rightarrow> kv_manager \<Rightarrow> kv_manager \<Rightarrow> bool" where
  "hit_taken rid n m m' \<longleftrightarrow> blocks_of_req m rid = [] \<and>
     int (length (blocks_of_req m' rid)) \<le> cdiv n (km_block_size m)"

lemma local_hit_stage:
  assumes rep: "co_rep (single_type_managers co) (co_block_pool co) xs"
    and len: "length hits = length (single_type_managers co)"
    and ready: "\<forall>j < length hits. hit_ready rid local_toks (hits ! j) (single_type_managers co ! j) (co_block_pool co)"
    and n: "local_toks \<le> n"
    and fits: "(\<Sum>j < length hits. hit_need n local_toks (hits ! j) (single_type_managers co ! j) (co_block_pool co)) \<le> int (length xs)"
  shows "\<exists>ms p ys. co_allocate_new_computed_blocks co rid hits local_toks 0 = Inr (with_managers co ms p) \<and> co_rep ms p ys \<and>
    related rid (\<lambda>_. hit_taken rid n) (single_type_managers co) (co_block_pool co) ms p \<and>
    (\<Sum>j < length ms. alloc_cost rid n (ms ! j)) \<le> int (length ys)"
proof -
  let ?ms = "single_type_managers co" and ?p = "co_block_pool co"
  have pre: "hit_pre rid hits local_toks (int j) (?ms ! j) ?p" if "j < length ?ms" for j
    using rep ready that len by (simp add: hit_pre_def hit_ready_def co_rep_def)
  note pad = hit_pad_length [OF pre]
  let ?ev = "\<lambda>j. get_num_evictable_blocks ?p (kept_hit (?ms ! j) (hits ! j) local_toks)"
  let ?rest = "\<lambda>j. max (cdiv n (km_block_size (?ms ! j)) - int (length (hits ! j))) 0"
  have total: "(\<Sum>j < length ?ms. ?rest j) + (\<Sum>j < length ?ms. ?ev j) \<le> int (length xs)"
    using fits pad(1) by (simp add: len hit_need_def sum.distrib)
  moreover have "0 \<le> (\<Sum>j < length ?ms. ?rest j)" by (intro sum_nonneg) simp
  ultimately have cost: "sum_from (\<lambda>i m. hit_cost hits local_toks i m ?p) 0 ?ms \<le> int (length xs)"
    by (simp add: sum_from_nth hit_cost_def)
  have "coord_ok ([] @ ?ms) ?p" "pool_rep ?p xs" "all_from (\<lambda>i m. hit_pre rid hits local_toks i m ?p) 0 ?ms"
    using rep pre by (simp_all add: co_rep_def all_from_nth)
  from hit_op.run_managers [OF this cost] obtain ms p ys where run:
      "for_managers (hit_step rid hits local_toks 0) 0 ?ms ?p = Inr (ms, p)" "coord_ok ms p" "pool_rep p ys"
      "int (length xs) \<le> int (length ys) + (\<Sum>j < length ?ms. ?ev j)"
      "all2_from (\<lambda>i m m'. (length (blocks_of_req m' rid) = length (hits ! nat i) \<and>
         num_cached_block m' rid = Some (int (length (hits ! nat i)))) \<and> mgr_frame rid m m') 0 ?ms ms" "pool_static ?p p"
    by (auto simp: sum_from_nth hit_cost_def)
  have sizes: "length ms = length ?ms" "\<And>j. j < length ?ms \<Longrightarrow> length (blocks_of_req (ms ! j) rid) = length (hits ! j) \<and>
      num_cached_block (ms ! j) rid = Some (int (length (hits ! j))) \<and> mgr_frame rid (?ms ! j) (ms ! j)"
    using run(5) by (simp_all add: all2_from_nth)
  have "hit_taken rid n (?ms ! j) (ms ! j)" if j: "j < length ?ms" for j
  proof -
    have m: "0 < km_block_size (?ms ! j)" "blocks_of_req (?ms ! j) rid = []"
      using pre [OF j] by (simp_all add: hit_pre_def plain_mgr_def spec_ok_def fresh_def)
    with cdiv_mono [OF m(1) n] pad(2) [OF j] sizes(2) [OF j] show ?thesis by (simp add: hit_taken_def)
  qed
  then have rel: "related rid (\<lambda>_. hit_taken rid n) ?ms ?p ms p"
    using sizes run(6) by (simp add: related_def)
  have "alloc_cost rid n (ms ! j) = ?rest j" if "j < length ?ms" for j
    using sizes(2) [OF that] by (simp add: alloc_cost_def mgr_frame_def mgr_static_def max.commute)
  then have "(\<Sum>j < length ms. alloc_cost rid n (ms ! j)) = (\<Sum>j < length ?ms. ?rest j)" by (simp add: sizes(1))
  moreover have "hit_step rid hits local_toks 0 = (\<lambda>i m p. bindE (py_get hits i) (\<lambda>bs.
      allocate_new_computed_blocks m p rid bs local_toks 0))"
    by (simp add: hit_step_def fun_eq_iff)
  ultimately show ?thesis using run total rel plain_related [OF rel] rep
    by (intro exI [of _ ms] exI [of _ p] exI [of _ ys])
      (simp add: co_rep_def co_allocate_new_computed_blocks_def update_managers_def)
qed

lemma external_hit_stage:
  assumes rep: "co_rep [m] (co_block_pool co) xs" and ms: "single_type_managers co = [m]"
    and ready: "hit_ready rid local_toks bs m (co_block_pool co)" and ext: "0 \<le> ext" and n: "local_toks + ext \<le> n"
    and fits: "hit_need n (local_toks + ext) bs m (co_block_pool co) \<le> int (length xs)"
  shows "\<exists>m' p ys. co_allocate_new_computed_blocks co rid [bs] local_toks ext = Inr (with_managers co [m'] p) \<and> co_rep [m'] p ys \<and>
    related rid (\<lambda>_. hit_taken rid n) [m] (co_block_pool co) [m'] p \<and> alloc_cost rid n m' \<le> int (length ys)"
proof -
  let ?p = "co_block_pool co" and ?tot = "local_toks + ext"
  have plain: "plain_mgr m" and prep: "pool_rep ?p xs" and cok: "coord_ok ([] @ m # []) ?p" using rep by (simp_all add: co_rep_def)
  have spec: "spec_ok m" and b0: "0 < km_block_size m" using plain by (simp_all add: plain_mgr_def spec_ok_def)
  have r: "fresh m rid" "usable_hit ?p bs" "km_enable_caching m \<or> bs = []" "local_toks = int (length bs) * km_block_size m"
    using ready by (simp_all add: hit_ready_def)
  have le: "cdiv ?tot (km_block_size m) \<le> cdiv n (km_block_size m)" using n by (rule cdiv_mono [OF b0])
  note pad = pad_within [OF spec r(4) ext refl, of ?p]
  have fits': "cdiv ?tot (km_block_size m) - int (length (padded_hit m ?p bs ?tot)) +
      get_num_evictable_blocks ?p (kept_hit m bs ?tot) \<le> int (length xs)"
    using fits le by (simp add: hit_need_def)
  obtain m' p ys where op: "base_allocate_new_computed_blocks m ?p rid bs local_toks ext = Inr (m', p)"
      "op_ok rid (\<lambda>b. occs [] b + occs [] b) m ?p m' p" "pool_rep p ys"
      "num_cached_block m' rid = Some (int (length (padded_hit m ?p bs ?tot)))"
      "int (length ys) + int (length (blocks_of_req m' rid)) + get_num_evictable_blocks ?p (kept_hit m bs ?tot) =
         int (length xs) + int (length (padded_hit m ?p bs ?tot))"
      "int (length (blocks_of_req m' rid)) \<le> cdiv ?tot (km_block_size m)"
    by (rule base_allocate_new_computed_ok [OF prep coord_mgr_ok [OF cok] r(1) spec r(2,3,4) ext refl kept_hit_def refl fits'])
  have frame: "mgr_frame rid m m'" "pool_static ?p p" "km_block_size m' = km_block_size m" "plain_mgr m'"
    using op(2) plain_static [of m m'] plain by (simp_all add: op_ok_def mgr_frame_def mgr_static_def)
  have "coord_ok [m'] p" using coord_op [OF cok op(2)] by simp
  moreover have "alloc_cost rid n m' \<le> int (length ys)"
    using op(5,6) fits le frame(3) by (simp add: alloc_cost_def hit_need_def)
  moreover have "co_allocate_new_computed_blocks co rid [bs] local_toks ext = Inr (with_managers co [m'] p)"
    using op(1) plain_dispatch(3) [OF plain] by (simp add: co_allocate_new_computed_blocks_def update_managers_def ms py_get_nonneg)
  ultimately show ?thesis using op frame le r(1)
    by (intro exI [of _ m'] exI [of _ p] exI [of _ ys]) (simp add: co_rep_def related_def hit_taken_def fresh_def)
qed

section \<open>Reserving slots\<close>

text \<open>
  The requests the scheduler allocates for. A request that runs, or that waits without a hit, holds blocks
  for its computed tokens. A waiting request with a hit holds no blocks, and the hit has the given length
  in every group; tokens from a connector are only considered for a single group.
\<close>

definition slots_ready ::
    "string \<Rightarrow> int \<Rightarrow> ref list list \<Rightarrow> bool \<Rightarrow> int \<Rightarrow> int \<Rightarrow> kv_manager list \<Rightarrow> block_pool \<Rightarrow> bool" where
  "slots_ready rid n hits has_computed local_toks ext ms p \<longleftrightarrow>
     length hits = length ms \<and>
     (if has_computed \<or> 0 < ext
      then 0 \<le> ext \<and> (ext = 0 \<or> length ms = 1) \<and> local_toks + ext \<le> n \<and>
        (\<forall>j < length hits. hit_ready rid local_toks (hits ! j) (ms ! j) p)
      else ext = 0 \<and> (\<forall>j < length hits. hits ! j = [] \<and> running_ok rid local_toks (ms ! j)))"

definition same_size :: "string \<Rightarrow> kv_manager \<Rightarrow> kv_manager \<Rightarrow> bool" where
  "same_size rid m m' \<longleftrightarrow> length (blocks_of_req m' rid) = length (blocks_of_req m rid) \<and>
     num_cached_block m' rid = num_cached_block m rid"

lemma hit_ready_kept:
  assumes "hit_ready rid local_toks bs m p" and "same_size rid m m'" and "mgr_static m m'"
    and "same_hashes p p'" and "pool_static p p'"
  shows "hit_ready rid local_toks bs m' p'"
  using assms real_block_static [OF assms(5)] pool_block_static [OF assms(5)]
  by (auto simp: hit_ready_def fresh_def same_size_def mgr_static_def usable_hit_def same_hashes_def)

lemma slots_ready_kept:
  assumes ready: "slots_ready rid n hits has_computed local_toks ext ms p"
    and rel: "related rid (\<lambda>_. same_size rid) ms p ms' p'" and hashes: "same_hashes p p'"
  shows "slots_ready rid n hits has_computed local_toks ext ms' p'"
proof -
  have r: "pool_static p p'" "length ms' = length ms"
      "\<And>j. j < length ms \<Longrightarrow> same_size rid (ms ! j) (ms' ! j) \<and> mgr_static (ms ! j) (ms' ! j)"
    using rel by (simp_all add: related_def mgr_frame_def)
  have "running_ok rid local_toks (ms' ! j)" if "j < length ms" "running_ok rid local_toks (ms ! j)" for j
    using r(3) [OF that(1)] that(2) by (simp add: running_ok_def same_size_def mgr_static_def)
  moreover have "hit_ready rid local_toks (hits ! j) (ms' ! j) p'"
    if "j < length ms" "hit_ready rid local_toks (hits ! j) (ms ! j) p" for j
    using hit_ready_kept [OF that(2) _ _ hashes r(1)] r(3) [OF that(1)] by blast
  ultimately show ?thesis using ready r(2) by (auto simp: slots_ready_def split: if_splits)
qed

text \<open>What the capacity check sums up.\<close>

definition slots_need ::
    "string \<Rightarrow> int \<Rightarrow> ref list list \<Rightarrow> bool \<Rightarrow> int \<Rightarrow> int \<Rightarrow> kv_manager list \<Rightarrow> block_pool \<Rightarrow> int" where
  "slots_need rid n hits has_computed local_toks ext ms p =
     (\<Sum>j < length hits. if has_computed \<or> 0 < ext then hit_need n (local_toks + ext) (hits ! j) (ms ! j) p
                        else alloc_cost rid n (ms ! j))"

lemma slots_predicted:
  assumes rep: "co_rep (single_type_managers co) (co_block_pool co) xs"
    and ready: "slots_ready rid n hits has_computed local_toks ext (single_type_managers co) (co_block_pool co)"
  shows "co_get_num_blocks_to_allocate co rid n hits enc (local_toks + ext) main False =
    Inr (slots_need rid n hits has_computed local_toks ext (single_type_managers co) (co_block_pool co))"
  unfolding slots_need_def
proof (rule predict_all)
  show "\<forall>m \<in> set (single_type_managers co). plain_mgr m" using rep by (simp add: co_rep_def)
  show len: "length hits = length (single_type_managers co)" using ready by (simp add: slots_ready_def)
  fix j
  assume j: "j < length hits"
  have plain: "plain_mgr (single_type_managers co ! j)" using rep j len by (simp add: co_rep_def)
  show "base_get_num_blocks_to_allocate (single_type_managers co ! j) (co_block_pool co) rid n (hits ! j) (local_toks + ext) False =
      Inr (if has_computed \<or> 0 < ext then hit_need n (local_toks + ext) (hits ! j) (single_type_managers co ! j) (co_block_pool co)
           else alloc_cost rid n (single_type_managers co ! j))"
  proof (cases "has_computed \<or> 0 < ext")
    case True
    then have hit: "hit_ready rid local_toks (hits ! j) (single_type_managers co ! j) (co_block_pool co)" "0 \<le> ext"
      using ready j by (simp_all add: slots_ready_def)
    then have "0 \<le> local_toks + ext" using plain by (simp add: hit_ready_def plain_mgr_def spec_ok_def)
    from predict_hit [OF plain hit(1) this] True show ?thesis by (simp add: hit_need_def)
  next
    case False
    with ready j predict_running [OF plain] show ?thesis by (simp add: slots_ready_def)
  qed
qed

definition sized :: "string \<Rightarrow> int \<Rightarrow> kv_manager \<Rightarrow> kv_manager \<Rightarrow> bool" where
  "sized rid n m m' \<longleftrightarrow>
     int (length (blocks_of_req m' rid)) = max (int (length (blocks_of_req m rid))) (cdiv n (km_block_size m))"

lemma take_stage:
  assumes rep: "co_rep (single_type_managers co) (co_block_pool co) xs"
    and ready: "slots_ready rid n hits has_computed local_toks ext (single_type_managers co) (co_block_pool co)"
    and has: "has_computed \<or> 0 < ext"
    and fits: "slots_need rid n hits has_computed local_toks ext (single_type_managers co) (co_block_pool co) \<le> int (length xs)"
  shows "\<exists>ms p ys. co_allocate_new_computed_blocks co rid hits local_toks ext = Inr (with_managers co ms p) \<and> co_rep ms p ys \<and>
    related rid (\<lambda>_. hit_taken rid n) (single_type_managers co) (co_block_pool co) ms p \<and>
    (\<Sum>j < length ms. alloc_cost rid n (ms ! j)) \<le> int (length ys)"
proof (cases "ext = 0")
  case True
  with ready has fits show ?thesis
    using local_hit_stage [OF rep, of hits rid local_toks n] by (simp add: slots_ready_def slots_need_def)
next
  case False
  with ready has have len: "length hits = 1" "length (single_type_managers co) = 1" and ext: "0 \<le> ext" "local_toks + ext \<le> n"
    by (auto simp: slots_ready_def)
  then obtain m bs where one: "single_type_managers co = [m]" "hits = [bs]" by (auto simp: length_Suc_conv)
  have "hit_ready rid local_toks bs m (co_block_pool co)" using ready has one by (auto simp: slots_ready_def)
  moreover have "co_rep [m] (co_block_pool co) xs" "hit_need n (local_toks + ext) bs m (co_block_pool co) \<le> int (length xs)"
    using rep fits has one by (simp_all add: slots_need_def)
  ultimately obtain m' p ys where "co_allocate_new_computed_blocks co rid [bs] local_toks ext = Inr (with_managers co [m'] p)"
      "co_rep [m'] p ys" "related rid (\<lambda>_. hit_taken rid n) [m] (co_block_pool co) [m'] p" "alloc_cost rid n m' \<le> int (length ys)"
    using external_hit_stage [OF _ one(1) _ ext] by blast
  with one show ?thesis by (intro exI [of _ "[m']"] exI [of _ p] exI [of _ ys]) simp
qed

lemma give_stage:
  assumes rep: "co_rep (single_type_managers co) (co_block_pool co) xs"
    and ready: "slots_ready rid n hits has_computed local_toks ext (single_type_managers co) (co_block_pool co)"
    and fits: "slots_need rid n hits has_computed local_toks ext (single_type_managers co) (co_block_pool co) \<le> int (length xs)"
  shows "\<exists>new ms p ys. bindE (if has_computed \<or> 0 < ext then co_allocate_new_computed_blocks co rid hits local_toks ext else Inr co)
      (\<lambda>co2. bindE (co_allocate_new_blocks co2 rid n main enc) (\<lambda>(new_blocks, co3). Inr (Some new_blocks, co3))) =
      Inr (Some new, with_managers co ms p) \<and> co_rep ms p ys \<and>
    related rid (\<lambda>_. sized rid n) (single_type_managers co) (co_block_pool co) ms p"
proof (cases "has_computed \<or> 0 < ext")
  case True
  obtain ms1 p1 xs1 where taken: "co_allocate_new_computed_blocks co rid hits local_toks ext = Inr (with_managers co ms1 p1)"
      "co_rep ms1 p1 xs1" "related rid (\<lambda>_. hit_taken rid n) (single_type_managers co) (co_block_pool co) ms1 p1"
      "(\<Sum>j < length ms1. alloc_cost rid n (ms1 ! j)) \<le> int (length xs1)"
    using take_stage [OF rep ready True fits] by blast
  obtain new ms p ys where alloc: "co_allocate_new_blocks (with_managers co ms1 p1) rid n main enc = Inr (new, with_managers co ms p)"
      "co_rep ms p ys" "related rid (\<lambda>_ m m'. int (length (blocks_of_req m' rid)) = int (length (blocks_of_req m rid)) + alloc_cost rid n m \<and>
        num_cached_block m' rid = num_cached_block m rid) ms1 p1 ms p"
    using alloc_stage [of "with_managers co ms1 p1" xs1 rid n main enc] taken(2,4) by auto
  have "related rid (\<lambda>_. sized rid n) (single_type_managers co) (co_block_pool co) ms p"
    by (rule related_trans [OF taken(3) alloc(3)]) (auto simp: hit_taken_def sized_def alloc_cost_def mgr_static_def)
  with True taken(1) alloc show ?thesis by (intro exI [of _ new] exI [of _ ms] exI [of _ p] exI [of _ ys]) simp
next
  case False
  have "(\<Sum>j < length (single_type_managers co). alloc_cost rid n (single_type_managers co ! j)) \<le> int (length xs)"
    using fits ready False by (simp add: slots_need_def slots_ready_def)
  from alloc_stage [OF rep this, of main enc] obtain new ms p ys where
      alloc: "co_allocate_new_blocks co rid n main enc = Inr (new, with_managers co ms p)" "co_rep ms p ys"
      "related rid (\<lambda>_ m m'. int (length (blocks_of_req m' rid)) = int (length (blocks_of_req m rid)) + alloc_cost rid n m \<and>
        num_cached_block m' rid = num_cached_block m rid) (single_type_managers co) (co_block_pool co) ms p" by blast
  then have "related rid (\<lambda>_. sized rid n) (single_type_managers co) (co_block_pool co) ms p"
    by (auto simp: related_def sized_def alloc_cost_def)
  with False alloc show ?thesis by (intro exI [of _ new] exI [of _ ms] exI [of _ p] exI [of _ ys]) simp
qed

lemma reserve_ok:
  assumes rep: "co_rep (single_type_managers co) (co_block_pool co) xs"
    and ready: "slots_ready rid n hits has_computed local_toks ext (single_type_managers co) (co_block_pool co)"
  shows "\<exists>res ms p ys. reserve_slots co rid n main hits has_computed local_toks ext enc tot = Inr (res, with_managers co ms p) \<and>
    co_rep ms p ys \<and>
    related rid (\<lambda>_ m m'. if res = None then same_size rid m m' else sized rid n m m')
      (single_type_managers co) (co_block_pool co) ms p \<and>
    (\<not> has_computed \<longrightarrow> ext = 0 \<longrightarrow>
       (\<Sum>j < length hits. alloc_cost rid n (single_type_managers co ! j)) \<le> int (length xs) \<longrightarrow> res \<noteq> None)"
proof -
  obtain ms1 p1 xs1 where skip: "co_remove_skipped_blocks co rid tot = Inr (with_managers co ms1 p1)" "co_rep ms1 p1 xs1"
      "same_hashes (co_block_pool co) p1" "related rid (\<lambda>_. same_size rid) (single_type_managers co) (co_block_pool co) ms1 p1"
      "length xs \<le> length xs1"
    using skip_stage [OF rep, of rid tot] unfolding same_size_def by blast
  let ?co1 = "with_managers co ms1 p1"
  have ready1: "slots_ready rid n hits has_computed local_toks ext ms1 p1" by (rule slots_ready_kept [OF ready skip(4,3)])
  have need: "co_get_num_blocks_to_allocate ?co1 rid n hits enc (local_toks + ext) main False =
      Inr (slots_need rid n hits has_computed local_toks ext ms1 p1)"
    using slots_predicted [of ?co1 xs1] skip(2) ready1 by simp
  have free: "get_num_free_blocks p1 = int (length xs1)" using skip(2) by (simp add: co_rep_def pool_rep_count)
  show ?thesis
  proof (cases "get_num_free_blocks p1 < slots_need rid n hits has_computed local_toks ext ms1 p1")
    case True
    have "alloc_cost rid n (ms1 ! j) = alloc_cost rid n (single_type_managers co ! j)" if "j < length hits" for j
      using skip(4) ready that by (simp add: related_def slots_ready_def same_size_def mgr_frame_def mgr_static_def alloc_cost_def)
    then have "int (length xs) < (\<Sum>j < length hits. alloc_cost rid n (single_type_managers co ! j))" if "\<not> has_computed" "ext = 0"
      using True free skip(5) that by (simp add: slots_need_def)
    with True skip need show ?thesis
      by (intro exI [of _ None] exI [of _ ms1] exI [of _ p1] exI [of _ xs1]) (auto simp: reserve_slots_def)
  next
    case False
    then have fits: "slots_need rid n hits has_computed local_toks ext ms1 p1 \<le> int (length xs1)" using free by simp
    obtain new ms p ys where give: "bindE (if has_computed \<or> 0 < ext
          then co_allocate_new_computed_blocks ?co1 rid hits local_toks ext else Inr ?co1)
        (\<lambda>co2. bindE (co_allocate_new_blocks co2 rid n main enc) (\<lambda>(new_blocks, co3). Inr (Some new_blocks, co3))) =
        Inr (Some new, with_managers co ms p)" "co_rep ms p ys" "related rid (\<lambda>_. sized rid n) ms1 p1 ms p"
      using give_stage [of ?co1 xs1] skip(2) ready1 fits by fastforce
    have "related rid (\<lambda>_. sized rid n) (single_type_managers co) (co_block_pool co) ms p"
      by (rule related_trans [OF skip(4) give(3)]) (simp add: same_size_def sized_def mgr_static_def)
    with give False skip(1) need show ?thesis
      by (intro exI [of _ "Some new"] exI [of _ ms] exI [of _ p] exI [of _ ys]) (simp add: reserve_slots_def)
  qed
qed

end
