(* ===== verification/Kv_Invariant.thy ===== *)
theory Kv_Invariant
  imports Slot_Allocation
begin

text \<open>
  The invariant of the KV cache manager and its reachable states.

  \<open>kv_inv\<close> ties the tables of all managers to the reference counts and the free queue of the pool. Every
  operation of the manager keeps it; from it follow the correctness of \<open>allocate_slots\<close> and \<open>free\<close> and that no
  block is ever lost.
\<close>

section \<open>The invariant\<close>

definition mgr_conf :: "bool \<Rightarrow> block_pool \<Rightarrow> kv_manager \<Rightarrow> bool" where
  "mgr_conf caching p m \<longleftrightarrow> plain_mgr m \<and> km_enable_caching m = caching \<and>
     (caching \<longrightarrow> km_block_size m = hash_block_size p) \<and> 0 \<le> km_group_id m \<and> km_group_id m < 2 ^ 32"

abbreviation kcm_managers :: "kv_cache_manager \<Rightarrow> kv_manager list" where
  "kcm_managers k \<equiv> single_type_managers (coordinator k)"

definition kv_inv :: "kv_cache_manager \<Rightarrow> bool" where
  "kv_inv k \<longleftrightarrow> num_kv_cache_groups k = length (kcm_managers k) \<and>
     enable_caching (kcm_pool k) = kcm_enable_caching k \<and>
     (\<forall>m \<in> set (kcm_managers k). mgr_conf (kcm_enable_caching k) (kcm_pool k) m) \<and>
     (\<exists>xs. co_rep (kcm_managers k) (kcm_pool k) xs)"

abbreviation with_co :: "kv_cache_manager \<Rightarrow> kv_manager list \<Rightarrow> block_pool \<Rightarrow> kv_cache_manager" where
  "with_co k ms p \<equiv> k\<lparr>coordinator := with_managers (coordinator k) ms p\<rparr>"

lemma mgr_conf_static:
  "mgr_conf caching p m \<Longrightarrow> mgr_static m m' \<Longrightarrow> pool_static p p' \<Longrightarrow> mgr_conf caching p' m'"
  using plain_static [of m m'] by (auto simp: mgr_conf_def mgr_static_def pool_static_def)

lemma kv_inv_related:
  assumes inv: "kv_inv k" and rel: "related rid Q (kcm_managers k) (kcm_pool k) ms p" and rep: "co_rep ms p xs"
  shows "kv_inv (with_co k ms p)"
proof -
  have r: "pool_static (kcm_pool k) p" "length ms = length (kcm_managers k)"
      "\<And>j. j < length (kcm_managers k) \<Longrightarrow> mgr_static (kcm_managers k ! j) (ms ! j)"
    using rel by (simp_all add: related_def mgr_frame_def)
  have "mgr_conf (kcm_enable_caching k) p m" if m: "m \<in> set ms" for m
  proof -
    from m obtain j where j: "j < length ms" "m = ms ! j" unfolding in_set_conv_nth by blast
    then have "mgr_conf (kcm_enable_caching k) (kcm_pool k) (kcm_managers k ! j)" using inv r(2) by (simp add: kv_inv_def)
    with r j show ?thesis by (auto intro: mgr_conf_static)
  qed
  moreover have "enable_caching p = kcm_enable_caching k" using inv r(1) by (simp add: kv_inv_def pool_static_def)
  moreover have "num_kv_cache_groups k = length ms" using inv r(2) by (simp add: kv_inv_def)
  ultimately show ?thesis using rep unfolding kv_inv_def by auto
qed

section \<open>Caching\<close>

definition cacheable :: "int \<Rightarrow> request \<Rightarrow> kv_manager \<Rightarrow> bool" where
  "cacheable n r m \<longleftrightarrow> n div km_block_size m \<le> int (length (blocks_of_req m (request_id r))) \<and>
     n div km_block_size m \<le> int (length (block_hashes r))"

definition blocks_kept :: "kv_manager \<Rightarrow> kv_manager \<Rightarrow> bool" where
  "blocks_kept m m' \<longleftrightarrow> blocks_of_req m' = blocks_of_req m"

lemma cache_stage:
  assumes rep: "co_rep (single_type_managers co) (co_block_pool co) xs" and caching: "enable_caching (co_block_pool co)"
    and conf: "\<forall>m \<in> set (single_type_managers co). mgr_conf True (co_block_pool co) m \<and> cacheable n r m"
  shows "\<exists>ms p r' ys. co_cache_blocks sha co r n = Inr (with_managers co ms p, r') \<and> co_rep ms p ys \<and> memo_only r r' \<and>
    related (request_id r) (\<lambda>_. blocks_kept) (single_type_managers co) (co_block_pool co) ms p"
proof -
  let ?ms = "single_type_managers co" and ?rid = "request_id r" and ?s = "(co_block_pool co, r)"
  have pre: "cache_pre ?rid n m ?s" if "m \<in> set ?ms" for m
    using conf caching that by (auto simp: cache_pre_def mgr_conf_def cacheable_def)
  have "coord_ok ([] @ ?ms) (fst ?s)" "pool_rep (fst ?s) xs" "all_from (\<lambda>i m. cache_pre ?rid n m ?s) 0 ?ms"
      "sum_from (\<lambda>i m. 0) 0 ?ms \<le> int (length xs)"
    using rep pre by (simp_all add: co_rep_def all_from_nth sum_from_nth)
  from cache_op.run_managers [OF this, of sha] obtain ms s ys where run:
      "for_managers (cache_step sha n) 0 ?ms ?s = Inr (ms, s)" "coord_ok ms (fst s)" "pool_rep (fst s) ys"
      "all2_from (\<lambda>i m m'. (blocks_of_req m' = blocks_of_req m \<and>
         cached_upto m' ?rid = max (cached_upto m ?rid) (n div km_block_size m)) \<and> mgr_frame ?rid m m') 0 ?ms ms"
      "memo_only (snd ?s) (snd s)" "pool_static (fst ?s) (fst s)"
    by auto
  obtain p r' where s: "s = (p, r')" by (cases s)
  have "cache_step sha n = (\<lambda>_ m (p, r). bindE (manager_cache_blocks sha m p r n) (\<lambda>(m', p', r'). Inr (m', (p', r'))))"
    by (simp add: cache_step_def fun_eq_iff)
  then have "co_cache_blocks sha co r n = Inr (with_managers co ms p, r')" using run(1) by (simp add: co_cache_blocks_def s)
  moreover have rel: "related ?rid (\<lambda>_. blocks_kept) ?ms (co_block_pool co) ms p"
    using run(4,6) by (simp add: related_def all2_from_nth blocks_kept_def s)
  ultimately show ?thesis using run plain_related [OF rel] rep
    by (intro exI [of _ ms] exI [of _ p] exI [of _ r'] exI [of _ ys]) (simp add: co_rep_def s)
qed

section \<open>Allocating slots\<close>

abbreviation computed_blocks :: "kv_cache_manager \<Rightarrow> kv_cache_blocks option \<Rightarrow> kv_cache_blocks" where
  "computed_blocks k given \<equiv> (case given of None \<Rightarrow> empty_kv_cache_blocks k | Some bs \<Rightarrow> bs)"

definition need_slot :: "kv_cache_manager \<Rightarrow> request \<Rightarrow> int \<Rightarrow> int \<Rightarrow> int \<Rightarrow> int \<Rightarrow> int" where
  "need_slot k r num_new new_computed lookahead ext =
     min (num_computed_tokens r + new_computed + ext + num_new + lookahead) (kcm_max_model_len k)"

text \<open>The calls the scheduler makes.\<close>

definition slot_request ::
    "kv_cache_manager \<Rightarrow> request \<Rightarrow> int \<Rightarrow> int \<Rightarrow> kv_cache_blocks option \<Rightarrow> int \<Rightarrow> int \<Rightarrow> bool \<Rightarrow> bool" where
  "slot_request k r num_new new_computed given lookahead ext delay \<longleftrightarrow>
     (num_new \<noteq> 0 \<or> ext \<noteq> 0) \<and> 0 \<le> num_new \<and> 0 \<le> lookahead \<and>
     num_computed_tokens r + new_computed + ext \<le> kcm_max_model_len k \<and>
     slots_ready (request_id r) (need_slot k r num_new new_computed lookahead ext) (blocks_tuple (computed_blocks k given))
       (computed_blocks k given \<noteq> empty_kv_cache_blocks k) (num_computed_tokens r + new_computed) ext (kcm_managers k) (kcm_pool k) \<and>
     (kcm_enable_caching k \<and> \<not> delay \<longrightarrow>
        min (num_computed_tokens r + new_computed + ext + num_new) (num_tokens r) \<le> kcm_max_model_len k \<and>
        int (length (block_hashes r)) = num_tokens r div hash_block_size (kcm_pool k))"

lemma full_sequence_total:
  assumes inv: "kv_inv k" and ready: "slots_ready (request_id r) n hits has_computed local_toks ext (kcm_managers k) (kcm_pool k)"
  shows "\<exists>fits. full_sequence_fits k r hits enc tot = Inr fits"
proof -
  let ?n = "min (num_tokens r) (kcm_max_model_len k)"
  have len: "length hits = length (kcm_managers k)" using ready by (simp add: slots_ready_def)
  have "\<exists>c. base_get_num_blocks_to_allocate (kcm_managers k ! j) (kcm_pool k) (request_id r) ?n (hits ! j) tot True = Inr c"
    if "j < length hits" for j
  proof -
    have "num_cached_block (kcm_managers k ! j) (request_id r) = None \<or> hits ! j = []"
      using ready that by (auto simp: slots_ready_def hit_ready_def fresh_def split: if_splits)
    then show ?thesis by (auto simp: base_get_num_blocks_to_allocate_def Let_def)
  qed
  then obtain c where "\<And>j. j < length hits \<Longrightarrow>
      base_get_num_blocks_to_allocate (kcm_managers k ! j) (kcm_pool k) (request_id r) ?n (hits ! j) tot True = Inr (c j)" by metis
  moreover have "\<forall>m \<in> set (kcm_managers k). plain_mgr m" using inv by (simp add: kv_inv_def mgr_conf_def)
  ultimately have "co_get_num_blocks_to_allocate (coordinator k) (request_id r) ?n hits enc tot ?n True = Inr (\<Sum>j < length hits. c j)"
    by (intro predict_all [OF _ len]) simp_all
  then show ?thesis by (simp add: full_sequence_fits_def)
qed

lemma cacheable_sized:
  assumes "sized (request_id r) n m m'" and "mgr_static m m'" and "mgr_conf True p m" and "n' \<le> n" and "n' \<le> num_tokens r"
    and "int (length (block_hashes r)) = num_tokens r div hash_block_size p"
  shows "cacheable n' r m'"
proof -
  have b0: "0 < km_block_size m" and bs: "km_block_size m' = km_block_size m" "km_block_size m = hash_block_size p"
    using assms(2,3) by (simp_all add: mgr_conf_def plain_mgr_def spec_ok_def mgr_static_def)
  have "n' div km_block_size m \<le> n div km_block_size m" "n' div km_block_size m \<le> num_tokens r div km_block_size m"
    using assms(4,5) b0 by (simp_all add: zdiv_mono1)
  then show ?thesis using assms(1,6) bs div_le_cdiv [OF b0, of n] by (simp add: cacheable_def sized_def)
qed

lemma related_refl: "(\<And>j m. Q j m m) \<Longrightarrow> related rid Q ms p ms p"
  by (simp add: related_def mgr_frame_def)

definition slots_result :: "string \<Rightarrow> int \<Rightarrow> bool \<Rightarrow> nat \<Rightarrow> kv_manager \<Rightarrow> kv_manager \<Rightarrow> bool" where
  "slots_result rid n given j m m' \<longleftrightarrow>
     (if given then sized rid n m m' else length (blocks_of_req m' rid) = length (blocks_of_req m rid))"

lemma after_reserve:
  assumes inv: "kv_inv k"
    and res: "co_rep ms p xs" "related (request_id r) (\<lambda>_. sized (request_id r) n) (kcm_managers k) (kcm_pool k) ms p"
    and cache: "kcm_enable_caching k \<and> \<not> delay \<Longrightarrow> n' \<le> n \<and> n' \<le> num_tokens r \<and>
      int (length (block_hashes r)) = num_tokens r div hash_block_size (kcm_pool k)"
  shows "\<exists>ms' p' r'. (if \<not> kcm_enable_caching k \<or> delay then Inr (Some bs, with_co k ms p, r)
      else bindE (co_cache_blocks sha (with_managers (coordinator k) ms p) r n') (\<lambda>(co', r'). Inr (Some bs, k\<lparr>coordinator := co'\<rparr>, r'))) =
      Inr (Some bs, with_co k ms' p', r') \<and> kv_inv (with_co k ms' p') \<and> memo_only r r' \<and>
    related (request_id r) (slots_result (request_id r) n True) (kcm_managers k) (kcm_pool k) ms' p'"
proof (cases "\<not> kcm_enable_caching k \<or> delay")
  case True
  with kv_inv_related [OF inv res(2,1)] res(2) show ?thesis
    by (intro exI [of _ ms] exI [of _ p] exI [of _ r]) (simp add: related_def slots_result_def)
next
  case False
  let ?co = "with_managers (coordinator k) ms p"
  have inv1: "kv_inv (with_co k ms p)" by (rule kv_inv_related [OF inv res(2,1)])
  have n': "n' \<le> n" "n' \<le> num_tokens r" "int (length (block_hashes r)) = num_tokens r div hash_block_size (kcm_pool k)"
    using cache False by auto
  have "mgr_conf True p m \<and> cacheable n' r m" if m: "m \<in> set ms" for m
  proof -
    from m obtain j where j: "j < length ms" "m = ms ! j" unfolding in_set_conv_nth by blast
    then have "sized (request_id r) n (kcm_managers k ! j) m" "mgr_static (kcm_managers k ! j) m" "j < length (kcm_managers k)"
      using res(2) by (simp_all add: related_def mgr_frame_def)
    moreover from this have "mgr_conf True (kcm_pool k) (kcm_managers k ! j)" using inv False by (simp add: kv_inv_def)
    ultimately have "cacheable n' r m" using n' by (blast intro: cacheable_sized)
    with inv1 m False show ?thesis by (simp add: kv_inv_def)
  qed
  moreover have "enable_caching p" using inv1 False by (simp add: kv_inv_def)
  ultimately obtain ms' p' r' ys where c: "co_cache_blocks sha ?co r n' = Inr (with_managers ?co ms' p', r')" "co_rep ms' p' ys"
      "memo_only r r'" "related (request_id r) (\<lambda>_. blocks_kept) ms p ms' p'"
    using cache_stage [of ?co xs n' r sha] res(1) by auto
  have rel: "related (request_id r) (slots_result (request_id r) n True) (kcm_managers k) (kcm_pool k) ms' p'"
    by (rule related_trans [OF res(2) c(4)]) (simp add: slots_result_def sized_def blocks_kept_def)
  with c False kv_inv_related [OF inv rel c(2)] show ?thesis
    by (intro exI [of _ ms'] exI [of _ p'] exI [of _ r']) simp
qed

lemma allocate_slots_ok:
  assumes inv: "kv_inv k" and req: "slot_request k r num_new new_computed given lookahead ext delay"
    and n: "n = need_slot k r num_new new_computed lookahead ext"
  shows "\<exists>res ms p r'. allocate_slots sha k r num_new new_computed given lookahead ext delay enc full = Inr (res, with_co k ms p, r') \<and>
    kv_inv (with_co k ms p) \<and> memo_only r r' \<and>
    related (request_id r) (slots_result (request_id r) n (res \<noteq> None)) (kcm_managers k) (kcm_pool k) ms p \<and>
    (\<not> full \<longrightarrow> computed_blocks k given = empty_kv_cache_blocks k \<longrightarrow> ext = 0 \<longrightarrow>
       (\<Sum>j < length (kcm_managers k). alloc_cost (request_id r) n (kcm_managers k ! j)) \<le> get_num_free_blocks (kcm_pool k) \<longrightarrow>
       res \<noteq> None)"
proof -
  let ?rid = "request_id r" and ?hits = "blocks_tuple (computed_blocks k given)" and ?loc = "num_computed_tokens r + new_computed"
  let ?has = "computed_blocks k given \<noteq> empty_kv_cache_blocks k" and ?tot = "num_computed_tokens r + new_computed + ext"
  obtain xs where rep: "co_rep (kcm_managers k) (kcm_pool k) xs" using inv by (auto simp: kv_inv_def)
  have q: "num_new \<noteq> 0 \<or> ext \<noteq> 0" "0 \<le> num_new" "0 \<le> lookahead" "?tot \<le> kcm_max_model_len k"
      "slots_ready ?rid n ?hits ?has ?loc ext (kcm_managers k) (kcm_pool k)"
      "kcm_enable_caching k \<and> \<not> delay \<longrightarrow> min (?tot + num_new) (num_tokens r) \<le> kcm_max_model_len k \<and>
         int (length (block_hashes r)) = num_tokens r div hash_block_size (kcm_pool k)"
    using req by (simp_all add: slot_request_def n)
  have tot: "min ?tot (kcm_max_model_len k) = ?tot" using q(4) by simp
  have n': "min (?tot + num_new + lookahead) (kcm_max_model_len k) = n" by (simp add: n need_slot_def)
  obtain fits where gate: "(if full then full_sequence_fits k r ?hits enc ?tot else Inr True) = Inr fits" "\<not> full \<Longrightarrow> fits"
    using full_sequence_total [OF inv q(5), of enc ?tot] by (cases full) auto
  obtain res ms p ys where rs: "reserve_slots (coordinator k) ?rid n (?tot + num_new) ?hits ?has ?loc ext enc ?tot =
        Inr (res, with_managers (coordinator k) ms p)" "co_rep ms p ys"
      "related ?rid (\<lambda>_ m m'. if res = None then same_size ?rid m m' else sized ?rid n m m') (kcm_managers k) (kcm_pool k) ms p"
      "\<not> ?has \<longrightarrow> ext = 0 \<longrightarrow> (\<Sum>j < length ?hits. alloc_cost ?rid n (kcm_managers k ! j)) \<le> int (length xs) \<longrightarrow> res \<noteq> None"
    using reserve_ok [OF rep q(5), of "?tot + num_new" enc ?tot] by blast
  have run: "allocate_slots sha k r num_new new_computed given lookahead ext delay enc full =
      (if \<not> fits then Inr (None, k, r)
       else case res of
         None \<Rightarrow> Inr (None, with_co k ms p, r)
       | Some blocks \<Rightarrow>
           if \<not> kcm_enable_caching k \<or> delay then Inr (Some (create_kv_cache_blocks k blocks), with_co k ms p, r)
           else bindE (co_cache_blocks sha (with_managers (coordinator k) ms p) r (min (?tot + num_new) (num_tokens r)))
             (\<lambda>(co', r'). Inr (Some (create_kv_cache_blocks k blocks), k\<lparr>coordinator := co'\<rparr>, r')))"
    using q(1) gate(1) rs(1) unfolding allocate_slots_def Let_def tot n' by auto
  show ?thesis
  proof (cases "fits \<and> res \<noteq> None")
    case True
    then obtain blocks where some: "res = Some blocks" by blast
    have rel: "related ?rid (\<lambda>_. sized ?rid n) (kcm_managers k) (kcm_pool k) ms p" using rs(3) some by (simp add: related_def)
    have cache: "min (?tot + num_new) (num_tokens r) \<le> n \<and> min (?tot + num_new) (num_tokens r) \<le> num_tokens r \<and>
        int (length (block_hashes r)) = num_tokens r div hash_block_size (kcm_pool k)" if "kcm_enable_caching k \<and> \<not> delay"
      using q(3,6) that unfolding n' [symmetric] by auto
    show ?thesis
      using after_reserve [OF inv rs(2) rel cache, of delay "create_kv_cache_blocks k blocks" sha] True run some by fastforce
  next
    case False
    define ms' p' where "ms' = (if fits then ms else kcm_managers k)" and "p' = (if fits then p else kcm_pool k)"
    have rel: "related ?rid (slots_result ?rid n False) (kcm_managers k) (kcm_pool k) ms' p'"
      using rs(3) False by (cases fits) (auto simp: related_def slots_result_def same_size_def ms'_def p'_def mgr_frame_def)
    have "co_rep ms' p' (if fits then ys else xs)" using rs(2) rep by (simp add: ms'_def p'_def)
    from kv_inv_related [OF inv rel this] have inv': "kv_inv (with_co k ms' p')" .
    have "allocate_slots sha k r num_new new_computed given lookahead ext delay enc full = Inr (None, with_co k ms' p', r)"
      using run False by (cases fits) (simp_all add: ms'_def p'_def)
    moreover have "length ?hits = length (kcm_managers k)" using q(5) by (simp add: slots_ready_def)
    moreover have "get_num_free_blocks (kcm_pool k) = int (length xs)" using rep by (simp add: co_rep_def pool_rep_count)
    ultimately show ?thesis using inv' rel rs(4) gate(2) False
      by (intro exI [of _ None] exI [of _ ms'] exI [of _ p'] exI [of _ r]) auto
  qed
qed

end
