(* ===== verification/Kv_Reachable.thy ===== *)
theory Kv_Reachable
  imports Kv_Invariant
begin

text \<open>
  The states of the KV cache manager that the scheduler can reach, as a step relation over the operations of
  \<^verbatim>\<open>KVCacheManager\<close>, and the properties that hold in all of them.
\<close>

section \<open>Operations that only drop hashes\<close>

definition hash_dropped :: "block_pool \<Rightarrow> block_pool \<Rightarrow> bool" where
  "hash_dropped p p' \<longleftrightarrow> pool_static p p' \<and>
     (\<forall>b. ref_cnt (pool_heap p' b) = ref_cnt (pool_heap p b) \<and>
        (block_hash (pool_heap p' b) = block_hash (pool_heap p b) \<or> block_hash (pool_heap p' b) = None))"

lemma coord_hash_dropped:
  assumes "coord_ok ms p" and "hash_dropped p p'"
  shows "coord_ok ms p'"
proof -
  have static: "pool_static p p'" using assms(2) by (simp add: hash_dropped_def)
  have sole: "sole p b \<Longrightarrow> sole p' b" for b using assms(2) unfolding hash_dropped_def sole_def by metis
  have "hash_free p'" using assms static unfolding coord_ok_def hash_free_def hash_dropped_def pool_static_def by metis
  then show ?thesis using assms sole
    unfolding coord_ok_def mgr_wf_def tail_ok_def real_block_static [OF static] pool_block_static [OF static]
    by (auto simp: hash_dropped_def)
qed

lemma kv_inv_pool:
  assumes inv: "kv_inv k" and drop: "hash_dropped (kcm_pool k) p" and rep: "pool_rep p ys"
  shows "kv_inv (k\<lparr>coordinator := (coordinator k)\<lparr>co_block_pool := p\<rparr>\<rparr>)"
proof -
  have static: "pool_static (kcm_pool k) p" using drop by (simp add: hash_dropped_def)
  obtain xs where co: "co_rep (kcm_managers k) (kcm_pool k) xs" using inv by (auto simp: kv_inv_def)
  then have "co_rep (kcm_managers k) p ys" using coord_hash_dropped [OF _ drop] rep by (simp add: co_rep_def)
  moreover have "mgr_conf (kcm_enable_caching k) p m" if "m \<in> set (kcm_managers k)" for m
    using inv that mgr_conf_static [OF _ mgr_static_refl static] by (simp add: kv_inv_def)
  ultimately show ?thesis using inv static by (auto simp: kv_inv_def pool_static_def)
qed

lemma evict_dropped:
  assumes rep: "pool_rep p xs" and ids: "\<forall>i \<in> set ids. 0 \<le> i \<and> i < num_gpu_blocks p" and run: "evict_blocks ids p = Inr p'"
  shows "hash_dropped p p' \<and> pool_rep p' xs"
proof -
  have "pool_static p p'"
    using run unfolding evict_blocks_def
    by (rule fold_res_static) (auto simp: assertE_eq_Inr bindE_eq_Inr maybe_evict_static)
  with evict_blocks_spec [OF rep ids] run show ?thesis by (auto simp: hash_dropped_def)
qed

lemma reset_dropped:
  assumes rep: "pool_rep p xs"
  shows "hash_dropped p (snd (reset_prefix_cache p)) \<and> pool_rep (snd (reset_prefix_cache p)) xs"
proof (cases "num_gpu_blocks p - get_num_free_blocks p = 1")
  case True
  let ?p1 = "p\<lparr>cached_block_hash_to_block := Map.empty\<rparr>"
  let ?p2 = "fold (\<lambda>b p. put_heap (reset_hash (pool_heap p) b) p) (pool_blocks ?p1) ?p1"
  obtain h where h: "?p2 = put_heap h ?p1" using fold_reset_hash(2) by blast
  have "pool_static p ?p2" unfolding h by simp
  moreover have "pool_heap ?p2 b = (if b \<in> set (pool_blocks ?p1) then (pool_heap p b)\<lparr>block_hash := None\<rparr> else pool_heap p b)" for b
    by (simp add: fold_reset_hash(1))
  ultimately have "hash_dropped p ?p2" by (auto simp: hash_dropped_def)
  then have "hash_dropped p (snd (reset_prefix_cache p))"
    using True by (auto simp: reset_prefix_cache_def Let_def hash_dropped_def)
  with reset_prefix_cache_spec(2) [OF rep True] show ?thesis by blast
next
  case False
  with rep show ?thesis by (simp add: reset_prefix_cache_fails hash_dropped_def)
qed

section \<open>Operations that leave the tables alone\<close>

lemma coord_ok_map:
  assumes "\<And>m. req_to_blocks (g m) = req_to_blocks m" and "\<And>m. num_cached_block (g m) = num_cached_block m"
  shows "coord_ok (map g ms) p = coord_ok ms p"
proof -
  have "blocks_of_req (g m) = blocks_of_req m" "occ (g m) = occ m" "cached_upto (g m) = cached_upto m" for m
    using assms by (simp_all add: blocks_of_req_def occ_def cached_upto_def fun_eq_iff)
  then show ?thesis using assms by (simp add: coord_ok_def mgr_wf_def tail_ok_def occs_def comp_def)
qed

lemma kv_inv_map:
  assumes inv: "kv_inv k" and g: "\<And>m. req_to_blocks (g m) = req_to_blocks m" "\<And>m. num_cached_block (g m) = num_cached_block m"
    "\<And>m. mgr_static m (g m)"
  shows "kv_inv (k\<lparr>coordinator := (coordinator k)\<lparr>single_type_managers := map g (kcm_managers k)\<rparr>\<rparr>)"
proof -
  obtain xs where "co_rep (kcm_managers k) (kcm_pool k) xs" using inv by (auto simp: kv_inv_def)
  then have "co_rep (map g (kcm_managers k)) (kcm_pool k) xs"
    using plain_static [OF g(3)] by (auto simp: co_rep_def coord_ok_map [OF g(1,2)])
  moreover have "mgr_conf c p m \<Longrightarrow> mgr_conf c p (g m)" for c p m using mgr_conf_static [OF _ g(3) pool_static_refl] .
  ultimately show ?thesis using inv by (auto simp: kv_inv_def)
qed

section \<open>Freeing\<close>

lemma free_stage:
  assumes rep: "co_rep (single_type_managers co) (co_block_pool co) xs"
  shows "\<exists>ms p ys. co_free co rid = Inr (with_managers co ms p) \<and> co_rep ms p ys \<and> same_hashes (co_block_pool co) p \<and>
    related rid (\<lambda>_ m m'. blocks_of_req m' rid = [] \<and> num_cached_block m' rid = None)
      (single_type_managers co) (co_block_pool co) ms p"
proof -
  let ?ms = "single_type_managers co" and ?p = "co_block_pool co"
  have "coord_ok ([] @ ?ms) ?p" "pool_rep ?p xs" "all_from (\<lambda>i m. plain_mgr m) 0 ?ms" "sum_from (\<lambda>i m. 0) 0 ?ms \<le> int (length xs)"
    using rep by (simp_all add: co_rep_def all_from_nth sum_from_nth)
  from free_op.run_managers [OF this, of rid] obtain ms p ys where run:
      "for_managers (\<lambda>_ m p. manager_free m p rid) 0 ?ms ?p = Inr (ms, p)" "coord_ok ms p" "pool_rep p ys"
      "all2_from (\<lambda>i m m'. (blocks_of_req m' rid = [] \<and> num_cached_block m' rid = None) \<and> mgr_frame rid m m') 0 ?ms ms"
      "same_hashes ?p p" "pool_static ?p p"
    by auto
  note rel = run_related [OF run(4,6)]
  with run plain_related [OF rel] rep show ?thesis
    by (intro exI [of _ ms] exI [of _ p] exI [of _ ys]) (simp add: co_free_def update_managers_def co_rep_def)
qed

lemma kcm_free_ok:
  assumes inv: "kv_inv k"
  obtains ms p where "kcm_free k r = Inr (with_co k ms p)" and "kv_inv (with_co k ms p)" and "same_hashes (kcm_pool k) p"
    and "related (request_id r) (\<lambda>_ m m'. blocks_of_req m' (request_id r) = [] \<and> num_cached_block m' (request_id r) = None)
      (kcm_managers k) (kcm_pool k) ms p"
proof -
  obtain xs where rep: "co_rep (kcm_managers k) (kcm_pool k) xs" using inv by (auto simp: kv_inv_def)
  obtain ms p ys where f: "co_free (coordinator k) (request_id r) = Inr (with_managers (coordinator k) ms p)" "co_rep ms p ys"
      "same_hashes (kcm_pool k) p" "related (request_id r) (\<lambda>_ m m'. blocks_of_req m' (request_id r) = [] \<and>
        num_cached_block m' (request_id r) = None) (kcm_managers k) (kcm_pool k) ms p"
    using free_stage [OF rep, of "request_id r"] by blast
  show thesis
    by (rule that [OF _ kv_inv_related [OF inv f(4,2)] f(3,4)]) (simp add: kcm_free_def f(1))
qed

section \<open>Construction\<close>

fun attention_spec :: "spec_class \<Rightarrow> bool" where
  "attention_spec FullAttentionSpec = True"
| "attention_spec TQFullAttentionSpec = True"
| "attention_spec MLAAttentionSpec = True"
| "attention_spec (SlidingWindowSpec w) = (0 < w)"
| "attention_spec (SlidingWindowMLASpec w) = (0 < w)"
| "attention_spec (ChunkedLocalAttentionSpec c) = (0 < c)"
| "attention_spec _ = False"

text \<open>
  Models whose layers all compute attention, with the block size of the hashes in every group if prefix
  caching is enabled.
\<close>

definition config_ok :: "kv_cache_config \<Rightarrow> bool \<Rightarrow> int \<Rightarrow> int \<Rightarrow> int \<Rightarrow> bool" where
  "config_ok cfg caching hash_size dcp pcp \<longleftrightarrow>
     0 < dcp \<and> 0 < pcp \<and> int (length (kv_cache_groups cfg)) \<le> 2 ^ 32 \<and>
     (\<forall>g \<in> set (kv_cache_groups cfg). attention_spec (spec_class (kv_cache_spec_of g)) \<and>
        0 < block_size (kv_cache_spec_of g) \<and> (caching \<longrightarrow> block_size (kv_cache_spec_of g) * (dcp * pcp) = hash_size))"

lemma new_manager_conf:
  assumes "attention_spec (spec_class spec)" and "0 < block_size spec" and "0 < dcp * pcp"
    and "caching \<Longrightarrow> block_size spec * (dcp * pcp) = hash_block_size p" and "0 \<le> i" "i < 2 ^ 32"
  shows "mgr_conf caching p (new_manager (spec_manager_map (spec_class spec)) spec caching i dcp pcp cap)"
proof -
  let ?m = "new_manager (spec_manager_map (spec_class spec)) spec caching i dcp pcp cap"
  have one: "dcp * pcp = 1" if "\<not> 1 < dcp * pcp" using assms(3) that by linarith
  have size: "km_block_size ?m = block_size spec * (dcp * pcp)"
    by (cases "1 < dcp * pcp") (simp_all add: new_manager_def one)
  have rest: "km_spec ?m = spec" "km_class ?m = spec_manager_map (spec_class spec)" "km_enable_caching ?m = caching" "km_group_id ?m = i"
    by (simp_all add: new_manager_def)
  have "0 < km_block_size ?m" using size assms(2,3) by simp
  then have "plain_mgr ?m" unfolding plain_mgr_def spec_ok_def rest using assms(1) by (cases "spec_class spec") simp_all
  with assms(4-6) show ?thesis unfolding mgr_conf_def rest size by simp
qed

definition empty_manager :: "kv_manager \<Rightarrow> bool" where
  "empty_manager m \<longleftrightarrow> req_to_blocks m = [] \<and> num_cached_block m = Map.empty"

lemma init_managers_conf:
  assumes "0 < dcp * pcp" and "0 \<le> i" and "i + int (length gs) \<le> 2 ^ 32"
    and "\<forall>g \<in> set gs. attention_spec (spec_class (kv_cache_spec_of g)) \<and> 0 < block_size (kv_cache_spec_of g) \<and>
       (caching \<longrightarrow> block_size (kv_cache_spec_of g) * (dcp * pcp) = hash_block_size p)"
  shows "\<exists>ms. init_managers mb ml caching dcp pcp i gs p = Inr (ms, p) \<and> length ms = length gs \<and>
    (\<forall>m \<in> set ms. mgr_conf caching p m \<and> empty_manager m)"
  using assms(2-4)
proof (induction gs arbitrary: i)
  case (Cons g gs)
  let ?spec = "kv_cache_spec_of g"
  let ?m = "new_manager (spec_manager_map (spec_class ?spec)) ?spec caching i dcp pcp
      (max_admission_blocks_per_request ?spec mb ml)"
  have spec: "attention_spec (spec_class ?spec)" "0 < block_size ?spec"
      "caching \<longrightarrow> block_size ?spec * (dcp * pcp) = hash_block_size p" using Cons.prems(3) by simp_all
  have "spec_manager_map (spec_class ?spec) \<noteq> SinkFullAttentionManager" using spec(1) by (cases "spec_class ?spec") simp_all
  then have one: "get_manager_for_kv_cache_spec ?spec mb ml caching i dcp pcp p = Inr (?m, p)"
    by (simp add: get_manager_for_kv_cache_spec_def Let_def)
  have "mgr_conf caching p ?m"
    using spec Cons.prems by (intro new_manager_conf [OF spec(1,2) assms(1)]) auto
  moreover have "empty_manager ?m" by (simp add: empty_manager_def new_manager_def)
  moreover obtain ms where "init_managers mb ml caching dcp pcp (i + 1) gs p = Inr (ms, p)" "length ms = length gs"
      "\<forall>m \<in> set ms. mgr_conf caching p m \<and> empty_manager m"
    using Cons.IH [of "i + 1"] Cons.prems by auto
  ultimately show ?case using one by (intro exI [of _ "?m # ms"]) simp
qed simp

lemma empty_coord_ok:
  assumes "\<forall>m \<in> set ms. empty_manager m" and "hash_free p" and "\<And>b. real_block p b \<Longrightarrow> ref_cnt (pool_heap p b) = 0"
  shows "coord_ok ms p"
proof -
  have "occs ms b = 0" for b using assms(1) by (induction ms) (auto simp: empty_manager_def occ_def)
  then show ?thesis using assms
    by (auto simp: coord_ok_def mgr_wf_def tail_ok_def empty_manager_def blocks_of_req_def cached_upto_def)
qed

lemma coordinator_parts:
  assumes "get_kv_cache_coordinator cfg ml mb use_eagle caching use_events dcp pcp hash_size use_int = Inr co"
  shows "\<exists>p0 ms p. init_block_pool (cfg_num_blocks cfg) caching hash_size use_events use_int = Inr p0 \<and>
    init_managers mb ml caching dcp pcp 0 (kv_cache_groups cfg) p0 = Inr (ms, p) \<and>
    single_type_managers co = ms \<and> co_block_pool co = p"
  using assms
  by (auto simp: get_kv_cache_coordinator_def init_coordinator_def init_unitary_def init_hybrid_def verify_and_split_kv_cache_groups_def
      bindE_eq_Inr assertE_eq_Inr Let_def split: if_splits)

lemma kv_inv_init:
  assumes run: "init_kv_cache_manager cfg ml hash_size mb caching use_eagle stats use_events dcp pcp use_int = Inr k"
    and cfg: "config_ok cfg caching hash_size dcp pcp"
  shows "kv_inv k"
proof -
  obtain co where co: "get_kv_cache_coordinator cfg ml (case mb of None \<Rightarrow> ml | Some n \<Rightarrow> n) use_eagle caching use_events dcp pcp hash_size use_int = Inr co"
      "coordinator k = co" "kcm_enable_caching k = caching" "num_kv_cache_groups k = length (kv_cache_groups cfg)"
    using run by (auto simp: init_kv_cache_manager_def bindE_eq_Inr)
  obtain p0 ms p where parts: "init_block_pool (cfg_num_blocks cfg) caching hash_size use_events use_int = Inr p0"
      "init_managers (case mb of None \<Rightarrow> ml | Some n \<Rightarrow> n) ml caching dcp pcp 0 (kv_cache_groups cfg) p0 = Inr (ms, p)"
      "single_type_managers co = ms" "co_block_pool co = p"
    using coordinator_parts [OF co(1)] by blast
  have "0 < cfg_num_blocks cfg" using parts(1) by (auto simp: init_block_pool_def assertE_eq_Inr)
  from init_block_pool_rep [OF this, of caching hash_size use_events use_int] parts(1)
  have p0: "pool_rep p0 (map Blk [1..<nat (cfg_num_blocks cfg)])" "num_gpu_blocks p0 = cfg_num_blocks cfg"
      "enable_caching p0 = caching" "hash_block_size p0 = hash_size" "\<forall>i. block_hash (pool_heap p0 (Blk i)) = None"
    by auto
  have ws: "0 < dcp * pcp" using cfg by (simp add: config_ok_def)
  have gs: "\<forall>g \<in> set (kv_cache_groups cfg). attention_spec (spec_class (kv_cache_spec_of g)) \<and> 0 < block_size (kv_cache_spec_of g) \<and>
      (caching \<longrightarrow> block_size (kv_cache_spec_of g) * (dcp * pcp) = hash_block_size p0)"
    using cfg p0(4) by (simp add: config_ok_def)
  have len: "(0 :: int) + int (length (kv_cache_groups cfg)) \<le> 2 ^ 32" using cfg by (simp add: config_ok_def)
  have ms: "p = p0" "length ms = length (kv_cache_groups cfg)" "\<forall>m \<in> set ms. mgr_conf caching p0 m \<and> empty_manager m"
    using init_managers_conf [OF ws order_refl len gs, of "case mb of None \<Rightarrow> ml | Some n \<Rightarrow> n" ml] parts(2) by auto
  have "ref_cnt (pool_heap p0 b) = 0" if b: "real_block p0 b" for b
  proof -
    have "b \<in> set (map Blk [1..<nat (cfg_num_blocks cfg)])" using b p0(2) by (auto simp: real_block_def)
    then show ?thesis using free_list_real [OF p0(1)] by blast
  qed
  moreover have "hash_free p0" using p0(5) by (simp add: hash_free_def)
  ultimately have "coord_ok ms p0" using ms(3) by (intro empty_coord_ok) auto
  then have "co_rep ms p0 (map Blk [1..<nat (cfg_num_blocks cfg)])" using p0(1) ms(3) by (auto simp: co_rep_def mgr_conf_def)
  then show ?thesis using co parts ms p0(3) by (auto simp: kv_inv_def)
qed

section \<open>Reachable states\<close>

inductive kv_step :: "kv_cache_manager \<Rightarrow> kv_cache_manager \<Rightarrow> bool" where
  allocate: "slot_request k r num_new new_computed given lookahead ext delay \<Longrightarrow>
    allocate_slots sha k r num_new new_computed given lookahead ext delay enc full = Inr (res, k', r') \<Longrightarrow> kv_step k k'"
| free: "kcm_free k r = Inr k' \<Longrightarrow> kv_step k k'"
| skip: "kcm_remove_skipped_blocks k rid tot = Inr k' \<Longrightarrow> kv_step k k'"
| cache: "\<forall>m \<in> set (kcm_managers k). cacheable n r m \<Longrightarrow> kcm_cache_blocks sha k r n = Inr (k', r') \<Longrightarrow> kv_step k k'"
| evict: "\<forall>i \<in> set ids. 0 \<le> i \<and> i < num_gpu_blocks (kcm_pool k) \<Longrightarrow> kcm_evict_blocks k ids = Inr k' \<Longrightarrow> kv_step k k'"
| reset: "kcm_reset_prefix_cache k = Inr (done_reset, k') \<Longrightarrow> kv_step k k'"
| publish: "kv_step k (snd (kcm_take_events k))"
| zeroing: "kv_step k (snd (kcm_take_new_block_ids k))"
| new_step: "kv_step k (kcm_new_step_starts k)"
| lookup: "get_computed_blocks k r = Some (Inr (bs, n, k')) \<Longrightarrow> kv_step k k'"
| stats: "kv_step k (snd (make_prefix_cache_stats k))"

inductive kv_reachable :: "kv_cache_manager \<Rightarrow> bool" where
  start: "config_ok cfg caching hash_size dcp pcp \<Longrightarrow>
    init_kv_cache_manager cfg ml hash_size mb caching use_eagle stats use_events dcp pcp use_int = Inr k \<Longrightarrow> kv_reachable k"
| step: "kv_reachable k \<Longrightarrow> kv_step k k' \<Longrightarrow> kv_reachable k'"

lemma kv_inv_stats [simp]: "kv_inv (k\<lparr>prefix_cache_stats := st\<rparr>) = kv_inv k"
  by (simp add: kv_inv_def)

lemma hash_dropped_refl [simp]: "hash_dropped p p"
  by (simp add: hash_dropped_def)

lemma reset_kv_inv:
  assumes inv: "kv_inv k" and run: "kcm_reset_prefix_cache k = Inr (d, k')"
  shows "kv_inv k'"
proof -
  obtain xs where "pool_rep (kcm_pool k) xs" using inv by (auto simp: kv_inv_def co_rep_def)
  from reset_dropped [OF this] kv_inv_pool [OF inv]
  have inv': "kv_inv (k\<lparr>coordinator := (coordinator k)\<lparr>co_block_pool := snd (reset_prefix_cache (kcm_pool k))\<rparr>\<rparr>)" by blast
  show ?thesis
    using run inv' unfolding kcm_reset_prefix_cache_def
    by (cases "reset_prefix_cache (kcm_pool k)") (auto simp: Let_def split: bool.splits if_splits option.splits)
qed

lemma cache_kv_inv:
  assumes inv: "kv_inv k" and ok: "\<forall>m \<in> set (kcm_managers k). cacheable n r m" and run: "kcm_cache_blocks sha k r n = Inr (k', r')"
  shows "kv_inv k'"
proof (cases "kcm_enable_caching k")
  case True
  obtain xs where rep: "co_rep (kcm_managers k) (kcm_pool k) xs" using inv by (auto simp: kv_inv_def)
  have "enable_caching (kcm_pool k)" "\<forall>m \<in> set (kcm_managers k). mgr_conf True (kcm_pool k) m \<and> cacheable n r m"
    using inv ok True by (auto simp: kv_inv_def)
  from cache_stage [OF rep this, of sha] obtain ms p r1 ys where
      c: "co_cache_blocks sha (coordinator k) r n = Inr (with_managers (coordinator k) ms p, r1)" "co_rep ms p ys"
      "related (request_id r) (\<lambda>_. blocks_kept) (kcm_managers k) (kcm_pool k) ms p" by blast
  have "k' = with_co k ms p" using run c(1) True by (simp add: kcm_cache_blocks_def)
  with kv_inv_related [OF inv c(3,2)] show ?thesis by simp
qed (use run inv in \<open>simp add: kcm_cache_blocks_def\<close>)

lemma lookup_kv_inv:
  assumes inv: "kv_inv k" and run: "get_computed_blocks k r = Some (Inr (bs, n, k'))"
  shows "kv_inv k'"
proof (cases "\<not> kcm_enable_caching k \<or> skip_reading_prefix_cache r")
  case False
  with run obtain hits m where "record_lookup r m k = Inr k'"
    by (auto simp: get_computed_blocks_def bindE_eq_Inr)
  with inv show ?thesis by (auto simp: record_lookup_def split: if_splits option.splits)
qed (use run inv in \<open>simp add: get_computed_blocks_def\<close>)

lemma kv_step_inv:
  assumes "kv_step k k'" and inv: "kv_inv k"
  shows "kv_inv k'"
  using assms(1)
proof cases
  case (allocate r num_new new_computed given lookahead ext delay sha enc full res r')
  from allocate_slots_ok [OF inv allocate(1) refl, of sha enc full] allocate(2) show ?thesis by auto
next
  case (free r)
  then show ?thesis using kcm_free_ok [OF inv, of r] by (metis Inr_inject)
next
  case (skip rid tot)
  obtain xs where rep: "co_rep (kcm_managers k) (kcm_pool k) xs" using inv by (auto simp: kv_inv_def)
  obtain ms p ys Q where "co_remove_skipped_blocks (coordinator k) rid tot = Inr (with_managers (coordinator k) ms p)" "co_rep ms p ys"
      "related rid Q (kcm_managers k) (kcm_pool k) ms p"
    using skip_stage [OF rep, of rid tot] by blast
  with skip kv_inv_related [OF inv] show ?thesis by (auto simp: kcm_remove_skipped_blocks_def)
next
  case (evict ids)
  obtain xs where rep: "pool_rep (kcm_pool k) xs" using inv by (auto simp: kv_inv_def co_rep_def)
  from evict(2) obtain p where p: "evict_blocks ids (kcm_pool k) = Inr p" "k' = k\<lparr>coordinator := (coordinator k)\<lparr>co_block_pool := p\<rparr>\<rparr>"
    by (auto simp: kcm_evict_blocks_def bindE_eq_Inr)
  with evict_dropped [OF rep evict(1) p(1)] kv_inv_pool [OF inv] show ?thesis by blast
next
  case publish
  obtain xs where rep: "pool_rep (kcm_pool k) xs" using inv by (auto simp: kv_inv_def co_rep_def)
  then have "hash_dropped (kcm_pool k) (snd (take_kv_events (kcm_pool k))) \<and> pool_rep (snd (take_kv_events (kcm_pool k))) xs"
    by (auto simp: take_kv_events_def hash_dropped_def pool_rep_event)
  with kv_inv_pool [OF inv] publish show ?thesis by (auto simp: kcm_take_events_def split: prod.splits)
next
  case zeroing
  have "kv_inv (k\<lparr>coordinator := (coordinator k)\<lparr>single_type_managers := map (snd \<circ> take_new_block_ids) (kcm_managers k)\<rparr>\<rparr>)"
    by (rule kv_inv_map [OF inv]) (simp_all add: take_new_block_ids_def mgr_static_def)
  with zeroing show ?thesis by (simp add: kcm_take_new_block_ids_def Let_def comp_def)
next
  case new_step
  have "kv_inv (k\<lparr>coordinator := (coordinator k)\<lparr>single_type_managers := map new_step_starts (kcm_managers k)\<rparr>\<rparr>)"
    by (rule kv_inv_map [OF inv]) (simp_all add: new_step_starts_def mgr_static_def)
  with new_step show ?thesis by (simp add: kcm_new_step_starts_def co_new_step_starts_def)
next
  case stats
  with inv show ?thesis by (simp add: make_prefix_cache_stats_def)
qed (use inv reset_kv_inv cache_kv_inv lookup_kv_inv in blast)+

lemma kv_reachable_inv: "kv_reachable k \<Longrightarrow> kv_inv k"
  by (induction rule: kv_reachable.induct) (auto intro: kv_inv_init kv_step_inv)

end
