(* ===== verification/Kv_Properties.thy ===== *)
theory Kv_Properties
  imports Kv_Reachable
begin

text \<open>
  What the KV cache manager guarantees to the scheduler: no block is lost or shared by accident in a
  reachable state, \<open>allocate_slots\<close> gives a request exactly the blocks it needs or changes nothing visible,
  and \<open>free\<close> returns everything a request held.
\<close>

section \<open>Blocks in the tables\<close>

definition in_tables :: "kv_cache_manager \<Rightarrow> ref \<Rightarrow> bool" where
  "in_tables k b \<longleftrightarrow> (\<exists>m \<in> set (kcm_managers k). \<exists>rid. b \<in> set (blocks_of_req m rid))"

lemma count_list_pos: "0 < count_list xs b \<longleftrightarrow> b \<in> set xs"
  using count_list_0_iff [of xs b] by auto

lemma occ_pos_iff:
  assumes "distinct (map fst (req_to_blocks m))"
  shows "0 < occ m b \<longleftrightarrow> (\<exists>rid. b \<in> set (blocks_of_req m rid))"
proof
  assume "\<exists>rid. b \<in> set (blocks_of_req m rid)"
  then obtain rid where "0 < count_list (blocks_of_req m rid) b" by (auto simp: count_list_pos)
  with occ_ge_count [OF assms, of rid b] show "0 < occ m b" by linarith
next
  assume pos: "0 < occ m b"
  show "\<exists>rid. b \<in> set (blocks_of_req m rid)"
  proof (rule ccontr)
    assume "\<not> ?thesis"
    then have "occ m b = (\<Sum>r \<in> fst ` set (req_to_blocks m). 0)"
      unfolding occ_sum [OF assms finite_imageI [OF finite_set] order_refl] by (intro sum.cong) auto
    with pos show False by simp
  qed
qed

lemma occs_pos_iff: "0 < occs ms b \<longleftrightarrow> (\<exists>m \<in> set ms. 0 < occ m b)"
proof (induction ms)
  case (Cons m ms)
  show ?case using Cons occ_nonneg [of m b] occs_nonneg [of ms b] by auto
qed simp

lemma held_iff_in_tables:
  assumes "coord_ok (kcm_managers k) (kcm_pool k)" and "real_block (kcm_pool k) b"
  shows "0 < ref_cnt (pool_heap (kcm_pool k) b) \<longleftrightarrow> in_tables k b"
proof -
  have "distinct (map fst (req_to_blocks m))" if "m \<in> set (kcm_managers k)" for m
    using assms(1) that by (simp add: coord_ok_def mgr_wf_def)
  then have "(\<exists>m \<in> set (kcm_managers k). 0 < occ m b) \<longleftrightarrow> in_tables k b"
    unfolding in_tables_def by (intro bex_cong refl occ_pos_iff) simp
  moreover have "ref_cnt (pool_heap (kcm_pool k) b) = occs (kcm_managers k) b" using assms by (simp add: coord_ok_def)
  ultimately show ?thesis by (simp only: occs_pos_iff)
qed

section \<open>No block is lost\<close>

lemma kv_inv_counts:
  assumes "kv_inv k"
  obtains xs where "pool_rep (kcm_pool k) xs" and "coord_ok (kcm_managers k) (kcm_pool k)"
    and "used_blocks (kcm_pool k) = {b. real_block (kcm_pool k) b \<and> in_tables k b}"
    and "get_remaining_free_blocks k + int (card {b. real_block (kcm_pool k) b \<and> in_tables k b}) = num_gpu_blocks (kcm_pool k) - 1"
proof -
  obtain xs where rep: "coord_ok (kcm_managers k) (kcm_pool k)" "pool_rep (kcm_pool k) xs"
    using assms by (auto simp: kv_inv_def co_rep_def)
  have used: "used_blocks (kcm_pool k) = {b. real_block (kcm_pool k) b \<and> in_tables k b}"
    using held_iff_in_tables [OF rep(1)] unfolding used_blocks_def by blast
  show thesis
    using that [OF rep(2,1) used] pool_rep_conservation [OF rep(2)] by (simp add: get_remaining_free_blocks_def used)
qed

section \<open>A concrete manager\<close>

definition example_manager :: "kv_cache_manager res" where
  "example_manager = init_kv_cache_manager (example_config [FullAttentionSpec, SlidingWindowSpec 32] 8) 128 16 None
     True False False False 1 1 False"

lemma example_manager_check:
  "case example_manager of Inl _ \<Rightarrow> False
   | Inr k \<Rightarrow> length (kcm_managers k) = 2 \<and> list_all (\<lambda>m. req_to_blocks m = [] \<and> km_block_size m = 16) (kcm_managers k) \<and>
       kcm_max_model_len k = 128 \<and> kcm_enable_caching k \<and> num_kv_cache_groups k = 2 \<and> num_gpu_blocks (kcm_pool k) = 8 \<and>
       hash_block_size (kcm_pool k) = 16 \<and> get_num_free_blocks (kcm_pool k) = 7"
  by code_simp

lemma example_manager_state:
  obtains k where "example_manager = Inr k" and "kv_reachable k" and "length (kcm_managers k) = 2"
    and "\<And>j rid. j < 2 \<Longrightarrow> blocks_of_req (kcm_managers k ! j) rid = [] \<and> km_block_size (kcm_managers k ! j) = 16"
    and "kcm_max_model_len k = 128" and "kcm_enable_caching k" and "num_kv_cache_groups k = 2"
    and "num_gpu_blocks (kcm_pool k) = 8" and "hash_block_size (kcm_pool k) = 16" and "get_num_free_blocks (kcm_pool k) = 7"
proof -
  obtain k where k: "example_manager = Inr k" using example_manager_check by (auto split: sum.splits)
  note facts = example_manager_check [unfolded k sum.case]
  have "config_ok (example_config [FullAttentionSpec, SlidingWindowSpec 32] 8) True 16 1 1"
    by (simp add: config_ok_def example_config_def)
  then have reach: "kv_reachable k" using k unfolding example_manager_def by (rule kv_reachable.start)
  have tables: "blocks_of_req (kcm_managers k ! j) rid = [] \<and> km_block_size (kcm_managers k ! j) = 16" if "j < 2" for j rid
    using facts that by (simp add: list_all_length blocks_of_req_def)
  show thesis by (rule that [OF k reach _ tables]) (use facts in simp_all)
qed

text \<open>
  C1. No leak and no double use. In every state the KV cache manager can reach from its construction, by
  allocating, freeing, trimming, caching, evicting, resetting and looking up in any order, the reference
  count of every block is the number of entries for it in the tables of all groups; the free queue holds
  exactly the blocks that stand in no table, each once; and the free blocks and the blocks in tables
  together are all blocks but the null block.
\<close>

theorem reachable_manager_loses_no_block:
  assumes "kv_reachable k"
  shows "(\<forall>b. real_block (kcm_pool k) b \<longrightarrow> ref_cnt (pool_heap (kcm_pool k) b) = occs (kcm_managers k) b) \<and>
    (\<exists>xs. get_all_free_blocks (free_block_queue (kcm_pool k)) = Some (Inr xs) \<and> distinct xs \<and>
       set xs = {b. real_block (kcm_pool k) b \<and> \<not> in_tables k b}) \<and>
    get_remaining_free_blocks k + int (card {b. real_block (kcm_pool k) b \<and> in_tables k b}) = num_gpu_blocks (kcm_pool k) - 1"
proof -
  obtain xs where rep: "pool_rep (kcm_pool k) xs" "coord_ok (kcm_managers k) (kcm_pool k)"
      "get_remaining_free_blocks k + int (card {b. real_block (kcm_pool k) b \<and> in_tables k b}) = num_gpu_blocks (kcm_pool k) - 1"
    by (rule kv_inv_counts [OF kv_reachable_inv [OF assms]])
  have nn: "0 \<le> ref_cnt (pool_heap (kcm_pool k) b)" if "real_block (kcm_pool k) b" for b
    using rep(2) that by (simp add: coord_ok_def occs_nonneg)
  have zero: "ref_cnt (pool_heap (kcm_pool k) b) = 0 \<longleftrightarrow> \<not> in_tables k b" if "real_block (kcm_pool k) b" for b
    using held_iff_in_tables [OF rep(2) that] nn [OF that] by linarith
  have "set xs = unused_blocks (kcm_pool k)" using rep(1) by (simp add: pool_rep_def)
  then have "set xs = {b. real_block (kcm_pool k) b \<and> \<not> in_tables k b}"
    using zero unfolding unused_blocks_def by blast
  moreover have "get_all_free_blocks (free_block_queue (kcm_pool k)) = Some (Inr xs)"
    using rep(1) by (simp add: pool_rep_def pool_core_def get_all_free_blocks_rep)
  moreover have "distinct xs" by (rule pool_rep_distinct [OF rep(1)])
  moreover have "\<forall>b. real_block (kcm_pool k) b \<longrightarrow> ref_cnt (pool_heap (kcm_pool k) b) = occs (kcm_managers k) b"
    using rep(2) unfolding coord_ok_def by blast
  ultimately show ?thesis using rep(3) by blast
qed

theorem reachable_manager_loses_no_block_witness:
  "\<exists>k. example_manager = Inr k \<and>
     get_remaining_free_blocks k + int (card {b. real_block (kcm_pool k) b \<and> in_tables k b}) = 7 \<and>
     (\<exists>xs. get_all_free_blocks (free_block_queue (kcm_pool k)) = Some (Inr xs) \<and> distinct xs)"
proof -
  obtain k where k: "example_manager = Inr k" "kv_reachable k" "num_gpu_blocks (kcm_pool k) = 8"
    by (rule example_manager_state)
  from reachable_manager_loses_no_block [OF k(2)] k(1,3) show ?thesis by (intro exI [of _ k]) auto
qed

section \<open>Allocating and freeing\<close>

text \<open>The tables of every request but one.\<close>

definition others_kept :: "string \<Rightarrow> kv_cache_manager \<Rightarrow> kv_cache_manager \<Rightarrow> bool" where
  "others_kept rid k k' \<longleftrightarrow> length (kcm_managers k') = length (kcm_managers k) \<and>
     (\<forall>j < length (kcm_managers k). \<forall>rid'. rid' \<noteq> rid \<longrightarrow>
        blocks_of_req (kcm_managers k' ! j) rid' = blocks_of_req (kcm_managers k ! j) rid')"

lemma related_others: "related rid Q (kcm_managers k) (kcm_pool k) ms p \<Longrightarrow> others_kept rid k (with_co k ms p)"
  by (simp add: related_def mgr_frame_def others_kept_def)

text \<open>
  C2. \<^verbatim>\<open>allocate_slots\<close> is correct. Called the way the scheduler calls it on a reachable manager, it raises
  nothing and leaves a reachable manager and the tables of every other request as they were. If it returns
  blocks, the request then has in every group as many blocks as the slots asked for take, or keeps more if
  it had more; if it returns \<^verbatim>\<open>None\<close>, its tables have the length they had. A running request that asks for no
  admission check gets its blocks whenever the blocks it misses in all groups do not exceed the free ones.
\<close>

theorem allocate_slots_correct:
  assumes "kv_reachable k" and "slot_request k r num_new new_computed given lookahead ext delay"
    and "n = need_slot k r num_new new_computed lookahead ext"
  shows "\<exists>res k' r'. allocate_slots sha k r num_new new_computed given lookahead ext delay enc full = Inr (res, k', r') \<and>
    kv_reachable k' \<and> others_kept (request_id r) k k' \<and>
    (\<forall>j < length (kcm_managers k). int (length (blocks_of_req (kcm_managers k' ! j) (request_id r))) =
       (if res = None then int (length (blocks_of_req (kcm_managers k ! j) (request_id r)))
        else max (int (length (blocks_of_req (kcm_managers k ! j) (request_id r)))) (cdiv n (km_block_size (kcm_managers k ! j))))) \<and>
    (\<not> full \<longrightarrow> computed_blocks k given = empty_kv_cache_blocks k \<longrightarrow> ext = 0 \<longrightarrow>
       (\<Sum>j < length (kcm_managers k). alloc_cost (request_id r) n (kcm_managers k ! j)) \<le> get_remaining_free_blocks k \<longrightarrow>
       res \<noteq> None)"
proof -
  let ?rid = "request_id r"
  obtain res ms p r' where run: "allocate_slots sha k r num_new new_computed given lookahead ext delay enc full = Inr (res, with_co k ms p, r')"
      "related ?rid (slots_result ?rid n (res \<noteq> None)) (kcm_managers k) (kcm_pool k) ms p"
      "\<not> full \<longrightarrow> computed_blocks k given = empty_kv_cache_blocks k \<longrightarrow> ext = 0 \<longrightarrow>
       (\<Sum>j < length (kcm_managers k). alloc_cost ?rid n (kcm_managers k ! j)) \<le> get_num_free_blocks (kcm_pool k) \<longrightarrow> res \<noteq> None"
    using allocate_slots_ok [OF kv_reachable_inv [OF assms(1)] assms(2,3), of sha enc full] by blast
  have "kv_reachable (with_co k ms p)" by (rule kv_reachable.step [OF assms(1) kv_step.allocate [OF assms(2) run(1)]])
  moreover note related_others [OF run(2)]
  moreover have "int (length (blocks_of_req (ms ! j) ?rid)) =
       (if res = None then int (length (blocks_of_req (kcm_managers k ! j) ?rid))
        else max (int (length (blocks_of_req (kcm_managers k ! j) ?rid))) (cdiv n (km_block_size (kcm_managers k ! j))))"
    if "j < length (kcm_managers k)" for j
    using run(2) that by (cases res) (simp_all add: related_def slots_result_def sized_def)
  ultimately show ?thesis using run(1,3)
    by (intro exI [of _ res] exI [of _ "with_co k ms p"] exI [of _ r']) (simp add: get_remaining_free_blocks_def)
qed

lemma example_slot_request:
  assumes "length (kcm_managers k) = 2" "\<And>j rid. j < 2 \<Longrightarrow> blocks_of_req (kcm_managers k ! j) rid = [] \<and> km_block_size (kcm_managers k ! j) = 16"
    and "kcm_max_model_len k = 128" "num_kv_cache_groups k = 2" "hash_block_size (kcm_pool k) = 16"
  shows "slot_request k (plain_request 0 ''a'' [5, 6, 7]) 3 0 None 0 0 False"
    and "need_slot k (plain_request 0 ''a'' [5, 6, 7]) 3 0 0 0 = 3"
  using assms by (auto simp: slot_request_def slots_ready_def running_ok_def empty_kv_cache_blocks_def need_slot_def num_tokens_def)

theorem allocate_slots_correct_witness:
  "\<exists>k res k' r'. example_manager = Inr k \<and>
     allocate_slots (\<lambda>x. x) k (plain_request 0 ''a'' [5, 6, 7]) 3 0 None 0 0 False 0 False = Inr (Some res, k', r') \<and>
     (\<forall>j < 2. length (blocks_of_req (kcm_managers k' ! j) ''a'') = 1)"
proof -
  obtain k where k: "example_manager = Inr k" "kv_reachable k" "length (kcm_managers k) = 2"
      "\<And>j rid. j < 2 \<Longrightarrow> blocks_of_req (kcm_managers k ! j) rid = [] \<and> km_block_size (kcm_managers k ! j) = 16"
      "kcm_max_model_len k = 128" "num_kv_cache_groups k = 2" "hash_block_size (kcm_pool k) = 16" "get_num_free_blocks (kcm_pool k) = 7"
    by (rule example_manager_state) blast
  have cost: "(\<Sum>j < length (kcm_managers k). alloc_cost ''a'' 3 (kcm_managers k ! j)) = 2"
    using k(3,4) by (simp add: alloc_cost_def cdiv_def numeral_2_eq_2)
  obtain res k' r' where run: "allocate_slots (\<lambda>x. x) k (plain_request 0 ''a'' [5, 6, 7]) 3 0 None 0 0 False 0 False = Inr (res, k', r')"
      "\<forall>j < 2. int (length (blocks_of_req (kcm_managers k' ! j) ''a'')) =
         (if res = None then int (length (blocks_of_req (kcm_managers k ! j) ''a''))
          else max (int (length (blocks_of_req (kcm_managers k ! j) ''a''))) (cdiv 3 (km_block_size (kcm_managers k ! j))))" "res \<noteq> None"
    using allocate_slots_correct [OF k(2) example_slot_request(1) [OF k(3,4,5,6,7)] refl, of "\<lambda>x. x" 0 False]
      example_slot_request(2) [OF k(3,4,5,6,7)] cost k(3,8) by (auto simp: get_remaining_free_blocks_def)
  have "length (blocks_of_req (kcm_managers k' ! j) ''a'') = 1" if "j < 2" for j
  proof -
    have "int (length (blocks_of_req (kcm_managers k' ! j) ''a'')) = max 0 (cdiv 3 16)"
      using run(2) [rule_format, OF that] run(3) k(4) [OF that] by simp
    then show ?thesis by (simp add: cdiv_def)
  qed
  with run(1,3) k(1) show ?thesis by blast
qed

text \<open>The blocks in the tables of a request that no other request holds.\<close>

definition held_alone :: "kv_cache_manager \<Rightarrow> string \<Rightarrow> ref set" where
  "held_alone k rid = {b. real_block (kcm_pool k) b \<and> in_tables k b \<and>
     (\<forall>m \<in> set (kcm_managers k). \<forall>rid'. rid' \<noteq> rid \<longrightarrow> b \<notin> set (blocks_of_req m rid'))}"

lemma in_tables_nth:
  "in_tables k b \<longleftrightarrow> (\<exists>j < length (kcm_managers k). \<exists>rid. b \<in> set (blocks_of_req (kcm_managers k ! j) rid))"
  unfolding in_tables_def by (metis in_set_conv_nth)

lemma tables_after_removal:
  assumes keep: "others_kept rid k k'" and gone: "\<forall>j < length (kcm_managers k). blocks_of_req (kcm_managers k' ! j) rid = []"
  shows "in_tables k' b \<longleftrightarrow> (\<exists>j < length (kcm_managers k). \<exists>rid'. rid' \<noteq> rid \<and> b \<in> set (blocks_of_req (kcm_managers k ! j) rid'))"
proof -
  have "b \<in> set (blocks_of_req (kcm_managers k' ! j) rid') \<longleftrightarrow> rid' \<noteq> rid \<and> b \<in> set (blocks_of_req (kcm_managers k ! j) rid')"
    if "j < length (kcm_managers k)" for j rid'
    using keep gone that by (cases "rid' = rid") (simp_all add: others_kept_def)
  moreover have "length (kcm_managers k') = length (kcm_managers k)" using keep by (simp add: others_kept_def)
  ultimately show ?thesis unfolding in_tables_nth by auto
qed

lemma held_alone_removed:
  assumes keep: "others_kept rid k k'" and gone: "\<forall>j < length (kcm_managers k). blocks_of_req (kcm_managers k' ! j) rid = []"
  shows "{b. real_block (kcm_pool k) b \<and> in_tables k b} = {b. real_block (kcm_pool k) b \<and> in_tables k' b} \<union> held_alone k rid"
    and "{b. real_block (kcm_pool k) b \<and> in_tables k' b} \<inter> held_alone k rid = {}"
proof -
  have alone: "b \<in> held_alone k rid \<longleftrightarrow> real_block (kcm_pool k) b \<and> in_tables k b \<and> \<not> in_tables k' b" for b
    unfolding held_alone_def tables_after_removal [OF assms] all_set_conv_all_nth by blast
  have "in_tables k b" if "in_tables k' b" for b
    using that [unfolded tables_after_removal [OF assms]] unfolding in_tables_nth [of k] by blast
  then show "{b. real_block (kcm_pool k) b \<and> in_tables k b} = {b. real_block (kcm_pool k) b \<and> in_tables k' b} \<union> held_alone k rid"
    using alone by blast
  show "{b. real_block (kcm_pool k) b \<and> in_tables k' b} \<inter> held_alone k rid = {}" using alone by blast
qed

text \<open>
  C3. \<^verbatim>\<open>free\<close> returns everything a request holds. On a reachable manager it raises nothing, whether or not the
  request is known, and leaves a reachable manager. Afterwards the request has no block and no cached-block
  count in any group, the tables of every other request are as they were, every block keeps its hash and so
  can still be hit, and the number of free blocks has grown by the blocks that only this request held.
\<close>

theorem free_returns_all_blocks:
  assumes "kv_reachable k"
  shows "\<exists>k'. kcm_free k r = Inr k' \<and> kv_reachable k' \<and> others_kept (request_id r) k k' \<and>
    (\<forall>m \<in> set (kcm_managers k'). blocks_of_req m (request_id r) = [] \<and> num_cached_block m (request_id r) = None) \<and>
    (\<forall>b. block_hash (pool_heap (kcm_pool k') b) = block_hash (pool_heap (kcm_pool k) b)) \<and>
    get_remaining_free_blocks k' = get_remaining_free_blocks k + int (card (held_alone k (request_id r)))"
proof -
  let ?rid = "request_id r"
  note inv = kv_reachable_inv [OF assms]
  obtain ms p where f: "kcm_free k r = Inr (with_co k ms p)" "kv_inv (with_co k ms p)" "same_hashes (kcm_pool k) p"
      "related ?rid (\<lambda>_ m m'. blocks_of_req m' ?rid = [] \<and> num_cached_block m' ?rid = None) (kcm_managers k) (kcm_pool k) ms p"
    by (rule kcm_free_ok [OF inv])
  let ?k = "with_co k ms p" and ?in = "\<lambda>k'. {b. real_block (kcm_pool k) b \<and> in_tables k' b}"
  have len: "length ms = length (kcm_managers k)" and static: "pool_static (kcm_pool k) p"
    and gone: "\<forall>j < length ms. blocks_of_req (ms ! j) ?rid = [] \<and> num_cached_block (ms ! j) ?rid = None"
    using f(4) by (simp_all add: related_def)
  have keep: "others_kept ?rid k ?k" by (rule related_others [OF f(4)])
  have real: "real_block p = real_block (kcm_pool k)" and num: "num_gpu_blocks p = num_gpu_blocks (kcm_pool k)"
    using real_block_static [OF static] static by (simp_all add: pool_static_def)
  obtain "get_remaining_free_blocks k + int (card (?in k)) = num_gpu_blocks (kcm_pool k) - 1" by (rule kv_inv_counts [OF inv])
  moreover obtain "get_remaining_free_blocks ?k + int (card (?in ?k)) = num_gpu_blocks (kcm_pool k) - 1"
    by (rule kv_inv_counts [OF f(2)]) (simp add: real num)
  moreover have "card (?in k) = card (?in ?k) + card (held_alone k ?rid)"
  proof -
    have fin: "finite {b. real_block (kcm_pool k) b}"
      by (rule finite_subset [of _ "Blk ` {..<nat (num_gpu_blocks (kcm_pool k))}"]) (auto simp: real_block_def image_iff)
    have "?in k = ?in ?k \<union> held_alone k ?rid" "?in ?k \<inter> held_alone k ?rid = {}"
      using held_alone_removed [OF keep] gone len by simp_all
    moreover have "finite (?in ?k)" "finite (held_alone k ?rid)"
      by (rule finite_subset [OF _ fin]; auto simp: held_alone_def)+
    ultimately show ?thesis by (simp only: card_Un_disjoint)
  qed
  ultimately have "get_remaining_free_blocks ?k = get_remaining_free_blocks k + int (card (held_alone k ?rid))" by simp
  moreover have "kv_reachable ?k" by (rule kv_reachable.step [OF assms kv_step.free [OF f(1)]])
  ultimately show ?thesis using f(1,3) keep gone
    by (intro exI [of _ ?k]) (simp add: same_hashes_def all_set_conv_all_nth)
qed

lemma example_allocated:
  obtains k res k1 r1 where "example_manager = Inr k" and "kv_reachable k1"
    and "allocate_slots (\<lambda>x. x) k (plain_request 0 ''a'' [5, 6, 7]) 3 0 None 0 0 False 0 False = Inr (Some res, k1, r1)"
proof -
  let ?r = "plain_request 0 ''a'' [5, 6, 7]"
  obtain k where k: "example_manager = Inr k" "kv_reachable k" "length (kcm_managers k) = 2"
      "\<And>j rid. j < 2 \<Longrightarrow> blocks_of_req (kcm_managers k ! j) rid = [] \<and> km_block_size (kcm_managers k ! j) = 16"
      "kcm_max_model_len k = 128" "num_kv_cache_groups k = 2" "hash_block_size (kcm_pool k) = 16" "get_num_free_blocks (kcm_pool k) = 7"
    by (rule example_manager_state) blast
  note req = example_slot_request [OF k(3,4,5,6,7)]
  have "(\<Sum>j < length (kcm_managers k). alloc_cost ''a'' 3 (kcm_managers k ! j)) = 2"
    using k(3,4) by (simp add: alloc_cost_def cdiv_def numeral_2_eq_2)
  then obtain res ms p r1 where run: "allocate_slots (\<lambda>x. x) k ?r 3 0 None 0 0 False 0 False = Inr (res, with_co k ms p, r1)" "res \<noteq> None"
    using allocate_slots_ok [OF kv_reachable_inv [OF k(2)] req(1) refl, of "\<lambda>x. x" 0 False] req(2) k(8) by auto
  then obtain bs where "res = Some bs" by blast
  with run(1) that [OF k(1) kv_reachable.step [OF k(2) kv_step.allocate [OF req(1)]]] show thesis by blast
qed

theorem free_returns_all_blocks_witness:
  "\<exists>k res k1 r1 k2. example_manager = Inr k \<and>
     allocate_slots (\<lambda>x. x) k (plain_request 0 ''a'' [5, 6, 7]) 3 0 None 0 0 False 0 False = Inr (Some res, k1, r1) \<and>
     kcm_free k1 (plain_request 0 ''a'' [5, 6, 7]) = Inr k2 \<and> (\<forall>m \<in> set (kcm_managers k2). blocks_of_req m ''a'' = []) \<and>
     get_remaining_free_blocks k2 = get_remaining_free_blocks k1 + int (card (held_alone k1 ''a''))"
proof -
  obtain k res k1 r1 where k: "example_manager = Inr k" "kv_reachable k1"
      "allocate_slots (\<lambda>x. x) k (plain_request 0 ''a'' [5, 6, 7]) 3 0 None 0 0 False 0 False = Inr (Some res, k1, r1)"
    by (rule example_allocated)
  from free_returns_all_blocks [OF k(2), of "plain_request 0 ''a'' [5, 6, 7]"] k(1,3) show ?thesis by fastforce
qed

end
