(* ===== verification/External_Hit.thy ===== *)
theory External_Hit
  imports Kv_Properties
begin

text \<open>
  Hits and external tokens in models with several groups.

  The coordinator adopts the hits manager by manager: a manager takes its hit out of the free queue and at once
  allocates blocks for the tokens a connector will load. The hits of the later managers still stand in the free
  queue then, so those blocks can be theirs. \<open>slots_ready\<close> therefore asks for one group if there are external
  tokens; the theorem here shows that this restriction cannot be dropped.
\<close>

lemma take_hit_run:
  assumes rep: "pool_rep p xs" and caching: "enable_caching p"
    and m: "plain_mgr m" "fresh m rid" "km_enable_caching m" "get_num_skipped_tokens m tot < km_block_size m"
    and bs: "\<forall>b \<in> set bs. pool_block p b" and tot: "tot = local_toks + ext" "0 \<le> local_toks" "0 < ext"
    and n: "n = cdiv tot (km_block_size m) - int (length bs)" "0 \<le> n" and ys: "ys = filter (\<lambda>b. b \<notin> set bs) xs" and fits: "n \<le> int (length ys)"
  obtains m' p' where "allocate_new_computed_blocks m p rid bs local_toks ext = Inr (m', p')"
    and "blocks_of_req m' rid = bs @ take (nat n) ys" and "pool_rep p' (drop (nat n) ys)" and "pool_static p p'"
    and "\<And>c. block_hash (pool_heap p' c) = (if c \<in> set (take (nat n) ys) then None else block_hash (pool_heap p c))"
proof -
  have spec: "spec_ok m" and tot0: "0 \<le> tot" using m(1) tot by (simp_all add: plain_mgr_def)
  have k: "get_num_skipped_tokens m tot div km_block_size m = 0"
    using skipped_tokens_range(1) [OF spec tot0] m(4) by (simp add: div_pos_pos_trivial)
  then have pad: "bs = padded_hit m p bs tot" and kept: "bs = drop (nat (get_num_skipped_tokens m tot div km_block_size m)) bs"
    by (simp_all add: padded_hit_def)
  obtain p1 where p1: "touch bs p = Inr p1" "pool_rep p1 ys" "\<forall>c. block_hash (pool_heap p1 c) = block_hash (pool_heap p c)"
    using touch_spec [OF rep bs] ys by blast
  have static1: "pool_static p p1" by (rule touch_static [OF p1(1)])
  then have caching1: "enable_caching p1" using caching by (simp add: pool_static_def)
  obtain p2 where p2: "get_new_blocks n p1 = Inr (take (nat n) ys, p2)" "pool_rep p2 (drop (nat n) ys)"
      "\<forall>c. block_hash (pool_heap p2 c) = (if c \<in> set (take (nat n) ys) \<and> enable_caching p1 then None else block_hash (pool_heap p1 c))"
    using get_new_blocks_spec [OF p1(2) n(2) fits] by blast
  obtain num_ext where run: "base_allocate_new_computed_blocks m p rid bs local_toks ext =
      (if 0 < num_ext then bindE (extend_with_new rid (cdiv tot (km_block_size m) - int (length bs)) (adopted m rid bs) p1)
         (\<lambda>(_, m2, p2). Inr (m2, p2)) else Inr (adopted m rid bs, p1))" "num_ext = ext"
    by (rule computed_run [OF m(2) spec disjI1 [OF m(3)] tot(1) tot0 kept pad p1(1)]) (use k in simp)
  let ?new = "take (nat n) ys"
  have ext_run: "\<exists>m'. extend_with_new rid n (adopted m rid bs) p1 = Inr (?new, m', p2) \<and> blocks_of_req m' rid = bs @ ?new"
    by (simp add: extend_with_new_def p2(1) adopted_def Let_def)
  then obtain m' where m': "extend_with_new rid n (adopted m rid bs) p1 = Inr (?new, m', p2)" "blocks_of_req m' rid = bs @ ?new" by blast
  show thesis
  proof (rule that [OF _ m'(2) p2(2)])
    show "allocate_new_computed_blocks m p rid bs local_toks ext = Inr (m', p2)"
      using run m'(1) tot(3) by (simp add: plain_dispatch(3) [OF m(1)] n(1))
    show "pool_static p p2" by (rule pool_static_trans [OF static1 get_new_blocks_static [OF p2(1)]])
    show "block_hash (pool_heap p2 c) = (if c \<in> set ?new then None else block_hash (pool_heap p c))" for c
      using p2(3) p1(3) caching1 by simp
  qed
qed

lemma filter_drop_length:
  assumes "n + k \<le> length (filter P xs)"
  shows "k \<le> length (filter P (drop n xs))"
proof -
  have "length (filter P xs) = length (filter P (take n xs)) + length (filter P (drop n xs))"
    by (metis append_take_drop_id filter_append length_append)
  moreover have "length (filter P (take n xs)) \<le> n" using length_filter_le [of P "take n xs"] by simp
  ultimately show ?thesis using assms by linarith
qed

text \<open>Two blocks of the example manager, each cached for one of its groups.\<close>

lemma example_pool_check:
  "case example_manager of Inl _ \<Rightarrow> False
   | Inr k \<Rightarrow> list_all (\<lambda>m. num_cached_block m ''b'' = None \<and> get_num_skipped_tokens m 32 < 16) (kcm_managers k) \<and>
       block_hash (pool_heap (kcm_pool k) (Blk 1)) = None \<and> block_hash (pool_heap (kcm_pool k) (Blk 2)) = None"
  by code_simp

lemma example_pool_rep:
  assumes "example_manager = Inr k"
  shows "pool_rep (kcm_pool k) (map Blk [1..<8])"
proof -
  let ?cfg = "example_config [FullAttentionSpec, SlidingWindowSpec 32] 8"
  obtain p0 ms where parts: "init_block_pool (cfg_num_blocks ?cfg) True 16 False False = Inr p0"
      "init_managers 128 128 True 1 1 0 (kv_cache_groups ?cfg) p0 = Inr (ms, kcm_pool k)"
    using assms coordinator_parts unfolding example_manager_def init_kv_cache_manager_def by (fastforce simp: bindE_eq_Inr)
  have p0: "pool_rep p0 (map Blk [1..<8])" "hash_block_size p0 = 16"
    using init_block_pool_rep [of 8 True 16 False False] parts(1) by (auto simp: example_config_def)
  have "\<exists>ms'. init_managers 128 128 True 1 1 0 (kv_cache_groups ?cfg) p0 = Inr (ms', p0)"
    using init_managers_conf [of 1 1 0 "kv_cache_groups ?cfg" True p0 128 128] p0(2) by (auto simp: example_config_def)
  with parts(2) p0(1) show ?thesis by auto
qed

abbreviation hashed_request :: request where
  "hashed_request \<equiv> (plain_request 0 ''a'' [])\<lparr>block_hashes := [[7]]\<rparr>"

lemma example_cached:
  assumes rep: "pool_rep p xs" and p: "hash_block_size p = 16" "num_gpu_blocks p = 8" "enable_caching p"
    and none: "block_hash (pool_heap p (Blk 1)) = None" "block_hash (pool_heap p (Blk 2)) = None"
  obtains p1 r1 p2 r2 where "cache_full_blocks id hashed_request [Blk 1] 0 1 16 0 p = Inr (p1, r1)"
    and "cache_full_blocks id hashed_request [Blk 2] 0 1 16 1 p1 = Inr (p2, r2)" and "pool_rep p2 xs" and "enable_caching p2"
    and "usable_hit p2 [Blk 1]" and "usable_hit p2 [Blk 2]"
proof -
  obtain p1 r1 where c1: "cache_full_blocks id hashed_request [Blk 1] 0 1 16 0 p = Inr (p1, r1)" "pool_rep p1 xs"
      "holds_hash p1 [7] 0 (Blk 1)"
    using cache_full_blocks_spec [OF rep, of 16 0 1 "[Blk 1]" hashed_request 0 id] p none
    by (auto simp: pool_block_def py_slice_nonneg)
  have s1: "pool_static p p1" by (rule cache_full_blocks_static [OF c1(1)])
  have h1: "block_hash (pool_heap p1 (Blk 2)) = None"
    using cache_full_blocks_heap(2) [OF c1(1), of "Blk 2"] none(2) by (simp add: py_slice_nonneg)
  obtain p2 r2 where c2: "cache_full_blocks id hashed_request [Blk 2] 0 1 16 1 p1 = Inr (p2, r2)" "pool_rep p2 xs"
      "holds_hash p2 [7] 1 (Blk 2)"
    using cache_full_blocks_spec [OF c1(2), of 16 0 1 "[Blk 2]" hashed_request 1 id] p h1 s1
    by (auto simp: pool_block_def py_slice_nonneg pool_static_def)
  have s2: "pool_static p p2" by (rule pool_static_trans [OF s1 cache_full_blocks_static [OF c2(1)]])
  have "pool_heap p2 (Blk 1) = pool_heap p1 (Blk 1)"
    using cache_full_blocks_heap(2) [OF c2(1), of "Blk 1"] by (simp add: py_slice_nonneg)
  then have "usable_hit p2 [Blk 1]" "usable_hit p2 [Blk 2]" "enable_caching p2"
    using c1(3) c2(3) s2 p by (auto simp: usable_hit_def holds_hash_def pool_block_def pool_static_def)
  with c1 c2 that show thesis by blast
qed

text \<open>
  C36. External tokens can take a pending hit. In a model with two groups, let a new request hit \<open>h0\<close> in the first
  and \<open>h1\<close> in the second group, with tokens a connector will load besides and enough free blocks for all of them
  apart from the hits. If the oldest free block outside \<open>h0\<close> is one of \<open>h1\<close>, then adopting the hits succeeds, but
  that block ends up in the tables of the request in both groups, and the hash of the contents it was hit for is gone.
\<close>

theorem external_tokens_take_pending_hit:
  assumes co: "single_type_managers co = [m0, m1]" "pool_rep (co_block_pool co) xs" "enable_caching (co_block_pool co)"
    and plain: "\<forall>m \<in> {m0, m1}. plain_mgr m \<and> fresh m rid \<and> km_enable_caching m \<and> get_num_skipped_tokens m tot < km_block_size m"
    and hits: "usable_hit (co_block_pool co) h0" "usable_hit (co_block_pool co) h1"
    and tot: "tot = local_toks + ext" "0 \<le> local_toks" "0 < ext"
    and need: "int (length h0) < cdiv tot (km_block_size m0)" "int (length h1) \<le> cdiv tot (km_block_size m1)"
    and fits: "cdiv tot (km_block_size m0) - int (length h0) + (cdiv tot (km_block_size m1) - int (length h1)) \<le>
      int (length (filter (\<lambda>b. b \<notin> set h1) (filter (\<lambda>b. b \<notin> set h0) xs)))"
    and oldest: "filter (\<lambda>b. b \<notin> set h0) xs = b # rest" "b \<in> set h1"
  shows "\<exists>co' m0' m1'. co_allocate_new_computed_blocks co rid [h0, h1] local_toks ext = Inr co' \<and>
    single_type_managers co' = [m0', m1'] \<and> b \<in> set (blocks_of_req m0' rid) \<and> b \<in> set (blocks_of_req m1' rid) \<and>
    block_hash (pool_heap (co_block_pool co) b) \<noteq> None \<and> block_hash (pool_heap (co_block_pool co') b) = None"
proof -
  let ?p = "co_block_pool co" and ?ys = "filter (\<lambda>b. b \<notin> set h0) xs"
  define n0 n1 where n: "n0 = cdiv tot (km_block_size m0) - int (length h0)" "n1 = cdiv tot (km_block_size m1) - int (length h1)"
  have n01: "0 < n0" "0 \<le> n1" "n0 + n1 \<le> int (length (filter (\<lambda>b. b \<notin> set h1) ?ys))" using need fits by (simp_all add: n)
  moreover have "length (filter (\<lambda>b. b \<notin> set h1) ?ys) \<le> length ?ys" by (rule length_filter_le)
  ultimately have fit0: "n0 \<le> int (length ?ys)" by linarith
  have blks: "\<forall>b \<in> set h0. pool_block ?p b" "\<forall>b \<in> set h1. pool_block ?p b" using hits by (simp_all add: usable_hit_def)
  obtain m0' p0 where first: "allocate_new_computed_blocks m0 ?p rid h0 local_toks ext = Inr (m0', p0)"
      "blocks_of_req m0' rid = h0 @ take (nat n0) ?ys" "pool_rep p0 (drop (nat n0) ?ys)" "pool_static ?p p0"
      "\<And>c. block_hash (pool_heap p0 c) = (if c \<in> set (take (nat n0) ?ys) then None else block_hash (pool_heap ?p c))"
    by (rule take_hit_run [OF co(2,3) _ _ _ _ blks(1) tot n(1) less_imp_le [OF n01(1)] refl fit0]) (use plain in auto)
  let ?zs = "filter (\<lambda>b. b \<notin> set h1) (drop (nat n0) ?ys)"
  have "nat n0 + nat n1 \<le> length (filter (\<lambda>b. b \<notin> set h1) ?ys)" using n01 by linarith
  from filter_drop_length [OF this] have fit1: "n1 \<le> int (length ?zs)" by linarith
  have p0: "enable_caching p0" "\<forall>b \<in> set h1. pool_block p0 b"
    using co(3) blks(2) first(4) pool_block_static [OF first(4)] by (simp_all add: pool_static_def)
  obtain m1' p1 where second: "allocate_new_computed_blocks m1 p0 rid h1 local_toks ext = Inr (m1', p1)"
      "blocks_of_req m1' rid = h1 @ take (nat n1) ?zs"
      "\<And>c. block_hash (pool_heap p1 c) = (if c \<in> set (take (nat n1) ?zs) then None else block_hash (pool_heap p0 c))"
    by (rule take_hit_run [OF first(3) p0(1) _ _ _ _ p0(2) tot n(2) n01(2) refl fit1]) (use plain in auto)
  have b: "b \<in> set (take (nat n0) ?ys)" using n01(1) by (cases "nat n0") (simp_all add: oldest(1))
  then have "b \<in> set xs" by (meson filter_is_subset in_mono in_set_takeD)
  then have "real_block ?p b" using free_list_real [OF co(2)] by blast
  then have hashed: "block_hash (pool_heap ?p b) \<noteq> None" using hits(2) oldest(2) by (simp add: usable_hit_def)
  have run: "co_allocate_new_computed_blocks co rid [h0, h1] local_toks ext =
      Inr (co\<lparr>single_type_managers := [m0', m1'], co_block_pool := p1\<rparr>)"
    using first(1) second(1) by (simp add: co_allocate_new_computed_blocks_def update_managers_def co(1) py_get_nonneg)
  show ?thesis unfolding run using b hashed first(2,5) second(2,3) oldest(2) by simp
qed

theorem external_tokens_take_pending_hit_witness:
  "\<exists>k p1 r1 p2 r2 co' m0 m1. example_manager = Inr k \<and>
     cache_full_blocks id hashed_request [Blk 1] 0 1 16 0 (kcm_pool k) = Inr (p1, r1) \<and>
     cache_full_blocks id hashed_request [Blk 2] 0 1 16 1 p1 = Inr (p2, r2) \<and>
     co_allocate_new_computed_blocks ((coordinator k)\<lparr>co_block_pool := p2\<rparr>) ''b'' [[Blk 1], [Blk 2]] 16 16 = Inr co' \<and>
     single_type_managers co' = [m0, m1] \<and> Blk 2 \<in> set (blocks_of_req m0 ''b'') \<and> Blk 2 \<in> set (blocks_of_req m1 ''b'')"
proof -
  obtain k where k: "example_manager = Inr k" "kv_reachable k" "length (kcm_managers k) = 2"
      "\<And>j rid. j < 2 \<Longrightarrow> blocks_of_req (kcm_managers k ! j) rid = [] \<and> km_block_size (kcm_managers k ! j) = 16"
      "kcm_enable_caching k" "num_gpu_blocks (kcm_pool k) = 8" "hash_block_size (kcm_pool k) = 16"
    by (rule example_manager_state) blast
  note facts = example_pool_check [unfolded k(1) sum.case]
  note inv = kv_reachable_inv [OF k(2)]
  obtain ms0 ms1 where ms: "kcm_managers k = [ms0, ms1]" using k(3) by (auto simp: numeral_2_eq_2 length_Suc_conv)
  define xs where xs: "xs = map Blk [1..<8]"
  have rep: "pool_rep (kcm_pool k) xs" unfolding xs by (rule example_pool_rep [OF k(1)])
  have caching: "enable_caching (kcm_pool k)" using inv k(5) by (simp add: kv_inv_def)
  obtain p1 r1 p2 r2 where c: "cache_full_blocks id hashed_request [Blk 1] 0 1 16 0 (kcm_pool k) = Inr (p1, r1)"
      "cache_full_blocks id hashed_request [Blk 2] 0 1 16 1 p1 = Inr (p2, r2)" "pool_rep p2 xs" "enable_caching p2"
      "usable_hit p2 [Blk 1]" "usable_hit p2 [Blk 2]"
    by (rule example_cached [OF rep k(7,6) caching]) (use facts in simp_all)
  have sizes: "km_block_size ms0 = 16" "km_block_size ms1 = 16" and empty: "blocks_of_req ms0 ''b'' = []" "blocks_of_req ms1 ''b'' = []"
    using k(4) [of 0] k(4) [of 1] by (simp_all add: ms)
  have plain: "\<forall>m \<in> {ms0, ms1}. plain_mgr m \<and> fresh m ''b'' \<and> km_enable_caching m \<and> get_num_skipped_tokens m 32 < km_block_size m"
    using inv facts k(5) sizes empty by (simp add: ms kv_inv_def mgr_conf_def fresh_def)
  have list: "filter (\<lambda>b. b \<notin> set [Blk 1]) xs = Blk 2 # map Blk [3..<8]" "length (filter (\<lambda>b. b \<notin> set [Blk 2]) (map Blk [3..<8])) = 5"
    by (simp_all add: xs upt_rec)
  have "\<exists>co' m0' m1'. co_allocate_new_computed_blocks ((coordinator k)\<lparr>co_block_pool := p2\<rparr>) ''b'' [[Blk 1], [Blk 2]] 16 16 = Inr co' \<and>
    single_type_managers co' = [m0', m1'] \<and> Blk 2 \<in> set (blocks_of_req m0' ''b'') \<and> Blk 2 \<in> set (blocks_of_req m1' ''b'') \<and>
    block_hash (pool_heap (co_block_pool ((coordinator k)\<lparr>co_block_pool := p2\<rparr>)) (Blk 2)) \<noteq> None \<and>
    block_hash (pool_heap (co_block_pool co') (Blk 2)) = None"
    by (rule external_tokens_take_pending_hit [OF _ _ _ plain, where xs = xs and rest = "map Blk [3..<8]"])
      (use c ms list in \<open>simp_all add: sizes cdiv_def\<close>)
  with k(1) c(1,2) show ?thesis by blast
qed

end
