(* ===== verification/Taper.thy ===== *)
theory Taper
  imports Request_Model "HOL-Library.Product_Lexorder"
begin

text \<open>
  The TAPER admission planner of \<^verbatim>\<open>vllm/v1/core/sched/scheduler.py\<close>: its configuration, the latency
  model with its online calibration, deadlines, and the greedy planner
  \<^verbatim>\<open>_get_taper_plus_admitted_running_req_ids\<close> for the policies \<^verbatim>\<open>taper\<close> and \<^verbatim>\<open>taper_plus\<close>.

  Floats are real numbers and \<^verbatim>\<open>x ** 0.5\<close> is \<open>sqrt x\<close>. Dictionaries are association lists in insertion
  order. What the planner reads of the rest of the scheduler is the record \<open>taper_view\<close>: the running
  requests, the lengths of the two waiting queues and the block counts of the KV-cache manager, with
  its method \<^verbatim>\<open>estimate_future_footprint\<close> as a number for every request; \<open>Planner_View\<close> takes the view from
  the model of the manager and shows that the method raises nothing on reachable managers.

  Shown here: loading and calibrating the latency model keep its coefficients in range (\<open>taper_ok\<close>).
  The lemmas about the planner are in \<open>Taper_Plan\<close>.
\<close>

section \<open>Configuration\<close>

datatype taper_policy = PTaper | PTaperPlus | PTailBlend | PBonTaper | PBonTaperPlus | PBonTaperLenPredictor

datatype taper_utility = Linear | Concave

datatype preemption_mode =
    Remaining | RemainingRecompute | RemainingParent | Full | FullV2 | FullSlo | Complicated | Simplified
  | PrefillAware | PrefillAwareGated | Adaptive

datatype admission_mode = AdmOff | TtftGuarded | TtftFairGuarded | TtftCostGuarded

definition parse_policy :: "string \<Rightarrow> taper_policy res" where
  "parse_policy s0 =
     (let s = (if s0 = ''eager_tail_blend'' then ''tail_blend'' else s0)
      in if s = ''taper'' then Inr PTaper
         else if s = ''taper_plus'' then Inr PTaperPlus
         else if s = ''tail_blend'' then Inr PTailBlend
         else if s = ''bon_taper'' then Inr PBonTaper
         else if s = ''bon_taper_plus'' then Inr PBonTaperPlus
         else if s = ''bon_taper_len_predictor'' then Inr PBonTaperLenPredictor
         else Inl ValueError)"

definition parse_preemption_mode :: "string \<Rightarrow> preemption_mode res" where
  "parse_preemption_mode s =
     (case map_of [(''remaining'', Remaining), (''remaining_recompute'', RemainingRecompute),
         (''remaining_parent'', RemainingParent), (''full'', Full), (''full_v2'', FullV2),
         (''full_slo'', FullSlo), (''complicated'', Complicated), (''simplified'', Simplified),
         (''prefill_aware'', PrefillAware), (''prefill_aware_gated'', PrefillAwareGated),
         (''adaptive'', Adaptive)] s of
        None \<Rightarrow> Inl ValueError | Some m \<Rightarrow> Inr m)"

definition parse_admission_mode :: "string \<Rightarrow> admission_mode res" where
  "parse_admission_mode s =
     (case map_of [(''off'', AdmOff), (''ttft_guarded'', TtftGuarded),
         (''ttft_fair_guarded'', TtftFairGuarded), (''ttft_cost_guarded'', TtftCostGuarded)] s of
        None \<Rightarrow> Inl ValueError | Some m \<Rightarrow> Inr m)"

definition parse_utility :: "string \<Rightarrow> taper_utility res" where
  "parse_utility s =
     (if s = ''linear'' then Inr Linear else if s = ''concave'' then Inr Concave else Inl ValueError)"

text \<open>The environment variables, and the attributes of the scheduler they set.\<close>

record taper_env =
  env_enable_taper_plus :: bool
  env_policy :: string
  env_memory_threshold_blocks :: int
  env_pilot_k :: int
  env_preemption :: bool
  env_preemption_mode :: string
  env_reservation_q :: real
  env_admission_mode :: string
  env_step_target_ms :: real
  env_latency_per_seq_ms :: real
  env_ttft_slo_ms :: real
  env_tpot_slo_ms :: real
  env_rho :: real
  env_utility :: string
  env_online_calibration :: bool
  env_record_latency_samples :: bool
  env_calibration_alpha :: real
  env_safety_factor :: real
  env_eager_when_unpressured :: bool
  env_branch_overdue_boost :: bool

record latency_sample =
  ls_observed_ms :: real
  ls_predicted_ms :: real
  ls_decode_width :: real
  ls_context_tokens :: real
  ls_context_k :: real

record taper_state =
  enable_taper_plus :: bool
  taper_plus_policy :: taper_policy
  taper_plus_memory_threshold_blocks :: int
  tail_blend_pilot_k :: int
  tail_blend_preemption :: bool
  tail_blend_preemption_mode :: preemption_mode
  tail_blend_reservation_q :: real
  tail_blend_admission_mode :: admission_mode
  taper_plus_step_target_ms :: real
  taper_plus_ttft_slo_s :: real
  taper_plus_tpot_slo_s :: real
  taper_plus_rho :: real
  taper_plus_utility :: taper_utility
  taper_plus_online_calibration :: bool
  taper_plus_record_latency_samples :: bool
  taper_plus_calibration_alpha :: real
  taper_plus_safety_factor :: real
  taper_plus_eager_when_unpressured :: bool
  taper_plus_branch_overdue_boost :: bool
  taper_plus_latency_base_ms :: real
  taper_plus_latency_width_ms :: real
  taper_plus_latency_context_ms_per_1k :: real
  taper_plus_calibration_samples :: int
  taper_plus_latency_samples :: "latency_sample list"

definition min_width_ms :: real where "min_width_ms = 1 / 1000"

fun get_float_profile_value :: "(string \<rightharpoonup> real) \<Rightarrow> string list \<Rightarrow> real option \<Rightarrow> real option" where
  "get_float_profile_value profile [] dflt = dflt"
| "get_float_profile_value profile (key # keys) dflt =
     (case profile key of Some v \<Rightarrow> Some v | None \<Rightarrow> get_float_profile_value profile keys dflt)"

text \<open>
  The profile is the object parsed from the JSON file, its \<^verbatim>\<open>coefficients\<close> if it has them; no path
  is no profile.
\<close>

definition load_taper_plus_latency_profile :: "(string \<rightharpoonup> real) option \<Rightarrow> taper_state \<Rightarrow> taper_state res" where
  "load_taper_plus_latency_profile profile st =
     (case profile of
        None \<Rightarrow> Inr st
      | Some p \<Rightarrow>
          (case (get_float_profile_value p [''base_ms'', ''latency_base_ms''] (Some (taper_plus_latency_base_ms st)),
                 get_float_profile_value p [''width_ms'', ''latency_width_ms'', ''per_seq_ms'']
                   (Some (taper_plus_latency_width_ms st)),
                 get_float_profile_value p [''context_ms_per_1k'', ''latency_context_ms_per_1k'']
                   (Some (taper_plus_latency_context_ms_per_1k st))) of
             (Some base_ms, Some width_ms, Some context_ms_per_1k) \<Rightarrow>
               let st1 = st\<lparr>taper_plus_latency_base_ms := max 0 base_ms,
                            taper_plus_latency_width_ms := max min_width_ms width_ms,
                            taper_plus_latency_context_ms_per_1k := max 0 context_ms_per_1k\<rparr>
               in Inr (case get_float_profile_value p [''safety_factor''] None of
                         None \<Rightarrow> st1
                       | Some safety_factor \<Rightarrow> st1\<lparr>taper_plus_safety_factor := max 1 safety_factor\<rparr>)
           | _ \<Rightarrow> Inl AssertionError))"

definition init_taper :: "taper_env \<Rightarrow> (string \<rightharpoonup> real) option \<Rightarrow> taper_state res" where
  "init_taper e profile =
     bindE (parse_policy (env_policy e)) (\<lambda>policy.
     bindE (parse_preemption_mode (env_preemption_mode e)) (\<lambda>pmode.
     bindE (parse_admission_mode (env_admission_mode e)) (\<lambda>amode.
     bindE (parse_utility (env_utility e)) (\<lambda>utility.
     load_taper_plus_latency_profile profile
       \<lparr>enable_taper_plus = env_enable_taper_plus e, taper_plus_policy = policy,
        taper_plus_memory_threshold_blocks = env_memory_threshold_blocks e,
        tail_blend_pilot_k = max 0 (env_pilot_k e), tail_blend_preemption = env_preemption e,
        tail_blend_preemption_mode = pmode,
        tail_blend_reservation_q = max 0 (min 1 (env_reservation_q e)), tail_blend_admission_mode = amode,
        taper_plus_step_target_ms = env_step_target_ms e,
        taper_plus_ttft_slo_s = max 0 (env_ttft_slo_ms e / 1000),
        taper_plus_tpot_slo_s = max 0 (env_tpot_slo_ms e / 1000),
        taper_plus_rho = max 0 (min 1 (env_rho e)), taper_plus_utility = utility,
        taper_plus_online_calibration = env_online_calibration e,
        taper_plus_record_latency_samples = env_record_latency_samples e,
        taper_plus_calibration_alpha = max 0 (min 1 (env_calibration_alpha e)),
        taper_plus_safety_factor = max 1 (env_safety_factor e),
        taper_plus_eager_when_unpressured = env_eager_when_unpressured e,
        taper_plus_branch_overdue_boost = env_branch_overdue_boost e,
        taper_plus_latency_base_ms = 0,
        taper_plus_latency_width_ms = max min_width_ms (env_latency_per_seq_ms e),
        taper_plus_latency_context_ms_per_1k = 0, taper_plus_calibration_samples = 0,
        taper_plus_latency_samples = []\<rparr>))))"

section \<open>The latency model\<close>

definition raw_step_ms :: "taper_state \<Rightarrow> int \<Rightarrow> int \<Rightarrow> real" where
  "raw_step_ms st decode_width context_tokens =
     taper_plus_latency_base_ms st + taper_plus_latency_width_ms st * of_int decode_width +
     taper_plus_latency_context_ms_per_1k st * (of_int context_tokens / 1000)"

definition predict_taper_plus_step_ms :: "taper_state \<Rightarrow> int \<Rightarrow> int \<Rightarrow> real" where
  "predict_taper_plus_step_ms st decode_width context_tokens =
     (if decode_width \<le> 0 then 0
      else max 0 (raw_step_ms st decode_width context_tokens) * taper_plus_safety_factor st)"

definition update_taper_plus_latency_model :: "real \<Rightarrow> int \<Rightarrow> int \<Rightarrow> int \<Rightarrow> taper_state \<Rightarrow> taper_state" where
  "update_taper_plus_latency_model observed_ms decode_width context_tokens prefill_tokens st =
     (if \<not> enable_taper_plus st \<or> \<not> taper_plus_online_calibration st \<or> decode_width \<le> 0 then st
      else if 0 < prefill_tokens then st
      else if observed_ms \<le> 0 \<or> taper_plus_step_target_ms st * 20 < observed_ms then st
      else let alpha = taper_plus_calibration_alpha st in
        if alpha \<le> 0 then st
        else let context_k = of_int context_tokens / 1000;
                 error_ms = observed_ms - raw_step_ms st decode_width context_tokens;
                 normalizer = 1 + (of_int decode_width)\<^sup>2 + context_k\<^sup>2
          in st\<lparr>taper_plus_latency_base_ms :=
                  max 0 (taper_plus_latency_base_ms st + alpha * error_ms / normalizer),
                taper_plus_latency_width_ms :=
                  max min_width_ms (taper_plus_latency_width_ms st + alpha * error_ms * of_int decode_width / normalizer),
                taper_plus_latency_context_ms_per_1k :=
                  max 0 (taper_plus_latency_context_ms_per_1k st + alpha * error_ms * context_k / normalizer),
                taper_plus_calibration_samples := taper_plus_calibration_samples st + 1\<rparr>)"

definition record_taper_plus_latency_sample ::
    "real \<Rightarrow> real \<Rightarrow> int \<Rightarrow> int \<Rightarrow> int \<Rightarrow> taper_state \<Rightarrow> taper_state" where
  "record_taper_plus_latency_sample observed_ms predicted_ms decode_width context_tokens prefill_tokens st =
     (if \<not> enable_taper_plus st \<or> \<not> taper_plus_record_latency_samples st \<or> decode_width \<le> 0 \<or>
         0 < prefill_tokens \<or> observed_ms \<le> 0 then st
      else if 0 < taper_plus_step_target_ms st \<and> taper_plus_step_target_ms st * 20 < observed_ms then st
      else st\<lparr>taper_plus_latency_samples := taper_plus_latency_samples st @
             [\<lparr>ls_observed_ms = observed_ms, ls_predicted_ms = predicted_ms,
               ls_decode_width = of_int decode_width, ls_context_tokens = of_int context_tokens,
               ls_context_k = of_int context_tokens / 1000\<rparr>]\<rparr>)"

section \<open>Candidates, groups and deadlines\<close>

definition taper_plus_group_id :: "request \<Rightarrow> string" where
  "taper_plus_group_id r =
     (case external_req_id r of None \<Rightarrow> request_id r | Some e \<Rightarrow> if e = [] then request_id r else e)"

definition is_taper_plus_decode_candidate :: "request \<Rightarrow> bool" where
  "is_taper_plus_decode_candidate r \<longleftrightarrow>
     sampling_params r \<noteq> None \<and> 0 < num_output_tokens r + num_output_placeholders r \<and>
     0 < num_tokens_with_spec r + num_output_placeholders r - num_computed_tokens r"

record taper_view =
  running :: "request list"
  num_waiting :: int
  num_skipped_waiting :: int
  remaining_free_blocks :: int
  num_gpu_blocks :: int
  estimate_future_footprint :: "request \<Rightarrow> int"

definition get_taper_plus_memory_threshold :: "taper_state \<Rightarrow> taper_view \<Rightarrow> int" where
  "get_taper_plus_memory_threshold st v =
     (if 0 \<le> taper_plus_memory_threshold_blocks st then taper_plus_memory_threshold_blocks st
      else max 1 (num_gpu_blocks v div 20))"

definition get_taper_plus_step_features ::
    "(string \<rightharpoonup> request) \<Rightarrow> (string \<times> int) list \<Rightarrow> int \<times> int \<times> int" where
  "get_taper_plus_step_features requests num_scheduled_tokens =
     fold (\<lambda>(req_id, n) (decode_width, context_tokens, prefill_tokens).
       case requests req_id of
         None \<Rightarrow> (decode_width, context_tokens, prefill_tokens)
       | Some r \<Rightarrow>
           if is_taper_plus_decode_candidate r
           then (decode_width + 1, context_tokens + num_computed_tokens r, prefill_tokens)
           else (decode_width, context_tokens, prefill_tokens + n)) num_scheduled_tokens (0, 0, 0)"

definition get_taper_plus_deadline_s :: "taper_state \<Rightarrow> request \<Rightarrow> real" where
  "get_taper_plus_deadline_s st r =
     (if num_output_tokens r = 0 then arrival_time r + taper_plus_ttft_slo_s st
      else taper_last_token_time r + taper_plus_tpot_slo_s st)"

text \<open>\<^verbatim>\<open>min\<close> of no requests raises.\<close>

definition get_taper_plus_group_deadline_s :: "taper_state \<Rightarrow> request list \<Rightarrow> real res" where
  "get_taper_plus_group_deadline_s st requests =
     (if \<forall>r \<in> set requests. num_output_tokens r = 0
      then (if requests = [] then Inl ValueError
            else Inr (Min (set (map arrival_time requests)) + taper_plus_ttft_slo_s st))
      else Inr (Max (set (map taper_last_token_time (filter (\<lambda>r. 0 < num_output_tokens r) requests))) +
             taper_plus_tpot_slo_s st))"

definition get_taper_plus_branch_overdue_ms :: "taper_state \<Rightarrow> request \<Rightarrow> real \<Rightarrow> real" where
  "get_taper_plus_branch_overdue_ms st r now_s = max 0 (now_s - get_taper_plus_deadline_s st r) * 1000"

definition taper_plus_marginal_utility :: "taper_state \<Rightarrow> int \<Rightarrow> real" where
  "taper_plus_marginal_utility st granted =
     (case taper_plus_utility st of
        Concave \<Rightarrow> sqrt (of_int (granted + 1)) - sqrt (of_int granted)
      | Linear \<Rightarrow> 1)"

section \<open>The planner\<close>

text \<open>\<^verbatim>\<open>d[key].append(x)\<close> for a \<^verbatim>\<open>defaultdict(list)\<close>.\<close>

fun group_add :: "string \<Rightarrow> 'a \<Rightarrow> (string \<times> 'a list) list \<Rightarrow> (string \<times> 'a list) list" where
  "group_add k x [] = [(k, [x])]"
| "group_add k x ((k', xs) # d) = (if k = k' then (k', xs @ [x]) # d else (k', xs) # group_add k x d)"

definition group_candidates :: "request list \<Rightarrow> (string \<times> request list) list" where
  "group_candidates reqs =
     fold (\<lambda>r d. if is_taper_plus_decode_candidate r then group_add (taper_plus_group_id r) r d else d) reqs []"

definition regulated_groups :: "(string \<times> request list) list \<Rightarrow> string list" where
  "regulated_groups d = map fst (filter (\<lambda>(g, rs). 1 < length rs) d)"

record baseline_state =
  admitted_req_ids :: "string set"
  deferred_by_group :: "(string \<times> request list) list"
  all_decode_groups :: "string list"
  baseline_groups :: "string list"
  active_decode_width :: int
  active_context_tokens :: int

definition admit_branch :: "request \<Rightarrow> baseline_state \<Rightarrow> baseline_state" where
  "admit_branch r b =
     b\<lparr>admitted_req_ids := insert (request_id r) (admitted_req_ids b),
       active_decode_width := active_decode_width b + 1,
       active_context_tokens := active_context_tokens b + num_computed_tokens r\<rparr>"

definition baseline_step :: "string list \<Rightarrow> request \<Rightarrow> baseline_state \<Rightarrow> baseline_state" where
  "baseline_step regulated r b0 =
     (let g = taper_plus_group_id r;
          cand = is_taper_plus_decode_candidate r;
          b = (if cand then b0\<lparr>all_decode_groups := List.insert g (all_decode_groups b0)\<rparr> else b0)
      in if g \<notin> set regulated \<or> \<not> cand
         then (if cand then admit_branch r b
               else b\<lparr>admitted_req_ids := insert (request_id r) (admitted_req_ids b)\<rparr>)
         else if g \<notin> set (baseline_groups b)
         then (admit_branch r b)\<lparr>baseline_groups := List.insert g (baseline_groups b)\<rparr>
         else b\<lparr>deferred_by_group := group_add g r (deferred_by_group b)\<rparr>)"

definition build_baseline :: "string list \<Rightarrow> request list \<Rightarrow> baseline_state" where
  "build_baseline regulated reqs =
     fold (baseline_step regulated) reqs
       \<lparr>admitted_req_ids = {}, deferred_by_group = [], all_decode_groups = [], baseline_groups = [],
        active_decode_width = 0, active_context_tokens = 0\<rparr>"

text \<open>What stays fixed during the greedy loop, and its variables.\<close>

record plan_context =
  pc_now_s :: real
  pc_group_slack_ms :: "(string \<times> real) list"
  pc_min_slack_ms :: real
  pc_budget_ms :: real
  pc_memory_gate :: bool
  pc_memory_threshold :: int

record greedy_state =
  gr_admitted :: "string set"
  gr_deferred :: "(string \<times> request list) list"
  gr_width :: int
  gr_context :: int
  gr_baseline_ms :: real
  granted_by_group :: "string \<Rightarrow> int"
  infeasible_groups :: "string list"
  virtual_free_blocks :: int

record scan_state =
  sc_best :: "(string \<times> request \<times> real \<times> real) option"
  sc_infeasible :: "string list"

definition eps :: real where "eps = 1 / 1000000"

definition taper_scan_step ::
    "taper_state \<Rightarrow> taper_view \<Rightarrow> plan_context \<Rightarrow> greedy_state \<Rightarrow> string \<times> request list \<Rightarrow> scan_state \<Rightarrow> scan_state" where
  "taper_scan_step st v pc gs = (\<lambda>(group_id, deferred) sc.
     if group_id \<in> set (sc_infeasible sc) then sc
     else case deferred of
       [] \<Rightarrow> sc
     | r # _ \<Rightarrow>
        (let predicted_step_ms = predict_taper_plus_step_ms st (gr_width gs + 1) (gr_context gs + num_computed_tokens r);
             slack = (case map_of (pc_group_slack_ms pc) group_id of None \<Rightarrow> pc_min_slack_ms pc | Some s \<Rightarrow> s);
             group_budget_ms = gr_baseline_ms gs + taper_plus_rho st * max 0 (slack - gr_baseline_ms gs);
             branch_overdue_ms = (if taper_plus_branch_overdue_boost st
                                  then get_taper_plus_branch_overdue_ms st r (pc_now_s pc) else 0);
             candidate_budget0 = max (pc_budget_ms pc) group_budget_ms;
             candidate_budget_ms = (if 0 < branch_overdue_ms then max candidate_budget0 predicted_step_ms
                                    else candidate_budget0)
         in if candidate_budget_ms < predicted_step_ms then sc
            else if pc_memory_gate pc \<and>
                    (virtual_free_blocks gs < pc_memory_threshold pc \<or>
                     virtual_free_blocks gs < estimate_future_footprint v r) \<and> \<not> is_short_lived r
            then sc\<lparr>sc_infeasible := List.insert group_id (sc_infeasible sc)\<rparr>
            else let du0 = taper_plus_marginal_utility st (granted_by_group gs group_id);
                     du = (if 0 < branch_overdue_ms
                           then du0 * (1 + branch_overdue_ms / max 1 (taper_plus_tpot_slo_s st * 1000)) else du0);
                     dt = predicted_step_ms - gr_baseline_ms gs;
                     score = du / (eps + max 0 dt)
                 in if (case sc_best sc of None \<Rightarrow> True | Some (_, _, best_score, _) \<Rightarrow> best_score < score)
                    then sc\<lparr>sc_best := Some (group_id, r, score, predicted_step_ms)\<rparr>
                    else sc))"

definition taper_scan ::
    "taper_state \<Rightarrow> taper_view \<Rightarrow> plan_context \<Rightarrow> greedy_state \<Rightarrow> scan_state" where
  "taper_scan st v pc gs =
     fold (taper_scan_step st v pc gs) (gr_deferred gs) \<lparr>sc_best = None, sc_infeasible = infeasible_groups gs\<rparr>"

definition pop_group :: "string \<Rightarrow> (string \<times> 'a list) list \<Rightarrow> (string \<times> 'a list) list" where
  "pop_group g d = map (\<lambda>(k, xs). if k = g then (k, tl xs) else (k, xs)) d"

text \<open>The loop over \<open>available_extra_slots\<close>.\<close>

fun taper_greedy :: "taper_state \<Rightarrow> taper_view \<Rightarrow> plan_context \<Rightarrow> nat \<Rightarrow> greedy_state \<Rightarrow> greedy_state" where
  "taper_greedy st v pc 0 gs = gs"
| "taper_greedy st v pc (Suc n) gs =
     (let sc = taper_scan st v pc gs;
          gs1 = gs\<lparr>infeasible_groups := sc_infeasible sc\<rparr>
      in case sc_best sc of
           None \<Rightarrow> gs1
         | Some (g, r, score, predicted_step_ms) \<Rightarrow>
             if score \<le> 0 then gs1
             else taper_greedy st v pc n
               (gs1\<lparr>gr_admitted := insert (request_id r) (gr_admitted gs1),
                    gr_width := gr_width gs1 + 1,
                    gr_context := gr_context gs1 + num_computed_tokens r,
                    gr_baseline_ms := predicted_step_ms,
                    granted_by_group := (granted_by_group gs1)(g := granted_by_group gs1 g + 1),
                    gr_deferred := pop_group g (gr_deferred gs1),
                    virtual_free_blocks := (if pc_memory_gate pc
                      then max 0 (virtual_free_blocks gs1 - estimate_future_footprint v r)
                      else virtual_free_blocks gs1)\<rparr>))"

definition sort_deferred :: "bool \<Rightarrow> (string \<times> request list) list \<Rightarrow> (string \<times> request list) list" where
  "sort_deferred gate d =
     map (\<lambda>(g, rs). (g, if gate
        then sort_key (\<lambda>r. (- prob_short r, arrival_time r, request_id r)) rs
        else sort_key (\<lambda>r. (arrival_time r, request_id r)) rs)) d"

definition group_slacks ::
    "taper_state \<Rightarrow> real \<Rightarrow> (string \<times> request list) list \<Rightarrow> string list \<Rightarrow> (string \<times> real) list res" where
  "group_slacks st now_s candidates groups =
     map_res (\<lambda>g. case map_of candidates g of
         None \<Rightarrow> Inl KeyError
       | Some rs \<Rightarrow> bindE (get_taper_plus_group_deadline_s st rs) (\<lambda>d.
           Inr (g, max 0 (d - now_s) * 1000))) groups"

text \<open>The planner for the policies it does not hand over to a controller; \<open>None\<close> admits everything.\<close>

definition taper_plan :: "taper_state \<Rightarrow> taper_view \<Rightarrow> real \<Rightarrow> int \<Rightarrow> string set option res" where
  "taper_plan st v now_s token_budget =
     (if \<not> enable_taper_plus st \<or> token_budget \<le> 0 then Inr None
      else let gate = (taper_plus_policy st = PTaperPlus);
               candidates = group_candidates (running v);
               regulated = regulated_groups candidates
        in if regulated = [] then Inr None
           else let b = build_baseline regulated (running v) in
             if deferred_by_group b = [] then Inr (Some (admitted_req_ids b))
             else let memory_threshold = get_taper_plus_memory_threshold st v in
               if taper_plus_eager_when_unpressured st \<and> 0 < taper_plus_step_target_ms st \<and>
                  num_waiting v = 0 \<and> num_skipped_waiting v = 0 \<and>
                  memory_threshold * 2 \<le> remaining_free_blocks v
               then Inr (Some (request_id ` set (running v)))
               else let deferred = sort_deferred gate (deferred_by_group b) in
                 if taper_plus_step_target_ms st \<le> 0 then Inr (Some (admitted_req_ids b))
                 else bindE (group_slacks st now_s candidates (all_decode_groups b)) (\<lambda>slacks.
                   let min_slack_ms = Min (set (map snd slacks));
                       baseline_step_ms = predict_taper_plus_step_ms st (active_decode_width b) (active_context_tokens b);
                       pc = \<lparr>pc_now_s = now_s, pc_group_slack_ms = slacks, pc_min_slack_ms = min_slack_ms,
                             pc_budget_ms = baseline_step_ms + taper_plus_rho st * max 0 (min_slack_ms - baseline_step_ms),
                             pc_memory_gate = gate, pc_memory_threshold = memory_threshold\<rparr>;
                       gs = taper_greedy st v pc (nat (token_budget - active_decode_width b))
                              \<lparr>gr_admitted = admitted_req_ids b, gr_deferred = deferred,
                               gr_width = active_decode_width b, gr_context = active_context_tokens b,
                               gr_baseline_ms = baseline_step_ms, granted_by_group = (\<lambda>_. 0),
                               infeasible_groups = [], virtual_free_blocks = remaining_free_blocks v\<rparr>
                   in Inr (Some (gr_admitted gs))))"

definition taper_admission_log_counts ::
    "request list \<Rightarrow> string set option \<Rightarrow> int \<times> int \<times> int \<times> int \<times> int" where
  "taper_admission_log_counts reqs admitted =
     (let regulated = filter (\<lambda>rs. 1 < length rs) (map snd (group_candidates reqs));
          total = sum_list (map (\<lambda>rs. int (length rs)) regulated);
          n_admitted = (case admitted of
            None \<Rightarrow> total
          | Some A \<Rightarrow> sum_list (map (\<lambda>rs. int (length (filter (\<lambda>r. request_id r \<in> A) rs))) regulated));
          max_width = (if regulated = [] then 0 else Max (set (map (\<lambda>rs. int (length rs)) regulated)))
      in (int (length regulated), total, n_admitted, total - n_admitted, max_width))"

section \<open>The latency model stays in range\<close>

definition taper_ok :: "taper_state \<Rightarrow> bool" where
  "taper_ok st \<longleftrightarrow>
     0 \<le> taper_plus_latency_base_ms st \<and> min_width_ms \<le> taper_plus_latency_width_ms st \<and>
     0 \<le> taper_plus_latency_context_ms_per_1k st \<and> 1 \<le> taper_plus_safety_factor st \<and>
     0 \<le> taper_plus_rho st \<and> taper_plus_rho st \<le> 1 \<and>
     0 \<le> taper_plus_calibration_alpha st \<and> taper_plus_calibration_alpha st \<le> 1 \<and>
     0 \<le> taper_plus_ttft_slo_s st \<and> 0 \<le> taper_plus_tpot_slo_s st"

lemma get_float_profile_value_default: "\<exists>x. get_float_profile_value p keys (Some d) = Some x"
  by (induction keys) (auto split: option.split)

lemma load_profile_spec:
  "\<exists>st'. load_taper_plus_latency_profile p st = Inr st' \<and> (taper_ok st \<longrightarrow> taper_ok st')"
proof (cases p)
  case None
  then show ?thesis by (simp add: load_taper_plus_latency_profile_def)
next
  case (Some q)
  obtain x y z where xyz:
    "get_float_profile_value q [''base_ms'', ''latency_base_ms''] (Some (taper_plus_latency_base_ms st)) = Some x"
    "get_float_profile_value q [''width_ms'', ''latency_width_ms'', ''per_seq_ms'']
       (Some (taper_plus_latency_width_ms st)) = Some y"
    "get_float_profile_value q [''context_ms_per_1k'', ''latency_context_ms_per_1k'']
       (Some (taper_plus_latency_context_ms_per_1k st)) = Some z"
    using get_float_profile_value_default by meson
  show ?thesis
    unfolding load_taper_plus_latency_profile_def Some option.case xyz prod.case Let_def
    by (cases "get_float_profile_value q [''safety_factor''] None") (simp_all only: option.case, simp_all add: taper_ok_def)
qed

lemma init_taper_ok:
  assumes "init_taper e p = Inr st"
  shows "taper_ok st"
proof -
  from assms obtain st0 where st0: "load_taper_plus_latency_profile p st0 = Inr st" "taper_ok st0"
    unfolding init_taper_def bindE_eq_Inr by (elim exE conjE) (erule that, simp add: taper_ok_def)
  with load_profile_spec [of p st0] show ?thesis by simp
qed

lemma update_latency_model_ok: "taper_ok st \<Longrightarrow> taper_ok (update_taper_plus_latency_model obs w c p st)"
  by (simp add: update_taper_plus_latency_model_def taper_ok_def Let_def)

lemma predict_nonneg: "taper_ok st \<Longrightarrow> 0 \<le> predict_taper_plus_step_ms st w c"
  by (simp add: predict_taper_plus_step_ms_def taper_ok_def)

lemma raw_step_nonneg: "taper_ok st \<Longrightarrow> 0 \<le> w \<Longrightarrow> 0 \<le> c \<Longrightarrow> 0 \<le> raw_step_ms st w c"
  by (simp add: raw_step_ms_def taper_ok_def min_width_ms_def)

lemma calibration_step:
  fixes st :: taper_state and observed alpha :: real and w c :: int
  defines "err \<equiv> observed - raw_step_ms st w c"
    and "k \<equiv> (of_int c :: real) / 1000"
    and "nrm \<equiv> 1 + (of_int w)\<^sup>2 + ((of_int c :: real) / 1000)\<^sup>2"
  shows "taper_plus_latency_base_ms st + alpha * err / nrm +
     (taper_plus_latency_width_ms st + alpha * err * of_int w / nrm) * of_int w +
     (taper_plus_latency_context_ms_per_1k st + alpha * err * k / nrm) * k =
     raw_step_ms st w c + alpha * err"
proof -
  have "0 < nrm" unfolding nrm_def by (simp add: add_pos_nonneg add_nonneg_pos)
  then have "alpha * err / nrm + alpha * err * of_int w / nrm * of_int w + alpha * err * k / nrm * k =
      alpha * err * (1 + (of_int w)\<^sup>2 + k\<^sup>2) / nrm"
    by (simp add: field_simps power2_eq_square)
  also have "\<dots> = alpha * err" using \<open>0 < nrm\<close> by (simp add: nrm_def k_def)
  finally show ?thesis by (simp add: raw_step_ms_def k_def algebra_simps)
qed

end
