(* ===== verification/Taper_Plan.thy ===== *)
theory Taper_Plan
  imports Taper
begin

text \<open>
  What the TAPER planner of \<open>Taper\<close> guarantees.

  \<^item> \<open>split_ok\<close>: the decode branches are split into admitted and deferred ones, counted by the width and
    the context the latency model is asked about; building the protected set and every greedy step keep it.
  \<^item> \<open>taper_greedy_inv\<close>: the greedy loop only adds branches, at most as many as there are slots, and
    only within the budget of some parent's slack.
  \<^item> The properties: no parent is left behind, the token budget and the largest slack are kept outside
    the cases named there (overdue branches, the low-pressure guardrail), and
    calibration shrinks the prediction error by the factor \<open>1 - alpha\<close>.
\<close>

section \<open>Grouping\<close>

lemma map_of_group_add:
  "map_of (group_add k x d) = (map_of d)(k \<mapsto> (case map_of d k of None \<Rightarrow> [x] | Some xs \<Rightarrow> xs @ [x]))"
  by (induction k x d rule: group_add.induct) (auto simp: fun_eq_iff)

lemma keys_group_add: "set (map fst (group_add k x d)) = insert k (set (map fst d))"
  by (induction k x d rule: group_add.induct) auto

lemma distinct_group_add: "distinct (map fst d) \<Longrightarrow> distinct (map fst (group_add k x d))"
proof (induction k x d rule: group_add.induct)
  case (2 k x k' xs d)
  then show ?case using keys_group_add [of k x d] by (auto simp: image_iff)
qed simp

lemma mset_group_add: "mset (concat (map snd (group_add k x d))) = add_mset x (mset (concat (map snd d)))"
  by (induction k x d rule: group_add.induct) auto

abbreviation branches :: "string \<Rightarrow> request list \<Rightarrow> request list" where
  "branches g reqs \<equiv> filter (\<lambda>r. is_taper_plus_decode_candidate r \<and> taper_plus_group_id r = g) reqs"

lemma group_candidates_snoc:
  "group_candidates (reqs @ [r]) =
     (if is_taper_plus_decode_candidate r then group_add (taper_plus_group_id r) r (group_candidates reqs)
      else group_candidates reqs)"
  by (simp add: group_candidates_def)

lemma map_of_group_candidates:
  "map_of (group_candidates reqs) g = (if branches g reqs = [] then None else Some (branches g reqs))"
proof (induction reqs rule: rev_induct)
  case Nil
  show ?case by (simp add: group_candidates_def)
next
  case (snoc r reqs)
  then show ?case by (auto simp: group_candidates_snoc map_of_group_add)
qed

lemma distinct_group_candidates: "distinct (map fst (group_candidates reqs))"
proof (induction reqs rule: rev_induct)
  case (snoc r reqs)
  then show ?case by (simp add: group_candidates_snoc distinct_group_add)
qed (simp add: group_candidates_def)

lemma in_regulated_groups:
  "g \<in> set (regulated_groups (group_candidates reqs)) \<longleftrightarrow> 1 < length (branches g reqs)"
proof -
  have "g \<in> set (regulated_groups (group_candidates reqs)) \<longleftrightarrow>
      (\<exists>rs. (g, rs) \<in> set (group_candidates reqs) \<and> 1 < length rs)"
    by (force simp: regulated_groups_def)
  also have "\<dots> \<longleftrightarrow> (\<exists>rs. map_of (group_candidates reqs) g = Some rs \<and> 1 < length rs)"
    using distinct_group_candidates by (simp add: map_of_eq_Some_iff)
  finally show ?thesis by (auto simp: map_of_group_candidates)
qed

section \<open>The protected branches\<close>

abbreviation decoders :: "request list \<Rightarrow> request list" where
  "decoders reqs \<equiv> filter is_taper_plus_decode_candidate reqs"

definition admitted_decoders :: "request list \<Rightarrow> string set \<Rightarrow> request list" where
  "admitted_decoders reqs A = filter (\<lambda>r. request_id r \<in> A) (decoders reqs)"

lemma build_baseline_snoc:
  "build_baseline R (reqs @ [r]) = baseline_step R r (build_baseline R reqs)"
  by (simp add: build_baseline_def)

lemma baseline_step_cases:
  obtains (other) "\<not> is_taper_plus_decode_candidate r"
      "baseline_step R r b = b\<lparr>admitted_req_ids := insert (request_id r) (admitted_req_ids b)\<rparr>"
  | (single) "is_taper_plus_decode_candidate r" "taper_plus_group_id r \<notin> set R"
      "baseline_step R r b = admit_branch r (b\<lparr>all_decode_groups := List.insert (taper_plus_group_id r) (all_decode_groups b)\<rparr>)"
  | (first) "is_taper_plus_decode_candidate r" "taper_plus_group_id r \<in> set R"
      "taper_plus_group_id r \<notin> set (baseline_groups b)"
      "baseline_step R r b = (admit_branch r (b\<lparr>all_decode_groups := List.insert (taper_plus_group_id r) (all_decode_groups b)\<rparr>))
         \<lparr>baseline_groups := List.insert (taper_plus_group_id r) (baseline_groups b)\<rparr>"
  | (deferred) "is_taper_plus_decode_candidate r" "taper_plus_group_id r \<in> set R"
      "taper_plus_group_id r \<in> set (baseline_groups b)"
      "baseline_step R r b = b\<lparr>all_decode_groups := List.insert (taper_plus_group_id r) (all_decode_groups b),
         deferred_by_group := group_add (taper_plus_group_id r) r (deferred_by_group b)\<rparr>"
  by (cases "is_taper_plus_decode_candidate r"; cases "taper_plus_group_id r \<in> set R";
      cases "taper_plus_group_id r \<in> set (baseline_groups b)")
    (simp_all add: baseline_step_def Let_def)

lemma admit_branch_simps [simp]:
  "admitted_req_ids (admit_branch r b) = insert (request_id r) (admitted_req_ids b)"
  "deferred_by_group (admit_branch r b) = deferred_by_group b"
  "all_decode_groups (admit_branch r b) = all_decode_groups b"
  "baseline_groups (admit_branch r b) = baseline_groups b"
  "active_decode_width (admit_branch r b) = active_decode_width b + 1"
  "active_context_tokens (admit_branch r b) = active_context_tokens b + num_computed_tokens r"
  by (simp_all add: admit_branch_def)

lemma build_baseline_groups:
  "set (baseline_groups (build_baseline R reqs)) = taper_plus_group_id ` {r \<in> set (decoders reqs). taper_plus_group_id r \<in> set R} \<and>
   set (all_decode_groups (build_baseline R reqs)) = taper_plus_group_id ` set (decoders reqs)"
proof (induction reqs rule: rev_induct)
  case Nil
  show ?case by (simp add: build_baseline_def)
next
  case (snoc r reqs)
  show ?case
    by (cases rule: baseline_step_cases [of r R "build_baseline R reqs"])
      (use snoc in \<open>auto simp: build_baseline_snoc\<close>)
qed

lemma build_baseline_admits:
  "admitted_req_ids (build_baseline R reqs) \<subseteq> request_id ` set reqs \<and>
   (\<forall>r \<in> set reqs. \<not> is_taper_plus_decode_candidate r \<or> taper_plus_group_id r \<notin> set R \<longrightarrow>
      request_id r \<in> admitted_req_ids (build_baseline R reqs))"
proof (induction reqs rule: rev_induct)
  case Nil
  show ?case by (simp add: build_baseline_def)
next
  case (snoc r reqs)
  show ?case
    by (cases rule: baseline_step_cases [of r R "build_baseline R reqs"])
      (use snoc in \<open>auto simp: build_baseline_snoc\<close>)
qed

text \<open>Every parent with a decoding branch has a protected branch.\<close>

lemma build_baseline_protects:
  "r \<in> set (decoders reqs) \<Longrightarrow> \<exists>r' \<in> set (decoders reqs). taper_plus_group_id r' = taper_plus_group_id r \<and>
     request_id r' \<in> admitted_req_ids (build_baseline R reqs)"
proof (induction reqs arbitrary: r rule: rev_induct)
  case (snoc q reqs)
  let ?b = "build_baseline R reqs"
  have old: "\<exists>r' \<in> set (decoders (reqs @ [q])). taper_plus_group_id r' = taper_plus_group_id r \<and>
      request_id r' \<in> admitted_req_ids (build_baseline R (reqs @ [q]))" if "r \<in> set (decoders reqs)" for r
  proof -
    have "admitted_req_ids ?b \<subseteq> admitted_req_ids (build_baseline R (reqs @ [q]))"
      by (cases rule: baseline_step_cases [of q R ?b]) (auto simp: build_baseline_snoc)
    with snoc.IH [OF that] show ?thesis by auto
  qed
  show ?case
  proof (cases "r \<in> set (decoders reqs)")
    case False
    then have r: "r = q" "is_taper_plus_decode_candidate q" using snoc.prems by (auto split: if_splits)
    show ?thesis
    proof (cases rule: baseline_step_cases [of q R ?b])
      case deferred
      then obtain r0 where "r0 \<in> set (decoders reqs)" "taper_plus_group_id r0 = taper_plus_group_id q"
        using build_baseline_groups [of R reqs] by auto
      with old [of r0] r show ?thesis by simp
    qed (use r in \<open>auto simp: build_baseline_snoc\<close>)
  qed (use old in blast)
qed simp

lemma admitted_decoders_snoc:
  "admitted_decoders (reqs @ [r]) A =
     admitted_decoders reqs A @ (if is_taper_plus_decode_candidate r \<and> request_id r \<in> A then [r] else [])"
  by (simp add: admitted_decoders_def)

lemma admitted_decoders_Cons:
  "admitted_decoders (r # reqs) A =
     (if is_taper_plus_decode_candidate r \<and> request_id r \<in> A then [r] else []) @ admitted_decoders reqs A"
  by (simp add: admitted_decoders_def)

lemma admitted_decoders_new:
  "x \<notin> request_id ` set reqs \<Longrightarrow> admitted_decoders reqs (insert x A) = admitted_decoders reqs A"
  by (auto simp: admitted_decoders_def intro!: filter_cong)

abbreviation deferred_branches :: "(string \<times> request list) list \<Rightarrow> request list" where
  "deferred_branches d \<equiv> concat (map snd d)"

text \<open>
  With distinct request ids, the decode branches are split into the admitted ones, which the width and
  the context count, and the deferred ones.
\<close>

definition split_ok :: "request list \<Rightarrow> string set \<Rightarrow> (string \<times> request list) list \<Rightarrow> int \<Rightarrow> int \<Rightarrow> bool" where
  "split_ok reqs A d width ctx \<longleftrightarrow>
     distinct (map fst d) \<and> width = int (length (admitted_decoders reqs A)) \<and>
     ctx = sum_list (map num_computed_tokens (admitted_decoders reqs A)) \<and>
     distinct (deferred_branches d) \<and> set (deferred_branches d) \<subseteq> set (decoders reqs) \<and>
     (\<forall>r \<in> set (deferred_branches d). request_id r \<notin> A)"

lemma set_group_add: "set (deferred_branches (group_add k x d)) = insert x (set (deferred_branches d))"
  by (metis mset_group_add set_mset_add_mset_insert set_mset_mset)

lemma distinct_branches_group_add:
  assumes "distinct (deferred_branches d)" and "x \<notin> set (deferred_branches d)"
  shows "distinct (deferred_branches (group_add k x d))"
proof -
  have "mset (deferred_branches (group_add k x d)) = mset (x # deferred_branches d)"
    by (simp add: mset_group_add)
  from mset_eq_imp_distinct_iff [OF this] assms show ?thesis by simp
qed

lemma split_okI:
  assumes "distinct (map fst d)" and "width = int (length (admitted_decoders reqs A))"
    and "ctx = sum_list (map num_computed_tokens (admitted_decoders reqs A))"
    and "distinct (deferred_branches d)" and "set (deferred_branches d) \<subseteq> set (decoders reqs)"
    and "\<And>r. r \<in> set (deferred_branches d) \<Longrightarrow> request_id r \<notin> A"
  shows "split_ok reqs A d width ctx"
  unfolding split_ok_def using assms by blast

lemma split_okD:
  assumes "split_ok reqs A d width ctx"
  shows "distinct (map fst d)" and "width = int (length (admitted_decoders reqs A))"
    and "ctx = sum_list (map num_computed_tokens (admitted_decoders reqs A))"
    and "distinct (deferred_branches d)" and "set (deferred_branches d) \<subseteq> set (decoders reqs)"
    and "\<And>r. r \<in> set (deferred_branches d) \<Longrightarrow> request_id r \<notin> A"
  using assms unfolding split_ok_def by blast+

lemma split_ok_snoc:
  assumes ok: "split_ok reqs A d w c" and new: "request_id r \<notin> request_id ` set reqs"
    and A: "A \<subseteq> request_id ` set reqs"
  shows "\<not> is_taper_plus_decode_candidate r \<Longrightarrow> split_ok (reqs @ [r]) (insert (request_id r) A) d w c"
    and "is_taper_plus_decode_candidate r \<Longrightarrow>
      split_ok (reqs @ [r]) (insert (request_id r) A) d (w + 1) (c + num_computed_tokens r)"
    and "is_taper_plus_decode_candidate r \<Longrightarrow> split_ok (reqs @ [r]) A (group_add k r d) w c"
proof -
  note D = split_okD [OF ok]
  have ids: "request_id q \<noteq> request_id r" if "q \<in> set (deferred_branches d)" for q
  proof -
    from that D(5) have "q \<in> set (decoders reqs)" by blast
    then have "request_id q \<in> request_id ` set reqs" by simp
    with new show ?thesis by metis
  qed
  then have notin: "r \<notin> set (deferred_branches d)" by blast
  have fresh: "request_id r \<notin> A" using A new by blast
  have keep: "request_id q \<notin> insert (request_id r) A" if "q \<in> set (deferred_branches d)" for q
    using ids [OF that] D(6) [OF that] by blast
  have "set (decoders reqs) \<subseteq> set (decoders (reqs @ [r]))" by simp
  with D(5) have sub': "set (deferred_branches d) \<subseteq> set (decoders (reqs @ [r]))" by (rule subset_trans)
  have adm: "admitted_decoders (reqs @ [r]) (insert (request_id r) A) =
      admitted_decoders reqs A @ (if is_taper_plus_decode_candidate r then [r] else [])"
    by (simp add: admitted_decoders_snoc admitted_decoders_new [OF new])
  show "split_ok (reqs @ [r]) (insert (request_id r) A) d w c" if "\<not> is_taper_plus_decode_candidate r"
    by (rule split_okI [OF D(1) _ _ D(4) sub' keep]) (simp_all add: adm that D(2,3))
  show "split_ok (reqs @ [r]) (insert (request_id r) A) d (w + 1) (c + num_computed_tokens r)"
    if "is_taper_plus_decode_candidate r"
    by (rule split_okI [OF D(1) _ _ D(4) sub' keep]) (simp_all add: adm that D(2,3))
  show "split_ok (reqs @ [r]) A (group_add k r d) w c" if c: "is_taper_plus_decode_candidate r"
  proof (rule split_okI [OF distinct_group_add [OF D(1)] _ _ distinct_branches_group_add [OF D(4) notin]])
    show "set (deferred_branches (group_add k r d)) \<subseteq> set (decoders (reqs @ [r]))"
      unfolding set_group_add using sub' c by simp
    show "request_id q \<notin> A" if "q \<in> set (deferred_branches (group_add k r d))" for q
      using that fresh D(6) unfolding set_group_add by blast
  qed (simp_all add: admitted_decoders_snoc fresh D(2,3))
qed

lemma build_baseline_split:
  assumes "distinct (map request_id reqs)"
  shows "split_ok reqs (admitted_req_ids (build_baseline R reqs)) (deferred_by_group (build_baseline R reqs))
    (active_decode_width (build_baseline R reqs)) (active_context_tokens (build_baseline R reqs))"
  using assms
proof (induction reqs rule: rev_induct)
  case Nil
  show ?case by (simp add: build_baseline_def split_ok_def admitted_decoders_def)
next
  case (snoc r reqs)
  let ?b = "build_baseline R reqs"
  have new: "request_id r \<notin> request_id ` set reqs" using snoc.prems by auto
  have sub: "admitted_req_ids ?b \<subseteq> request_id ` set reqs" using build_baseline_admits by blast
  have IH: "split_ok reqs (admitted_req_ids ?b) (deferred_by_group ?b) (active_decode_width ?b) (active_context_tokens ?b)"
    using snoc by simp
  note step = split_ok_snoc [OF IH new sub]
  show ?case
    by (cases rule: baseline_step_cases [of r R ?b])
      (simp_all only: build_baseline_snoc, simp_all add: step)
qed

lemma build_baseline_width:
  assumes "\<And>g. g \<notin> set R \<Longrightarrow> length (branches g reqs) \<le> 1"
  shows "active_decode_width (build_baseline R reqs) = int (card (taper_plus_group_id ` set (decoders reqs)))"
  using assms
proof (induction reqs rule: rev_induct)
  case Nil
  show ?case by (simp add: build_baseline_def)
next
  case (snoc r reqs)
  let ?b = "build_baseline R reqs" and ?G = "taper_plus_group_id ` set (decoders reqs)"
  have "length (branches g reqs) \<le> 1" if "g \<notin> set R" for g
    using snoc.prems [OF that] by (simp split: if_splits)
  then have IH: "active_decode_width ?b = int (card ?G)" by (rule snoc.IH)
  show ?case
  proof (cases rule: baseline_step_cases [of r R ?b])
    case single
    have "taper_plus_group_id r \<notin> ?G"
    proof
      assume "taper_plus_group_id r \<in> ?G"
      then have "branches (taper_plus_group_id r) reqs \<noteq> []" by (auto simp: filter_empty_conv)
      then show False using snoc.prems [OF single(2)] single(1) by (simp add: Suc_le_eq)
    qed
    with single IH show ?thesis by (simp add: build_baseline_snoc)
  next
    case first
    then have "taper_plus_group_id r \<notin> ?G" using build_baseline_groups [of R reqs] by auto
    with first IH show ?thesis by (simp add: build_baseline_snoc)
  next
    case deferred
    then have "taper_plus_group_id r \<in> ?G" using build_baseline_groups [of R reqs] by auto
    with deferred IH show ?thesis by (simp add: build_baseline_snoc insert_absorb)
  qed (use IH in \<open>simp add: build_baseline_snoc\<close>)
qed

text \<open>A set of admitted requests that contains the protected ones leaves no parent behind.\<close>

lemma protected_covers:
  assumes "admitted_req_ids (build_baseline (regulated_groups (group_candidates reqs)) reqs) \<subseteq> A"
    and "A \<subseteq> request_id ` set reqs"
  shows "A \<subseteq> request_id ` set reqs \<and>
    (\<forall>r \<in> set reqs. \<not> is_taper_plus_decode_candidate r \<or>
        length (branches (taper_plus_group_id r) reqs) \<le> 1 \<longrightarrow> request_id r \<in> A) \<and>
    (\<forall>r \<in> set (decoders reqs). \<exists>r' \<in> set (decoders reqs).
        taper_plus_group_id r' = taper_plus_group_id r \<and> request_id r' \<in> A)"
proof (intro conjI ballI impI)
  let ?R = "regulated_groups (group_candidates reqs)"
  show "A \<subseteq> request_id ` set reqs" by (rule assms(2))
  show "request_id r \<in> A" if "r \<in> set reqs" "\<not> is_taper_plus_decode_candidate r \<or>
      length (branches (taper_plus_group_id r) reqs) \<le> 1" for r
    using build_baseline_admits [of ?R reqs] that assms(1) by (auto simp: in_regulated_groups)
  show "\<exists>r' \<in> set (decoders reqs). taper_plus_group_id r' = taper_plus_group_id r \<and> request_id r' \<in> A"
    if "r \<in> set (decoders reqs)" for r
    using build_baseline_protects [OF that, of ?R] assms(1) by blast
qed

lemma protected_width:
  "active_decode_width (build_baseline (regulated_groups (group_candidates reqs)) reqs) =
     int (card (taper_plus_group_id ` set (decoders reqs)))"
  by (rule build_baseline_width) (simp add: in_regulated_groups)

section \<open>The greedy loop\<close>

lemma keys_pop_group [simp]: "map fst (pop_group g d) = map fst d"
  by (simp add: pop_group_def case_prod_beta o_def if_distrib cong: if_cong)

lemma pop_group_absent: "g \<notin> fst ` set d \<Longrightarrow> pop_group g d = d"
  by (force simp: pop_group_def intro!: map_idI)

lemma mset_pop_group:
  "distinct (map fst d) \<Longrightarrow> (g, r # rs) \<in> set d \<Longrightarrow>
   mset (deferred_branches d) = add_mset r (mset (deferred_branches (pop_group g d)))"
proof (induction d)
  case (Cons p d)
  obtain k xs where p: "p = (k, xs)" by (cases p)
  show ?case
  proof (cases "k = g")
    case True
    with Cons.prems have "g \<notin> fst ` set d" "xs = r # rs" by (auto simp: p image_iff)
    with True pop_group_absent [of g d] show ?thesis by (simp add: p pop_group_def)
  next
    case False
    with Cons have "mset (deferred_branches d) = add_mset r (mset (deferred_branches (pop_group g d)))"
      by (auto simp: p)
    with False show ?thesis by (simp add: p pop_group_def)
  qed
qed simp

lemma admitted_decoders_insert:
  assumes "distinct (map request_id reqs)" and "r \<in> set (decoders reqs)" and "request_id r \<notin> A"
  shows "mset (admitted_decoders reqs (insert (request_id r) A)) = add_mset r (mset (admitted_decoders reqs A))"
  using assms
proof (induction reqs)
  case (Cons q reqs)
  show ?case
  proof (cases "q = r")
    case True
    then have "request_id r \<notin> request_id ` set reqs" using Cons.prems(1) by simp
    with True Cons.prems(2,3) admitted_decoders_new [of "request_id r" reqs A] show ?thesis
      by (auto simp: admitted_decoders_Cons split: if_splits)
  next
    case False
    then have "r \<in> set (decoders reqs)" using Cons.prems(2) by (auto split: if_splits)
    moreover from this have "request_id q \<noteq> request_id r" using Cons.prems(1) by force
    ultimately show ?thesis using Cons by (simp add: admitted_decoders_Cons)
  qed
qed simp

lemma split_ok_admit:
  assumes ok: "split_ok reqs A d w c" and ids: "distinct (map request_id reqs)" and keys: "distinct (map fst d')"
    and ms: "mset (deferred_branches d) = add_mset r (mset (deferred_branches d'))"
  shows "split_ok reqs (insert (request_id r) A) d' (w + 1) (c + num_computed_tokens r)"
    and "r \<in> set (decoders reqs)" and "request_id r \<notin> A"
proof -
  note D = split_okD [OF ok]
  have set: "set (deferred_branches d) = insert r (set (deferred_branches d'))"
    using arg_cong [OF ms, of set_mset] by (simp only: set_mset_mset set_mset_add_mset_insert)
  have "distinct (r # deferred_branches d')"
    using mset_eq_imp_distinct_iff [of "deferred_branches d" "r # deferred_branches d'"] ms D(4)
    by (simp only: mset.simps)
  then have dist: "distinct (deferred_branches d')"
    and notin: "r \<notin> set (deferred_branches d')" unfolding distinct.simps by blast+
  show r: "r \<in> set (decoders reqs)" and fresh: "request_id r \<notin> A" using D(5,6) set by blast+
  note adm = admitted_decoders_insert [OF ids r fresh]
  show "split_ok reqs (insert (request_id r) A) d' (w + 1) (c + num_computed_tokens r)"
  proof (rule split_okI [OF _ _ _ dist])
    show "distinct (map fst d')" by (rule keys)
    show "w + 1 = int (length (admitted_decoders reqs (insert (request_id r) A)))"
      using arg_cong [OF adm, of size] D(2) by simp
    show "c + num_computed_tokens r = sum_list (map num_computed_tokens (admitted_decoders reqs (insert (request_id r) A)))"
      using arg_cong [OF adm, of "\<lambda>M. sum_mset (image_mset num_computed_tokens M)"] D(3)
      by (simp flip: sum_mset_sum_list)
    show "set (deferred_branches d') \<subseteq> set (decoders reqs)" using D(5) set by blast
    show "request_id q \<notin> insert (request_id r) A" if q: "q \<in> set (deferred_branches d')" for q
    proof -
      have "q \<in> set (decoders reqs)" "q \<noteq> r" using q D(5) set notin by blast+
      then have "request_id q \<noteq> request_id r" using ids r by (auto simp: distinct_map inj_on_def)
      moreover have "request_id q \<notin> A" using q D(6) set by blast
      ultimately show ?thesis by blast
    qed
  qed
qed

lemma split_ok_pop:
  assumes ok: "split_ok reqs A d w c" and ids: "distinct (map request_id reqs)" and mem: "(g, r # rs) \<in> set d"
  shows "split_ok reqs (insert (request_id r) A) (pop_group g d) (w + 1) (c + num_computed_tokens r)"
    and "r \<in> set (decoders reqs)" and "request_id r \<notin> A"
proof -
  have keys: "distinct (map fst (pop_group g d))" using split_okD(1) [OF ok] by simp
  note admit = split_ok_admit [OF ok ids keys mset_pop_group [OF split_okD(1) [OF ok] mem]]
  show "split_ok reqs (insert (request_id r) A) (pop_group g d) (w + 1) (c + num_computed_tokens r)"
    and "r \<in> set (decoders reqs)" and "request_id r \<notin> A" by (rule admit)+
qed

definition slack_of :: "plan_context \<Rightarrow> string \<Rightarrow> real" where
  "slack_of pc g = (case map_of (pc_group_slack_ms pc) g of None \<Rightarrow> pc_min_slack_ms pc | Some s \<Rightarrow> s)"

text \<open>A branch that the boost for overdue branches exempts from the time budget.\<close>

definition boosted :: "taper_state \<Rightarrow> real \<Rightarrow> request \<Rightarrow> bool" where
  "boosted st now_s r \<longleftrightarrow> taper_plus_branch_overdue_boost st \<and> 0 < get_taper_plus_branch_overdue_ms st r now_s"

definition scan_ok ::
    "taper_state \<Rightarrow> plan_context \<Rightarrow> greedy_state \<Rightarrow> (string \<times> request \<times> real \<times> real) option \<Rightarrow> bool" where
  "scan_ok st pc gs best \<longleftrightarrow>
     (case best of
        None \<Rightarrow> True
      | Some (g, r, score, predicted) \<Rightarrow>
          (\<exists>rs. (g, r # rs) \<in> set (gr_deferred gs)) \<and>
          predicted = predict_taper_plus_step_ms st (gr_width gs + 1) (gr_context gs + num_computed_tokens r) \<and>
          (\<not> boosted st (pc_now_s pc) r \<longrightarrow>
             predicted \<le> max (pc_budget_ms pc)
               (gr_baseline_ms gs + taper_plus_rho st * max 0 (slack_of pc g - gr_baseline_ms gs))))"

lemma taper_scan_step_ok:
  assumes "x \<in> set (gr_deferred gs)" and "scan_ok st pc gs (sc_best sc)"
  shows "scan_ok st pc gs (sc_best (taper_scan_step st v pc gs x sc))"
proof -
  obtain g rs where x: "x = (g, rs)" by (cases x)
  show ?thesis
  proof (cases rs)
    case Nil
    with assms(2) show ?thesis by (simp add: taper_scan_step_def x)
  next
    case (Cons r rest)
    have mem: "\<exists>rs. (g, r # rs) \<in> set (gr_deferred gs)" using assms(1) x Cons by blast
    define pr where "pr = predict_taper_plus_step_ms st (gr_width gs + 1) (gr_context gs + num_computed_tokens r)"
    define gb where "gb = gr_baseline_ms gs + taper_plus_rho st * max 0 (slack_of pc g - gr_baseline_ms gs)"
    define od where "od = (if taper_plus_branch_overdue_boost st
      then get_taper_plus_branch_overdue_ms st r (pc_now_s pc) else 0)"
    define cb where "cb = (if 0 < od then max (max (pc_budget_ms pc) gb) pr else max (pc_budget_ms pc) gb)"
    have out: "sc_best (taper_scan_step st v pc gs x sc) = sc_best sc \<or>
        \<not> cb < pr \<and> (\<exists>score. sc_best (taper_scan_step st v pc gs x sc) = Some (g, r, score, pr))"
      unfolding taper_scan_step_def x Cons prod.case list.case Let_def slack_of_def [symmetric]
        pr_def [symmetric] gb_def [symmetric] od_def [symmetric] cb_def [symmetric]
      by simp
    have le: "pr \<le> max (pc_budget_ms pc) gb" if "\<not> boosted st (pc_now_s pc) r" "\<not> cb < pr"
      using that by (auto simp: cb_def od_def boosted_def not_less le_max_iff_disj split: if_splits)
    from out show ?thesis
    proof (elim disjE conjE exE)
      fix score
      assume "\<not> cb < pr" and best: "sc_best (taper_scan_step st v pc gs x sc) = Some (g, r, score, pr)"
      with le mem show ?thesis unfolding best scan_ok_def option.case prod.case gb_def [symmetric] pr_def [symmetric] by blast
    qed (use assms(2) in simp)
  qed
qed

lemma taper_scan_ok: "scan_ok st pc gs (sc_best (taper_scan st v pc gs))"
  unfolding taper_scan_def
  by (rule fold_invariant [where Q = "\<lambda>x. x \<in> set (gr_deferred gs)"])
    (auto simp: taper_scan_step_ok, simp add: scan_ok_def)

definition plan_inv :: "taper_state \<Rightarrow> request list \<Rightarrow> greedy_state \<Rightarrow> bool" where
  "plan_inv st reqs gs \<longleftrightarrow>
     split_ok reqs (gr_admitted gs) (gr_deferred gs) (gr_width gs) (gr_context gs) \<and>
     gr_baseline_ms gs = predict_taper_plus_step_ms st (gr_width gs) (gr_context gs) \<and>
     gr_admitted gs \<subseteq> request_id ` set reqs"

lemma budget_le:
  fixes rho :: real
  assumes "0 \<le> rho" and "rho \<le> 1"
  shows "b + rho * max 0 (s - b) \<le> max b s"
proof (cases "b \<le> s")
  case True
  then have "rho * (s - b) \<le> 1 * (s - b)" using assms by (intro mult_right_mono) auto
  with True show ?thesis by simp
qed simp

lemma taper_greedy_inv:
  assumes "plan_inv st reqs gs" and ids: "distinct (map request_id reqs)"
  shows "plan_inv st reqs (taper_greedy st v pc n gs) \<and>
    gr_admitted gs \<subseteq> gr_admitted (taper_greedy st v pc n gs) \<and>
    gr_width (taper_greedy st v pc n gs) \<le> gr_width gs + int n \<and>
    (taper_ok st \<longrightarrow> (\<forall>r \<in> set (admitted_decoders reqs (gr_admitted (taper_greedy st v pc n gs))). \<not> boosted st (pc_now_s pc) r) \<longrightarrow>
      (\<forall>g. slack_of pc g \<le> M) \<longrightarrow> pc_budget_ms pc \<le> M \<longrightarrow>
      gr_baseline_ms (taper_greedy st v pc n gs) \<le> max (gr_baseline_ms gs) M)"
  using assms(1)
proof (induction n arbitrary: gs)
  case (Suc n)
  let ?sc = "taper_scan st v pc gs" and ?gs1 = "gs\<lparr>infeasible_groups := sc_infeasible (taper_scan st v pc gs)\<rparr>"
  have inv1: "plan_inv st reqs ?gs1" using Suc.prems by (simp add: plan_inv_def)
  show ?case
  proof (cases "sc_best ?sc")
    case None
    then show ?thesis using inv1 by (simp add: Let_def)
  next
    case (Some best)
    obtain g r score pr where best: "best = (g, r, score, pr)" by (cases best)
    show ?thesis
    proof (cases "score \<le> 0")
      case True
      then show ?thesis using inv1 by (simp add: Let_def Some best)
    next
      case False
      from taper_scan_ok [of st pc gs v] obtain rs where scan: "(g, r # rs) \<in> set (gr_deferred gs)"
        "pr = predict_taper_plus_step_ms st (gr_width gs + 1) (gr_context gs + num_computed_tokens r)"
        "\<not> boosted st (pc_now_s pc) r \<longrightarrow> pr \<le> max (pc_budget_ms pc)
           (gr_baseline_ms gs + taper_plus_rho st * max 0 (slack_of pc g - gr_baseline_ms gs))"
        unfolding Some best scan_ok_def by auto
      define gs2 where "gs2 = ?gs1\<lparr>gr_admitted := insert (request_id r) (gr_admitted ?gs1),
                    gr_width := gr_width ?gs1 + 1,
                    gr_context := gr_context ?gs1 + num_computed_tokens r,
                    gr_baseline_ms := pr,
                    granted_by_group := (granted_by_group ?gs1)(g := granted_by_group ?gs1 g + 1),
                    gr_deferred := pop_group g (gr_deferred ?gs1),
                    virtual_free_blocks := (if pc_memory_gate pc
                      then max 0 (virtual_free_blocks ?gs1 - estimate_future_footprint v r)
                      else virtual_free_blocks ?gs1)\<rparr>"
      have run: "taper_greedy st v pc (Suc n) gs = taper_greedy st v pc n gs2"
        using False by (simp add: Let_def Some best gs2_def)
      have ok: "split_ok reqs (gr_admitted gs) (gr_deferred gs) (gr_width gs) (gr_context gs)"
        using Suc.prems by (simp add: plan_inv_def)
      note pop = split_ok_pop [OF ok ids scan(1)]
      have "plan_inv st reqs gs2"
        using pop Suc.prems scan(2) by (auto simp: plan_inv_def gs2_def)
      note IH = Suc.IH [OF this]
      have "gr_baseline_ms gs2 \<le> max (gr_baseline_ms gs) M"
        if "taper_ok st" "\<not> boosted st (pc_now_s pc) r" "\<forall>g. slack_of pc g \<le> M" "pc_budget_ms pc \<le> M"
      proof -
        have "gr_baseline_ms gs + taper_plus_rho st * max 0 (slack_of pc g - gr_baseline_ms gs)
            \<le> max (gr_baseline_ms gs) (slack_of pc g)"
          using that(1) by (intro budget_le) (simp_all add: taper_ok_def)
        moreover have "slack_of pc g \<le> M" using that(3) by blast
        ultimately show ?thesis using scan(3) that(2,4) by (simp add: gs2_def)
      qed
      moreover have "r \<in> set (admitted_decoders reqs (gr_admitted (taper_greedy st v pc n gs2)))"
        using IH pop(2) by (auto simp: admitted_decoders_def gs2_def)
      ultimately show ?thesis using IH unfolding run by (auto simp: gs2_def)
    qed
  qed
qed simp

section \<open>The plan\<close>

lemma sort_deferred_branches [simp]:
  "map fst (sort_deferred gate d) = map fst d"
  "mset (deferred_branches (sort_deferred gate d)) = mset (deferred_branches d)"
  unfolding sort_deferred_def by (induction d) auto

lemma split_ok_sort:
  assumes "split_ok reqs A d w c"
  shows "split_ok reqs A (sort_deferred gate d) w c"
proof -
  note D = split_okD [OF assms]
  have set: "set (deferred_branches (sort_deferred gate d)) = set (deferred_branches d)"
    using sort_deferred_branches(2) [of gate d] by (rule mset_eq_setD)
  show ?thesis
    by (rule split_okI) (use D mset_eq_imp_distinct_iff [OF sort_deferred_branches(2)] in
        \<open>simp_all only: set sort_deferred_branches(1) not_False_eq_True\<close>)
qed

lemma group_deadline_total:
  "rs \<noteq> [] \<Longrightarrow> \<exists>d. get_taper_plus_group_deadline_s st rs = Inr d"
  by (simp add: get_taper_plus_group_deadline_s_def)

definition group_slack :: "taper_state \<Rightarrow> real \<Rightarrow> request list \<Rightarrow> string \<Rightarrow> real" where
  "group_slack st now_s reqs g =
     max 0 (projr (get_taper_plus_group_deadline_s st (branches g reqs)) - now_s) * 1000"

lemma group_slacks_total:
  assumes "set groups \<subseteq> taper_plus_group_id ` set (decoders reqs)"
  shows "group_slacks st now_s (group_candidates reqs) groups =
    Inr (map (\<lambda>g. (g, group_slack st now_s reqs g)) groups)"
  unfolding group_slacks_def
proof (rule map_res_total)
  fix g
  assume "g \<in> set groups"
  then have ne: "branches g reqs \<noteq> []" using assms by (auto simp: filter_empty_conv)
  then obtain d where "get_taper_plus_group_deadline_s st (branches g reqs) = Inr d"
    using group_deadline_total by blast
  with ne show "(case map_of (group_candidates reqs) g of None \<Rightarrow> Inl KeyError
      | Some rs \<Rightarrow> bindE (get_taper_plus_group_deadline_s st rs) (\<lambda>d. Inr (g, max 0 (d - now_s) * 1000))) =
      Inr (g, group_slack st now_s reqs g)"
    by (simp add: map_of_group_candidates group_slack_def)
qed

text \<open>The low-pressure guardrail: nothing waits and twice the memory threshold is free.\<close>

definition eager_unpressured :: "taper_state \<Rightarrow> taper_view \<Rightarrow> bool" where
  "eager_unpressured st v \<longleftrightarrow>
     taper_plus_eager_when_unpressured st \<and> num_waiting v = 0 \<and> num_skipped_waiting v = 0 \<and>
     get_taper_plus_memory_threshold st v * 2 \<le> remaining_free_blocks v"

text \<open>
  A plan that is made: the protected branches extended by the greedy loop, the protected branches
  alone, or everything when the scheduler is idle.
\<close>

lemma taper_plan_cases:
  fixes st v now_s token_budget
  defines "R \<equiv> regulated_groups (group_candidates (running v))"
  defines "b \<equiv> build_baseline R (running v)"
  obtains (none) "taper_plan st v now_s token_budget = Inr None"
      "\<not> enable_taper_plus st \<or> token_budget \<le> 0 \<or> R = []"
  | (protected) "taper_plan st v now_s token_budget = Inr (Some (admitted_req_ids b))"
  | (eager) "taper_plan st v now_s token_budget = Inr (Some (request_id ` set (running v)))"
      "eager_unpressured st v"
  | (greedy) pc gs where
      "taper_plan st v now_s token_budget =
         Inr (Some (gr_admitted (taper_greedy st v pc (nat (token_budget - active_decode_width b)) gs)))"
      "0 < token_budget" "decoders (running v) \<noteq> []"
      "gr_admitted gs = admitted_req_ids b" "gr_width gs = active_decode_width b"
      "gr_context gs = active_context_tokens b" "\<exists>gate. gr_deferred gs = sort_deferred gate (deferred_by_group b)"
      "gr_baseline_ms gs = predict_taper_plus_step_ms st (active_decode_width b) (active_context_tokens b)"
      "\<forall>M. (\<forall>g \<in> taper_plus_group_id ` set (decoders (running v)). group_slack st now_s (running v) g \<le> M) \<longrightarrow>
         (\<forall>g. slack_of pc g \<le> M)"
      "\<exists>g \<in> taper_plus_group_id ` set (decoders (running v)). pc_budget_ms pc =
         gr_baseline_ms gs + taper_plus_rho st * max 0 (group_slack st now_s (running v) g - gr_baseline_ms gs)"
      "pc_now_s pc = now_s"
proof -
  let ?G = "taper_plus_group_id ` set (decoders (running v))"
  let ?base = "predict_taper_plus_step_ms st (active_decode_width b) (active_context_tokens b)"
  define slacks where "slacks = map (\<lambda>g. (g, group_slack st now_s (running v) g)) (all_decode_groups b)"
  define ms where "ms = Min (set (map snd slacks))"
  define pc where "pc = \<lparr>pc_now_s = now_s, pc_group_slack_ms = slacks, pc_min_slack_ms = ms,
      pc_budget_ms = ?base + taper_plus_rho st * max 0 (ms - ?base),
      pc_memory_gate = (taper_plus_policy st = PTaperPlus),
      pc_memory_threshold = get_taper_plus_memory_threshold st v\<rparr>"
  define gs where "gs = \<lparr>gr_admitted = admitted_req_ids b,
      gr_deferred = sort_deferred (taper_plus_policy st = PTaperPlus) (deferred_by_group b),
      gr_width = active_decode_width b, gr_context = active_context_tokens b, gr_baseline_ms = ?base,
      granted_by_group = (\<lambda>_. 0), infeasible_groups = [], virtual_free_blocks = remaining_free_blocks v\<rparr>"
  have G: "set (all_decode_groups b) = ?G" unfolding b_def using build_baseline_groups by blast
  then have slk: "group_slacks st now_s (group_candidates (running v)) (all_decode_groups b) = Inr slacks"
    unfolding slacks_def by (intro group_slacks_total) simp
  note plan = taper_plan_def [of st v now_s token_budget, unfolded Let_def, folded R_def, folded b_def]
  consider "\<not> enable_taper_plus st \<or> token_budget \<le> 0 \<or> R = []"
    | "enable_taper_plus st" "0 < token_budget" "R \<noteq> []" "deferred_by_group b = [] \<or> taper_plus_step_target_ms st \<le> 0"
    | "enable_taper_plus st" "0 < token_budget" "R \<noteq> []" "deferred_by_group b \<noteq> []" "0 < taper_plus_step_target_ms st"
    by linarith
  then show ?thesis
  proof cases
    case 1
    then show ?thesis by (intro none) (auto simp: plan)
  next
    case 2
    then show ?thesis by (intro protected) (auto simp: plan)
  next
    case 3
    show ?thesis
    proof (cases "eager_unpressured st v")
      case True
      with 3 show ?thesis by (intro eager) (auto simp: plan eager_unpressured_def)
    next
      case False
      have ne: "decoders (running v) \<noteq> []"
      proof
        assume "decoders (running v) = []"
        then have "branches g (running v) = []" for g by (auto simp: filter_empty_conv)
        then have "g \<notin> set R" for g unfolding R_def in_regulated_groups by simp
        then have "hd R \<notin> set R" .
        with 3(3) show False by simp
      qed
      have run: "taper_plan st v now_s token_budget =
          Inr (Some (gr_admitted (taper_greedy st v pc (nat (token_budget - active_decode_width b)) gs)))"
        using 3 False by (auto simp: plan slk gs_def pc_def ms_def eager_unpressured_def)
      have img: "snd ` set slacks = group_slack st now_s (running v) ` ?G"
        unfolding slacks_def G [symmetric] by (force simp: image_iff)
      have "snd ` set slacks \<noteq> {}" unfolding img using ne by (metis image_is_empty set_empty)
      then have "ms \<in> snd ` set slacks" unfolding ms_def set_map by (intro Min_in) simp_all
      then obtain g0 where g0: "g0 \<in> ?G" "ms = group_slack st now_s (running v) g0" unfolding img by blast
      have "slack_of pc g \<in> group_slack st now_s (running v) ` ?G" for g
        using g0 by (auto simp: slack_of_def pc_def slacks_def map_of_map_restrict restrict_map_def G
            map_of_eq_None_iff split: option.split dest!: map_of_SomeD)
      then have bound: "\<forall>M. (\<forall>g \<in> ?G. group_slack st now_s (running v) g \<le> M) \<longrightarrow> (\<forall>g. slack_of pc g \<le> M)"
        by (metis imageE)
      show ?thesis
        by (rule greedy [OF run 3(2) ne]) (use bound g0 in \<open>auto simp: gs_def pc_def\<close>)
    qed
  qed
qed

lemma distinct_map_if_single:
  "(\<And>g. length (filter (\<lambda>x. f x = g) xs) \<le> 1) \<Longrightarrow> distinct (map f xs)"
proof (induction xs)
  case (Cons x xs)
  have "length (filter (\<lambda>y. f y = g) xs) \<le> 1" for g using Cons.prems [of g] by (simp split: if_splits)
  moreover have "filter (\<lambda>y. f y = f x) xs = []" using Cons.prems [of "f x"] by simp
  ultimately show ?case using Cons.IH by (auto simp: filter_empty_conv)
qed simp

lemma single_if_distinct_map: "distinct (map f xs) \<Longrightarrow> length (filter (\<lambda>x. f x = g) xs) \<le> 1"
proof (induction xs)
  case (Cons x xs)
  then have "f x = g \<Longrightarrow> filter (\<lambda>y. f y = g) xs = []" by (auto simp: filter_empty_conv image_iff)
  with Cons show ?case by auto
qed simp

text \<open>Nothing is regulated exactly when no two decode branches have the same parent.\<close>

lemma unregulated_iff:
  "regulated_groups (group_candidates reqs) = [] \<longleftrightarrow> distinct (map taper_plus_group_id (decoders reqs))"
proof -
  have branches: "filter (\<lambda>r. taper_plus_group_id r = g) (decoders reqs) = branches g reqs" for g
    unfolding filter_filter by (rule filter_cong) auto
  have none: "regulated_groups (group_candidates reqs) = [] \<longleftrightarrow> (\<forall>g. \<not> 1 < length (branches g reqs))"
    unfolding in_regulated_groups [symmetric] by (simp add: set_empty [symmetric] del: set_empty)
  show ?thesis
  proof
    assume "regulated_groups (group_candidates reqs) = []"
    then have "length (branches g reqs) \<le> 1" for g unfolding none not_less by (rule spec)
    then show "distinct (map taper_plus_group_id (decoders reqs))"
      by (intro distinct_map_if_single) (simp only: branches)
  next
    assume "distinct (map taper_plus_group_id (decoders reqs))"
    from single_if_distinct_map [OF this] show "regulated_groups (group_candidates reqs) = []"
      unfolding none not_less branches by (rule allI)
  qed
qed

lemma greedy_start_inv:
  fixes v :: taper_view
  defines "b \<equiv> build_baseline (regulated_groups (group_candidates (running v))) (running v)"
  assumes "distinct (map request_id (running v))"
    and "gr_admitted gs = admitted_req_ids b" "gr_width gs = active_decode_width b"
      "gr_context gs = active_context_tokens b" "\<exists>gate. gr_deferred gs = sort_deferred gate (deferred_by_group b)"
      "gr_baseline_ms gs = predict_taper_plus_step_ms st (active_decode_width b) (active_context_tokens b)"
  shows "plan_inv st (running v) gs"
  using assms build_baseline_split [OF assms(2), of "regulated_groups (group_candidates (running v))"]
    build_baseline_admits [of "regulated_groups (group_candidates (running v))" "running v"]
  by (auto simp: plan_inv_def split_ok_sort)

section \<open>Properties\<close>

text \<open>A configuration, a branch and a view used in concrete instances.\<close>

definition example_taper :: taper_state where
  "example_taper =
     \<lparr>enable_taper_plus = True, taper_plus_policy = PTaper, taper_plus_memory_threshold_blocks = 1,
      tail_blend_pilot_k = 0, tail_blend_preemption = False, tail_blend_preemption_mode = Full,
      tail_blend_reservation_q = 0, tail_blend_admission_mode = AdmOff, taper_plus_step_target_ms = 50,
      taper_plus_ttft_slo_s = 2, taper_plus_tpot_slo_s = 1, taper_plus_rho = 1, taper_plus_utility = Linear,
      taper_plus_online_calibration = True, taper_plus_record_latency_samples = False,
      taper_plus_calibration_alpha = 0, taper_plus_safety_factor = 1,
      taper_plus_eager_when_unpressured = False, taper_plus_branch_overdue_boost = False,
      taper_plus_latency_base_ms = 0, taper_plus_latency_width_ms = 2,
      taper_plus_latency_context_ms_per_1k = 0, taper_plus_calibration_samples = 0,
      taper_plus_latency_samples = []\<rparr>"

definition example_branch :: "nat \<Rightarrow> string \<Rightarrow> int \<Rightarrow> request" where
  "example_branch oid rid tok = (plain_request oid rid [1])\<lparr>external_req_id := Some ''parent'',
     sampling_params := Some \<lparr>sp_max_tokens = Some 9, min_tokens = 0, eos_token_id = None, stop_token_ids = None,
       all_stop_token_ids = {}, structured_outputs = False, repetition_detection = None,
       sp_skip_reading_prefix_cache = None\<rparr>, output_token_ids := [tok], all_token_ids := [1, tok]\<rparr>"

definition example_view :: "request list \<Rightarrow> taper_view" where
  "example_view reqs = \<lparr>running = reqs, num_waiting = 0, num_skipped_waiting = 0, remaining_free_blocks = 9,
     num_gpu_blocks = 9, estimate_future_footprint = (\<lambda>_. 1)\<rparr>"

lemma example_simps [simp]:
  "request_id (example_branch oid rid tok) = rid"
  "running (example_view reqs) = reqs"
  "is_taper_plus_decode_candidate (example_branch oid rid tok)"
  "taper_plus_group_id (example_branch oid rid tok) = ''parent''"
  "num_output_tokens (example_branch oid rid tok) = 1"
  "taper_last_token_time (example_branch oid rid tok) = 0"
  "taper_plus_tpot_slo_s example_taper = 1"
  "\<not> taper_plus_eager_when_unpressured example_taper"
  "\<not> taper_plus_branch_overdue_boost example_taper"
  "taper_ok example_taper"
  by (simp_all add: example_branch_def example_view_def is_taper_plus_decode_candidate_def
      num_output_tokens_def num_tokens_with_spec_def taper_plus_group_id_def example_taper_def taper_ok_def
      min_width_ms_def)

text \<open>
  C18. Whatever a parent's deadline, slack or memory pressure, the planner leaves no parent behind: it
  never raises, admits only running requests, admits every request that is not a decode branch of a
  parent with several branches, and at least one decode branch of every parent that has one.
\<close>

theorem taper_plan_protects_every_parent:
  assumes "distinct (map request_id (running v))"
  shows "case taper_plan st v now_s token_budget of
      Inl _ \<Rightarrow> False
    | Inr None \<Rightarrow> True
    | Inr (Some A) \<Rightarrow> A \<subseteq> request_id ` set (running v) \<and>
        (\<forall>r \<in> set (running v). \<not> is_taper_plus_decode_candidate r \<or>
            length (branches (taper_plus_group_id r) (running v)) \<le> 1 \<longrightarrow> request_id r \<in> A) \<and>
        (\<forall>r \<in> set (decoders (running v)). \<exists>r' \<in> set (decoders (running v)).
            taper_plus_group_id r' = taper_plus_group_id r \<and> request_id r' \<in> A)"
proof -
  let ?R = "regulated_groups (group_candidates (running v))"
  let ?b = "build_baseline ?R (running v)"
  note good = protected_covers [where reqs = "running v"]
  have base: "admitted_req_ids ?b \<subseteq> request_id ` set (running v)" using build_baseline_admits by blast
  show ?thesis
  proof (cases rule: taper_plan_cases [of st v now_s token_budget])
    case (greedy pc gs)
    note inv = greedy_start_inv [OF assms greedy(4-8)]
    let ?g = "taper_greedy st v pc (nat (token_budget - active_decode_width ?b)) gs"
    have "admitted_req_ids ?b \<subseteq> gr_admitted ?g" "gr_admitted ?g \<subseteq> request_id ` set (running v)"
      using taper_greedy_inv [OF inv assms, of v pc] greedy(4) by (auto simp: plan_inv_def)
    then show ?thesis using good unfolding greedy(1) by (simp del: set_filter)
  qed (use good base in \<open>simp_all del: set_filter\<close>)
qed

theorem taper_plan_protects_every_parent_witness:
  "case taper_plan example_taper (example_view [example_branch 0 ''a'' 3, example_branch 1 ''b'' 5]) 0 8 of
     Inl _ \<Rightarrow> False | Inr None \<Rightarrow> True | Inr (Some A) \<Rightarrow> A \<subseteq> {''a'', ''b''} \<and> A \<noteq> {}"
  using taper_plan_protects_every_parent [of "example_view [example_branch 0 ''a'' 3, example_branch 1 ''b'' 5]"
      example_taper 0 8]
  by (auto split: sum.splits option.splits)

text \<open>
  C19. The planner keeps to the token budget. With the planner on and a positive budget, either no
  parent has more than one decode branch and nothing is regulated; or the low-pressure guardrail is
  switched on and holds, and every running request is admitted; or no more decode branches are admitted
  than the token budget, or one per parent if there are more parents than that.
\<close>

theorem taper_plan_within_token_budget:
  assumes "distinct (map request_id (running v))"
  shows "case taper_plan st v now_s token_budget of
      Inl _ \<Rightarrow> False
    | Inr None \<Rightarrow> \<not> enable_taper_plus st \<or> token_budget \<le> 0 \<or>
        distinct (map taper_plus_group_id (decoders (running v)))
    | Inr (Some A) \<Rightarrow> A = request_id ` set (running v) \<and> eager_unpressured st v \<or>
        int (length (admitted_decoders (running v) A)) \<le>
          max token_budget (int (card (taper_plus_group_id ` set (decoders (running v)))))"
proof -
  let ?R = "regulated_groups (group_candidates (running v))"
  let ?b = "build_baseline ?R (running v)"
  have width: "active_decode_width ?b = int (card (taper_plus_group_id ` set (decoders (running v))))"
    by (rule protected_width)
  note base = split_okD(2) [OF build_baseline_split [OF assms(1), of ?R]]
  show ?thesis
  proof (cases rule: taper_plan_cases [of st v now_s token_budget])
    case none
    then show ?thesis using unregulated_iff [of "running v"] by auto
  next
    case (greedy pc gs)
    note inv = greedy_start_inv [OF assms(1) greedy(4-8)]
    let ?g = "taper_greedy st v pc (nat (token_budget - active_decode_width ?b)) gs"
    have "gr_width ?g \<le> gr_width gs + int (nat (token_budget - active_decode_width ?b))"
      using taper_greedy_inv [OF inv assms(1), of v pc] by blast
    then have "gr_width ?g \<le> max token_budget (active_decode_width ?b)" using greedy(5) by linarith
    moreover have "gr_width ?g = int (length (admitted_decoders (running v) (gr_admitted ?g)))"
      using taper_greedy_inv [OF inv assms(1), of v pc] split_okD(2) unfolding plan_inv_def by blast
    ultimately show ?thesis unfolding greedy(1) sum.case option.case width [symmetric] by metis
  qed (use base width in \<open>simp_all del: set_filter\<close>)
qed

theorem taper_plan_within_token_budget_witness:
  "case taper_plan example_taper (example_view [example_branch 0 ''a'' 3, example_branch 1 ''b'' 5]) 0 1 of
     Inr (Some A) \<Rightarrow> length (admitted_decoders [example_branch 0 ''a'' 3, example_branch 1 ''b'' 5] A) \<le> 1
   | _ \<Rightarrow> False"
  using taper_plan_within_token_budget [where v = "example_view [example_branch 0 ''a'' 3, example_branch 1 ''b'' 5]"
      and st = example_taper and now_s = 0 and token_budget = 1]
  by (auto simp: eager_unpressured_def example_taper_def split: sum.splits option.splits)

text \<open>
  C20. Widening a step keeps to the slack of some parent, for a latency model whose coefficients are in
  range (\<open>taper_ok\<close>, kept by loading and calibration). If a planned step is predicted to take longer
  than the protected branches alone and longer than the slack of every parent, then the boost for
  overdue branches is on and an overdue branch is among the admitted ones, or the low-pressure
  guardrail is switched on and holds and every running request is admitted.
\<close>

theorem taper_plan_respects_slack:
  assumes "distinct (map request_id (running v))" and "taper_ok st"
    and "\<And>g. g \<in> taper_plus_group_id ` set (decoders (running v)) \<Longrightarrow> group_slack st now_s (running v) g \<le> M"
  shows "case taper_plan st v now_s token_budget of
      Inr (Some A) \<Rightarrow>
        (let b = build_baseline (regulated_groups (group_candidates (running v))) (running v);
             D = admitted_decoders (running v) A
         in predict_taper_plus_step_ms st (int (length D)) (sum_list (map num_computed_tokens D)) \<le>
              max (predict_taper_plus_step_ms st (active_decode_width b) (active_context_tokens b)) M \<or>
            (\<exists>r \<in> set D. boosted st now_s r) \<or>
            A = request_id ` set (running v) \<and> eager_unpressured st v)
    | _ \<Rightarrow> True"
proof -
  let ?R = "regulated_groups (group_candidates (running v))"
  let ?b = "build_baseline ?R (running v)"
  note base = split_okD(2,3) [OF build_baseline_split [OF assms(1), of ?R]]
  show ?thesis
  proof (cases rule: taper_plan_cases [of st v now_s token_budget])
    case (greedy pc gs)
    note inv = greedy_start_inv [OF assms(1) greedy(4-8)]
    let ?g = "taper_greedy st v pc (nat (token_budget - active_decode_width ?b)) gs"
    let ?D = "admitted_decoders (running v) (gr_admitted ?g)"
    have slack: "\<forall>g. slack_of pc g \<le> max (gr_baseline_ms gs) M"
      using greedy(9) assms(3) by (meson le_max_iff_disj)
    from greedy(10) obtain g where g: "g \<in> taper_plus_group_id ` set (decoders (running v))" and
      budget: "pc_budget_ms pc = gr_baseline_ms gs + taper_plus_rho st * max 0 (group_slack st now_s (running v) g - gr_baseline_ms gs)"
      by blast
    have "pc_budget_ms pc \<le> max (gr_baseline_ms gs) (group_slack st now_s (running v) g)"
      unfolding budget using assms(2) by (intro budget_le) (simp_all add: taper_ok_def)
    also have "\<dots> \<le> max (gr_baseline_ms gs) M" using assms(3) [OF g] by simp
    finally have le: "gr_baseline_ms ?g \<le> max (gr_baseline_ms gs) (max (gr_baseline_ms gs) M)"
      if "\<forall>r \<in> set ?D. \<not> boosted st now_s r"
      using taper_greedy_inv [OF inv assms(1), of v pc] assms(2) slack that greedy(11) by blast
    have "plan_inv st (running v) ?g" using taper_greedy_inv [OF inv assms(1), of v pc] by blast
    then have "gr_baseline_ms ?g = predict_taper_plus_step_ms st (int (length ?D)) (sum_list (map num_computed_tokens ?D))"
      using split_okD(2,3) unfolding plan_inv_def by metis
    with le show ?thesis unfolding greedy(1) by (auto simp: greedy(8) Let_def)
  qed (use base in \<open>simp_all add: Let_def\<close>)
qed

theorem taper_plan_respects_slack_witness:
  "case taper_plan example_taper (example_view [example_branch 0 ''a'' 3, example_branch 1 ''b'' 5]) 0 8 of
      Inr (Some A) \<Rightarrow>
        (let b = build_baseline (regulated_groups (group_candidates [example_branch 0 ''a'' 3, example_branch 1 ''b'' 5]))
                   [example_branch 0 ''a'' 3, example_branch 1 ''b'' 5];
             D = admitted_decoders [example_branch 0 ''a'' 3, example_branch 1 ''b'' 5] A
         in predict_taper_plus_step_ms example_taper (int (length D)) (sum_list (map num_computed_tokens D)) \<le>
            max (predict_taper_plus_step_ms example_taper (active_decode_width b) (active_context_tokens b)) 1000)
    | _ \<Rightarrow> True"
proof -
  have off: "boosted example_taper t r = False" "eager_unpressured example_taper w = False"
      "(\<exists>r \<in> D. False) = False" for t r w and D :: "request set"
    by (simp_all add: boosted_def eager_unpressured_def example_taper_def)
  show ?thesis
    using taper_plan_respects_slack [where v = "example_view [example_branch 0 ''a'' 3, example_branch 1 ''b'' 5]"
        and st = example_taper and now_s = 0 and token_budget = 8 and M = 1000, unfolded example_simps(2) off simp_thms]
    by (simp add: group_slack_def get_taper_plus_group_deadline_s_def)
qed

text \<open>
  C34. Online calibration is a normalised least-mean-squares step: as long as no coefficient is clamped,
  it shrinks the prediction error for the observed composition by exactly the factor \<open>1 - alpha\<close>, and
  it always keeps every coefficient in its range.
\<close>

theorem calibration_shrinks_error:
  fixes st :: taper_state and observed :: real and w c :: int
  defines "a \<equiv> taper_plus_calibration_alpha st" and "err \<equiv> observed - raw_step_ms st w c"
    and "k \<equiv> (of_int c :: real) / 1000"
  defines "nrm \<equiv> 1 + (of_int w)\<^sup>2 + k\<^sup>2" and "st' \<equiv> update_taper_plus_latency_model observed w c 0 st"
  assumes "taper_ok st" and "enable_taper_plus st" and "taper_plus_online_calibration st" and "0 < w"
    and "0 < observed" and "observed \<le> taper_plus_step_target_ms st * 20" and "0 < a"
    and "0 \<le> taper_plus_latency_base_ms st + a * err / nrm"
    and "min_width_ms \<le> taper_plus_latency_width_ms st + a * err * of_int w / nrm"
    and "0 \<le> taper_plus_latency_context_ms_per_1k st + a * err * k / nrm"
  shows "observed - raw_step_ms st' w c = (1 - a) * err \<and> taper_ok st' \<and> 0 \<le> 1 - a \<and> 1 - a < 1"
proof -
  have "taper_plus_latency_base_ms st' = taper_plus_latency_base_ms st + a * err / nrm"
    "taper_plus_latency_width_ms st' = taper_plus_latency_width_ms st + a * err * of_int w / nrm"
    "taper_plus_latency_context_ms_per_1k st' = taper_plus_latency_context_ms_per_1k st + a * err * k / nrm"
    unfolding st'_def update_taper_plus_latency_model_def Let_def a_def [symmetric] err_def [symmetric]
      k_def [symmetric] nrm_def [symmetric] using assms by simp_all
  then have "raw_step_ms st' w c = raw_step_ms st w c + a * err"
    using calibration_step [of st a observed w c]
    unfolding raw_step_ms_def [of st'] err_def k_def nrm_def by simp
  then have "observed - raw_step_ms st' w c = (1 - a) * err" by (simp add: err_def algebra_simps)
  moreover have "taper_ok st'" unfolding st'_def using assms(6) by (rule update_latency_model_ok)
  moreover have "a \<le> 1" using assms(6) by (simp add: taper_ok_def a_def)
  ultimately show ?thesis using \<open>0 < a\<close> by simp
qed

theorem calibration_shrinks_error_witness:
  "12 - raw_step_ms (update_taper_plus_latency_model 12 1 0 0 (example_taper\<lparr>taper_plus_calibration_alpha := 1 / 2,
      taper_plus_step_target_ms := 50\<rparr>)) 1 0 = 5"
proof -
  let ?S = "example_taper\<lparr>taper_plus_calibration_alpha := 1 / 2, taper_plus_step_target_ms := 50\<rparr>"
  have raw: "raw_step_ms ?S 1 0 = 2" and ok: "taper_ok ?S"
    by (simp_all add: example_taper_def raw_step_ms_def taper_ok_def min_width_ms_def)
  have "enable_taper_plus ?S" "taper_plus_online_calibration ?S" "taper_plus_latency_base_ms ?S = 0"
    "taper_plus_latency_width_ms ?S = 2" "taper_plus_latency_context_ms_per_1k ?S = 0"
    by (simp_all add: example_taper_def)
  with calibration_shrinks_error [where st = ?S and observed = 12 and w = 1 and c = 0] raw ok show ?thesis by (simp add: min_width_ms_def)
qed

end
