(* ===== verification/Bon_Length.thy ===== *)
theory Bon_Length
  imports Taper_Plan "HOL-Library.AList"
begin

text \<open>
  The branch-length predictor of \<^verbatim>\<open>vllm/v1/core/sched/bon_taper_len_predictor.py\<close>.

  Its two dictionaries are association lists in insertion order; \<open>group_entry\<close> is a subscript of
  the \<^verbatim>\<open>defaultdict\<close>, which inserts an empty entry. What it reads of the scheduler is the TAPER
  state and the list of running requests; a handler returns the requests whose
  \<^verbatim>\<open>prob_short\<close> it updated. \<^verbatim>\<open>statistics.fmean\<close> and \<^verbatim>\<open>statistics.pstdev\<close> are
  \<open>fmean\<close> and \<open>pstdev\<close> over real numbers.

  Shown: probabilities stay probabilities and never decrease; an estimate never exceeds
  \<^verbatim>\<open>max_tokens\<close>, and below it leaves the safety margin over the current output and covers three
  quarters of the finished siblings; a refresh drops exactly the groups nobody refers to.
\<close>

section \<open>Statistics\<close>

definition fmean :: "int list \<Rightarrow> real" where
  "fmean xs = of_int (sum_list xs) / of_nat (length xs)"

definition pstdev :: "int list \<Rightarrow> real" where
  "pstdev xs = sqrt (sum_list (map (\<lambda>x. (of_int x - fmean xs)\<^sup>2) xs) / of_nat (length xs))"

definition clamp01 :: "real \<Rightarrow> real" where
  "clamp01 x = max 0 (min 1 x)"

definition sigmoid :: "real \<Rightarrow> real" where
  "sigmoid x = (if 0 \<le> x then 1 / (1 + exp (- x)) else exp x / (1 + exp x))"

section \<open>The predictor\<close>

record len_predictor =
  lp_groups :: "(string \<times> int list) list"
  lp_request_to_group :: "(string \<times> string) list"

definition init_len_predictor :: len_predictor where
  "init_len_predictor = \<lparr>lp_groups = [], lp_request_to_group = []\<rparr>"

definition group_entry :: "string \<Rightarrow> (string \<times> int list) list \<Rightarrow> (string \<times> int list) list" where
  "group_entry g d = (if map_of d g = None then d @ [(g, [])] else d)"

definition finished_of :: "(string \<times> int list) list \<Rightarrow> string \<Rightarrow> int list" where
  "finished_of d g = (case map_of d g of None \<Rightarrow> [] | Some ls \<Rightarrow> ls)"

definition prepare_request :: "taper_state \<Rightarrow> request \<Rightarrow> len_predictor \<Rightarrow> len_predictor" where
  "prepare_request st r lp =
     (if \<not> enable_taper_plus st \<or> taper_plus_policy st \<noteq> PBonTaperLenPredictor then lp
      else lp\<lparr>lp_request_to_group := AList.update (request_id r) (taper_plus_group_id r) (lp_request_to_group lp)\<rparr>)"

definition predict_short_probability :: "request \<Rightarrow> int list \<Rightarrow> int list \<Rightarrow> real" where
  "predict_short_probability r live_lengths finished_lengths =
     (let output_len = num_output_tokens r;
          max_toks = max 1 (max_tokens r);
          progress = min 1 (of_int output_len / of_int max_toks)
      in if output_len \<le> 0 then progress
         else if finished_lengths = [] then progress
         else let finished_mean = fmean finished_lengths;
                  finished_std = (if 1 < length finished_lengths then pstdev finished_lengths
                                  else finished_mean * (1 / 4));
                  sorted_finished = sort finished_lengths;
                  tail_count = max 1 \<lceil>of_nat (length sorted_finished) * (1 / 2) :: real\<rceil>;
                  tail_mean = fmean (py_slice sorted_finished (- tail_count) (int (length sorted_finished)));
                  predicted_total = min (of_int max_toks) (max tail_mean (finished_mean + finished_std));
                  closeness = sigmoid ((of_int output_len - predicted_total + 128) / 128);
                  live_rank = (if live_lengths \<noteq> []
                               then sigmoid ((of_int output_len - fmean live_lengths) / 128) else 1 / 2);
                  completed_ratio = of_nat (length finished_lengths) /
                    max 1 (of_nat (length finished_lengths) + of_nat (length live_lengths))
              in clamp01 (9 / 20 * closeness + 3 / 10 * progress + 3 / 20 * live_rank + 1 / 10 * completed_ratio))"

definition refresh_request :: "request list \<Rightarrow> request \<Rightarrow> len_predictor \<Rightarrow> request \<times> len_predictor" where
  "refresh_request running_reqs r lp =
     (let g = taper_plus_group_id r;
          live_lengths = map num_output_tokens
            (filter (\<lambda>q. taper_plus_group_id q = g \<and> is_taper_plus_decode_candidate q) running_reqs)
      in (r\<lparr>prob_short := max (prob_short r)
               (predict_short_probability r live_lengths (finished_of (lp_groups lp) g))\<rparr>,
          lp\<lparr>lp_request_to_group := AList.update (request_id r) g (lp_request_to_group lp),
             lp_groups := group_entry g (lp_groups lp)\<rparr>))"

definition observe_request_output ::
    "taper_state \<Rightarrow> request list \<Rightarrow> request \<Rightarrow> int list \<Rightarrow> len_predictor \<Rightarrow> request \<times> len_predictor" where
  "observe_request_output st running_reqs r new_token_ids lp =
     (if taper_plus_policy st \<noteq> PBonTaperLenPredictor \<or> new_token_ids = [] then (r, lp)
      else refresh_request running_reqs r lp)"

text \<open>The group a request is registered under, by default the one it names now.\<close>

definition registered_group :: "len_predictor \<Rightarrow> request \<Rightarrow> string" where
  "registered_group lp r =
     (case map_of (lp_request_to_group lp) (request_id r) of None \<Rightarrow> taper_plus_group_id r | Some g \<Rightarrow> g)"

definition observe_finished_request :: "request \<Rightarrow> len_predictor \<Rightarrow> len_predictor" where
  "observe_finished_request r lp =
     (let g = registered_group lp r;
          lp1 = lp\<lparr>lp_request_to_group := AList.delete (request_id r) (lp_request_to_group lp)\<rparr>
      in if 0 < num_output_tokens r
         then lp1\<lparr>lp_groups := AList.update g (finished_of (lp_groups lp1) g @ [num_output_tokens r]) (lp_groups lp1)\<rparr>
         else lp1)"

text \<open>
  The loops over the groups and their members update each decode branch once, and a prediction reads
  no other branch's probability, so the new probabilities are a map over the running requests.
\<close>

definition refresh_running_requests ::
    "taper_state \<Rightarrow> request list \<Rightarrow> len_predictor \<Rightarrow> request list \<times> len_predictor" where
  "refresh_running_requests st running_reqs lp =
     (if taper_plus_policy st \<noteq> PBonTaperLenPredictor then (running_reqs, lp)
      else let by_group = group_candidates running_reqs;
               to_group = fold (\<lambda>r. AList.update (request_id r) (taper_plus_group_id r))
                 (filter is_taper_plus_decode_candidate running_reqs) (lp_request_to_group lp);
               refresh = (\<lambda>r. if is_taper_plus_decode_candidate r
                 then r\<lparr>prob_short := max (prob_short r) (predict_short_probability r
                        (map num_output_tokens (the (map_of by_group (taper_plus_group_id r))))
                        (finished_of (lp_groups lp) (taper_plus_group_id r)))\<rparr>
                 else r);
               entries = fold group_entry (map fst by_group) (lp_groups lp)
           in (map refresh running_reqs,
               \<lparr>lp_groups = filter (\<lambda>(g, _). g \<in> set (map fst by_group) \<or> g \<in> snd ` set to_group) entries,
                lp_request_to_group = to_group\<rparr>))"

definition predict_from_finished_lengths :: "int list \<Rightarrow> int \<Rightarrow> int res" where
  "predict_from_finished_lengths finished_lengths max_toks =
     (let sorted_lengths = sort finished_lengths;
          count = int (length sorted_lengths)
      in if count = 1
         then bindE (py_get sorted_lengths 0) (\<lambda>base.
           let margin = max 256 \<lceil>of_int base * (1 / 4) :: real\<rceil>
           in Inr (min max_toks (base + margin)))
         else bindE (py_get sorted_lengths (min (count - 1) (\<lceil>3 / 4 * of_int count :: real\<rceil> - 1))) (\<lambda>p75.
           let mean = fmean sorted_lengths;
               std = pstdev sorted_lengths;
               margin = max 128 \<lceil>1 / 4 * std\<rceil>
           in Inr (min max_toks \<lceil>max (of_int p75) (mean + 1 / 2 * std) + of_int margin\<rceil>)))"

definition predict_total_output_tokens :: "request \<Rightarrow> len_predictor \<Rightarrow> (int option \<times> len_predictor) res" where
  "predict_total_output_tokens r lp =
     (let g = registered_group lp r;
          finished_lengths = finished_of (lp_groups lp) g;
          lp1 = lp\<lparr>lp_groups := group_entry g (lp_groups lp)\<rparr>
      in if finished_lengths = [] then Inr (None, lp1)
         else let current_output = num_output_tokens r;
                  max_toks = max 1 (max_tokens r)
           in if max_toks \<le> current_output then Inr (Some max_toks, lp1)
              else bindE (predict_from_finished_lengths finished_lengths max_toks) (\<lambda>predicted.
                let min_target = current_output + min 256 (max_toks - current_output)
                in Inr (Some (min max_toks (max predicted min_target)), lp1)))"

section \<open>Probabilities\<close>

lemma sigmoid_bounds: "0 \<le> sigmoid x \<and> sigmoid x \<le> 1"
  by (simp add: sigmoid_def field_simps add_pos_pos add_nonneg_nonneg)

lemma clamp01_bounds: "0 \<le> clamp01 x \<and> clamp01 x \<le> 1"
  by (simp add: clamp01_def)

lemma predict_short_probability_bounds:
  "0 \<le> predict_short_probability r live finished \<and> predict_short_probability r live finished \<le> 1"
  using clamp01_bounds by (simp add: predict_short_probability_def Let_def num_output_tokens_def)

lemma request_wf_prob:
  "request_wf r \<Longrightarrow> 0 \<le> p \<Longrightarrow> p \<le> 1 \<Longrightarrow> request_wf (r\<lparr>prob_short := max (prob_short r) p\<rparr>)"
  by (simp add: request_wf_def)

section \<open>Groups\<close>

lemma keys_group_entry: "fst ` set (group_entry g d) = insert g (fst ` set d)"
  by (auto simp: group_entry_def map_of_eq_None_iff)

lemma finished_of_group_entry [simp]: "finished_of (group_entry g d) h = finished_of d h"
  by (simp add: finished_of_def group_entry_def map_add_def map_of_append split: option.splits)

lemma finished_of_entries [simp]: "finished_of (fold group_entry gs d) h = finished_of d h"
  by (induction gs arbitrary: d) simp_all

section \<open>Estimates\<close>

lemma sorted_prefix_le:
  assumes "sorted xs" and "i < length xs"
  shows "i + 1 \<le> length (filter (\<lambda>x. x \<le> xs ! i) xs)"
proof -
  have "filter (\<lambda>x. x \<le> xs ! i) (take (i + 1) xs) = take (i + 1) xs"
    using assms by (auto simp: in_set_conv_nth sorted_iff_nth_mono intro!: filter_True)
  then have "length (filter (\<lambda>x. x \<le> xs ! i) (take (i + 1) xs)) = i + 1" using assms(2) by simp
  moreover have "filter (\<lambda>x. x \<le> xs ! i) xs = filter (\<lambda>x. x \<le> xs ! i) (take (i + 1) xs) @
      filter (\<lambda>x. x \<le> xs ! i) (drop (i + 1) xs)"
    by (metis append_take_drop_id filter_append)
  ultimately show ?thesis by simp
qed

lemma filter_le_mono: "a \<le> b \<Longrightarrow> length (filter (\<lambda>x. x \<le> a) xs) \<le> length (filter (\<lambda>x. x \<le> (b :: int)) xs)"
  by (induction xs) auto

lemma length_filter_sort: "length (filter P (sort xs)) = length (filter P xs)"
  by (metis mset_filter mset_sort size_mset)

definition covered :: "int list \<Rightarrow> int \<Rightarrow> nat" where
  "covered ls n = length (filter (\<lambda>l. l \<le> n) ls)"

lemma covered_quantile:
  assumes "xs \<noteq> []" and "i = nat (\<lceil>3 / 4 * of_int (int (length xs)) :: real\<rceil> - 1)"
    and "sort xs ! i \<le> n"
  shows "3 / 4 * real (length xs) \<le> real (covered xs n)" and "i < length xs"
proof -
  have pos: "0 < \<lceil>3 / 4 * of_int (int (length xs)) :: real\<rceil>" using assms(1) by simp
  have "\<lceil>3 / 4 * of_int (int (length xs)) :: real\<rceil> \<le> int (length xs)" by (simp add: ceiling_le_iff)
  with pos show i: "i < length xs" unfolding assms(2) by linarith
  have "i + 1 \<le> length (filter (\<lambda>x. x \<le> sort xs ! i) (sort xs))"
    by (rule sorted_prefix_le) (simp_all add: i)
  also have "\<dots> \<le> covered xs n"
    unfolding covered_def length_filter_sort by (rule filter_le_mono [OF assms(3)])
  finally have "i + 1 \<le> covered xs n" .
  moreover have "3 / 4 * real (length xs) \<le> real (i + 1)"
    unfolding assms(2) using pos le_of_int_ceiling [of "3 / 4 * real (length xs)"] by linarith
  ultimately show "3 / 4 * real (length xs) \<le> real (covered xs n)" by linarith
qed

lemma predict_from_finished_lengths_ok:
  assumes ne: "ls \<noteq> []"
  obtains p where "predict_from_finished_lengths ls m = Inr p" and "p \<le> m"
    and "p < m \<Longrightarrow> 3 / 4 * real (length ls) \<le> real (covered ls p)"
proof (cases "length ls = 1")
  case True
  then obtain l where l: "ls = [l]" by (auto simp: length_Suc_conv)
  show thesis
    by (rule that [of "min m (l + max 256 \<lceil>of_int l * (1 / 4) :: real\<rceil>)"])
      (simp_all add: predict_from_finished_lengths_def l py_get_def py_position_def covered_def)
next
  case False
  define i where "i = nat (\<lceil>3 / 4 * of_int (int (length ls)) :: real\<rceil> - 1)"
  define p75 where "p75 = sort ls ! i"
  define margin where "margin = max 128 \<lceil>1 / 4 * pstdev (sort ls)\<rceil>"
  define q where "q = \<lceil>max (of_int p75) (fmean (sort ls) + 1 / 2 * pstdev (sort ls)) + of_int margin\<rceil>"
  have i: "i < length ls" using covered_quantile(2) [OF ne i_def] by blast
  have index: "min (int (length ls) - 1) (\<lceil>3 / 4 * of_int (int (length ls)) :: real\<rceil> - 1) = int i"
  proof -
    have "0 < \<lceil>3 / 4 * of_int (int (length ls)) :: real\<rceil>" using ne by simp
    then have "\<lceil>3 / 4 * of_int (int (length ls)) :: real\<rceil> - 1 = int i" unfolding i_def by linarith
    with i show ?thesis by simp
  qed
  have get: "py_get (sort ls) (int i) = Inr p75" using i by (simp add: py_get_nonneg p75_def)
  have "real_of_int p75 \<le> max (of_int p75) (fmean (sort ls) + 1 / 2 * pstdev (sort ls)) + of_int margin"
    by (simp add: margin_def)
  also have "\<dots> \<le> of_int q" unfolding q_def by (rule le_of_int_ceiling)
  finally have "p75 \<le> q" by simp
  show thesis
  proof (rule that [of "min m q"])
    show "predict_from_finished_lengths ls m = Inr (min m q)"
      using False unfolding predict_from_finished_lengths_def Let_def length_sort index get
      by (simp add: q_def margin_def)
    show "3 / 4 * real (length ls) \<le> real (covered ls (min m q))" if "min m q < m"
      using that \<open>p75 \<le> q\<close> by (intro covered_quantile(1) [OF ne i_def]) (simp add: p75_def)
  qed simp
qed

section \<open>The state of the predictor\<close>

definition all_positive :: "(string \<times> int list) list \<Rightarrow> bool" where
  "all_positive d \<longleftrightarrow> (\<forall>p \<in> set d. \<forall>l \<in> set (snd p). 0 < l)"

definition lp_ok :: "len_predictor \<Rightarrow> bool" where
  "lp_ok lp \<longleftrightarrow>
     distinct (map fst (lp_groups lp)) \<and> distinct (map fst (lp_request_to_group lp)) \<and>
     all_positive (lp_groups lp)"

lemma all_positive_subset:
  assumes "set d' \<subseteq> insert (g, ls) (set d)" and "all_positive d" and "\<forall>l \<in> set ls. 0 < l"
  shows "all_positive d'"
  unfolding all_positive_def
proof (rule ballI)
  fix p
  assume "p \<in> set d'"
  then have "p = (g, ls) \<or> p \<in> set d" using assms(1) by blast
  then show "\<forall>l \<in> set (snd p). 0 < l" using assms(2,3) by (auto simp: all_positive_def)
qed

inductive predictor_reach :: "taper_state \<Rightarrow> len_predictor \<Rightarrow> bool" for st where
  init: "predictor_reach st init_len_predictor"
| prepare: "predictor_reach st lp \<Longrightarrow> predictor_reach st (prepare_request st r lp)"
| observe: "predictor_reach st lp \<Longrightarrow> predictor_reach st (snd (observe_request_output st running_reqs r toks lp))"
| finished: "predictor_reach st lp \<Longrightarrow> predictor_reach st (observe_finished_request r lp)"
| refresh: "predictor_reach st lp \<Longrightarrow> predictor_reach st (snd (refresh_running_requests st running_reqs lp))"
| predict: "predictor_reach st lp \<Longrightarrow> predict_total_output_tokens r lp = Inr (n, lp') \<Longrightarrow> predictor_reach st lp'"

lemma distinct_group_entry: "distinct (map fst d) \<Longrightarrow> distinct (map fst (group_entry g d))"
  by (auto simp: group_entry_def map_of_eq_None_iff)

lemma set_group_entry: "set (group_entry g d) \<subseteq> insert (g, []) (set d)"
  by (auto simp: group_entry_def)

lemma all_positive_entry: "all_positive d \<Longrightarrow> all_positive (group_entry g d)"
  by (rule all_positive_subset [OF set_group_entry]) simp_all

lemma lp_ok_entry: "lp_ok lp \<Longrightarrow> lp_ok (lp\<lparr>lp_groups := group_entry g (lp_groups lp)\<rparr>)"
  by (simp add: lp_ok_def distinct_group_entry all_positive_entry)

lemma lp_ok_register: "lp_ok lp \<Longrightarrow> lp_ok (lp\<lparr>lp_request_to_group := AList.update k g (lp_request_to_group lp)\<rparr>)"
  by (simp add: lp_ok_def distinct_update)

lemma entries_ok:
  "distinct (map fst d) \<Longrightarrow> all_positive d \<Longrightarrow>
   distinct (map fst (fold group_entry gs d)) \<and> all_positive (fold group_entry gs d)"
  by (induction gs arbitrary: d) (simp_all add: distinct_group_entry all_positive_entry)

lemma distinct_registrations:
  "distinct (map fst d) \<Longrightarrow> distinct (map fst (fold (\<lambda>r. AList.update (f r) (g r)) rs d))"
  by (induction rs arbitrary: d) (simp_all add: distinct_update)

lemma distinct_keys_filter: "distinct (map fst d) \<Longrightarrow> distinct (map fst (filter P d))"
  by (induction d) auto

lemma finished_lengths_positive: "lp_ok lp \<Longrightarrow> \<forall>l \<in> set (finished_of (lp_groups lp) g). 0 < l"
  by (force simp: lp_ok_def all_positive_def finished_of_def split: option.splits dest: map_of_SomeD)

lemma set_alist_update: "set (AList.update k v d) \<subseteq> insert (k, v) (set d)"
  by (induction d) auto

lemma lp_ok_finished:
  assumes "lp_ok lp"
  shows "lp_ok (observe_finished_request r lp)"
proof -
  let ?g = "registered_group lp r" and ?n = "num_output_tokens r"
  have "all_positive (AList.update ?g (finished_of (lp_groups lp) ?g @ [?n]) (lp_groups lp))" if "0 < ?n"
    using assms finished_lengths_positive [OF assms, of ?g] that
    by (intro all_positive_subset [OF set_alist_update]) (auto simp: lp_ok_def)
  then show ?thesis
    using assms by (simp add: observe_finished_request_def Let_def lp_ok_def distinct_update distinct_delete)
qed

lemma all_positive_filter: "all_positive d \<Longrightarrow> all_positive (filter P d)"
  by (auto simp: all_positive_def)

lemma lp_ok_refresh: "lp_ok lp \<Longrightarrow> lp_ok (snd (refresh_running_requests st reqs lp))"
  using entries_ok [of "lp_groups lp"]
  by (simp add: refresh_running_requests_def Let_def lp_ok_def distinct_registrations distinct_keys_filter
      all_positive_filter)

lemma predictor_reach_ok: "predictor_reach st lp \<Longrightarrow> lp_ok lp"
proof (induction rule: predictor_reach.induct)
  case init
  show ?case by (simp add: init_len_predictor_def lp_ok_def all_positive_def)
next
  case (prepare lp r)
  then show ?case by (simp add: prepare_request_def lp_ok_register)
next
  case (observe lp running_reqs r toks)
  then show ?case
    by (simp add: observe_request_output_def refresh_request_def Let_def lp_ok_def distinct_update
        distinct_group_entry all_positive_entry)
next
  case (predict lp r n lp')
  then show ?case by (auto simp: predict_total_output_tokens_def Let_def lp_ok_entry bindE_eq_Inr split: if_splits)
qed (simp_all add: lp_ok_finished lp_ok_refresh)

lemma registrations_other:
  "k \<notin> f ` set rs \<Longrightarrow> map_of (fold (\<lambda>r. AList.update (f r) (g r)) rs d) k = map_of d k"
  by (induction rs arbitrary: d) (simp_all add: update_conv')

lemma registrations_lookup:
  "distinct (map f rs) \<Longrightarrow> r \<in> set rs \<Longrightarrow> map_of (fold (\<lambda>r. AList.update (f r) (g r)) rs d) (f r) = Some (g r)"
proof (induction rs arbitrary: d)
  case (Cons q rs)
  then show ?case using registrations_other [of "f q" f rs g] by (auto simp: update_conv')
qed simp

lemma group_candidates_keys: "fst ` set (group_candidates reqs) = taper_plus_group_id ` {r \<in> set reqs. is_taper_plus_decode_candidate r}"
proof (induction reqs rule: rev_induct)
  case (snoc r reqs)
  have "fst ` set (group_add g r d) = insert g (fst ` set d)" for g d
    by (induction g r d rule: group_add.induct) auto
  with snoc show ?case by (auto simp: group_candidates_def)
qed (simp add: group_candidates_def)

lemma finished_of_filter:
  "distinct (map fst d) \<Longrightarrow> (\<And>ls. P (g, ls)) \<Longrightarrow> finished_of (filter P d) g = finished_of d g"
  unfolding finished_of_def by (induction d) (auto simp: map_of_eq_None_iff)

lemma length_le_values:
  assumes "distinct (map fst d)" and "fst ` set d \<subseteq> snd ` set e"
  shows "length d \<le> length e"
proof -
  have "length d = card (fst ` set d)" using distinct_card [OF assms(1)] by simp
  also have "\<dots> \<le> card (snd ` set e)" using assms(2) by (intro card_mono) simp_all
  also have "\<dots> \<le> length e" using card_image_le [of "set e" snd] card_length [of e] by simp
  finally show ?thesis .
qed

section \<open>Properties\<close>

text \<open>A branch with three output tokens, the predictor after siblings finished, and a configuration.\<close>

definition example_sibling :: request where
  "example_sibling = (plain_request 0 ''a'' [1])\<lparr>output_token_ids := [5, 6, 7], all_token_ids := [1, 5, 6, 7],
     max_tokens := 1000\<rparr>"

definition example_policy :: taper_state where
  "example_policy = example_taper\<lparr>taper_plus_policy := PBonTaperLenPredictor\<rparr>"

definition example_predictor :: len_predictor where
  "example_predictor = \<lparr>lp_groups = [(''a'', [10, 20, 30, 40])], lp_request_to_group = [(''a'', ''a'')]\<rparr>"

lemma example_sibling_simps [simp]:
  "request_id example_sibling = ''a''" "max_tokens example_sibling = 1000"
  "taper_plus_group_id example_sibling = ''a''" "num_output_tokens example_sibling = 3"
  "request_wf example_sibling"
  by (simp_all add: example_sibling_def taper_plus_group_id_def num_output_tokens_def request_wf_def)

text \<open>
  C29. A refresh of the running requests is a type-preserving update: it keeps every request and its
  place, changes nothing but the short-lifetime probability, never lowers it, and keeps requests
  well-formed, so the probability stays between 0 and 1.
\<close>

theorem refresh_keeps_requests_wf:
  "list_all2 (\<lambda>r r'. \<exists>p \<ge> prob_short r. r' = r\<lparr>prob_short := p\<rparr> \<and> (request_wf r \<longrightarrow> request_wf r'))
     reqs (fst (refresh_running_requests st reqs lp))"
proof -
  have step: "\<exists>p \<ge> prob_short r. (r\<lparr>prob_short := max (prob_short r) q\<rparr>) = r\<lparr>prob_short := p\<rparr> \<and>
      (request_wf r \<longrightarrow> request_wf (r\<lparr>prob_short := max (prob_short r) q\<rparr>))" if "0 \<le> q" "q \<le> 1" for r q
    using that request_wf_prob by (intro exI [of _ "max (prob_short r) q"]) auto
  have same: "\<exists>p \<ge> prob_short r. r = r\<lparr>prob_short := p\<rparr> \<and> (request_wf r \<longrightarrow> request_wf r)" for r :: request
    by (intro exI [of _ "prob_short r"]) simp
  show ?thesis
    unfolding refresh_running_requests_def Let_def
    using step same predict_short_probability_bounds
    by (auto simp: list_all2_map2 list_all2_same split del: if_split split: if_split)
qed

theorem refresh_keeps_requests_wf_witness:
  "\<exists>r. fst (refresh_running_requests example_policy [example_sibling] example_predictor) = [r] \<and> request_wf r \<and> request_id r = ''a''"
proof -
  obtain r where "fst (refresh_running_requests example_policy [example_sibling] example_predictor) = [r]"
    and "\<exists>p \<ge> prob_short example_sibling. r = example_sibling\<lparr>prob_short := p\<rparr> \<and>
      (request_wf example_sibling \<longrightarrow> request_wf r)"
    using refresh_keeps_requests_wf [of "[example_sibling]" example_policy example_predictor] by (auto simp: list_all2_Cons1)
  then show ?thesis by auto
qed

text \<open>
  C27. The planning length of a branch is conservative. The estimate never raises; there is one exactly
  when a sibling has finished; it never exceeds the branch's own limit; and when it is below that limit
  it leaves a margin of at least 256 tokens over what the branch has produced and covers at least three
  quarters of the finished siblings.
\<close>

theorem predicted_length_conservative:
  fixes r :: request and lp :: len_predictor
  defines "ls \<equiv> finished_of (lp_groups lp) (registered_group lp r)" and "m \<equiv> max 1 (max_tokens r)"
  shows "case predict_total_output_tokens r lp of
      Inl _ \<Rightarrow> False
    | Inr (None, lp') \<Rightarrow> ls = []
    | Inr (Some n, lp') \<Rightarrow> ls \<noteq> [] \<and> n \<le> m \<and>
        (n < m \<longrightarrow> num_output_tokens r + 256 \<le> n \<and> 3 / 4 * real (length ls) \<le> real (covered ls n))"
proof (cases "ls = [] \<or> m \<le> num_output_tokens r")
  case True
  then show ?thesis
    unfolding predict_total_output_tokens_def Let_def ls_def [symmetric] m_def [symmetric]
    by (elim disjE) simp_all
next
  case False
  then obtain p where p: "predict_from_finished_lengths ls m = Inr p" "p \<le> m"
      "p < m \<Longrightarrow> 3 / 4 * real (length ls) \<le> real (covered ls p)"
    using predict_from_finished_lengths_ok by metis
  define n where "n = min m (max p (num_output_tokens r + min 256 (m - num_output_tokens r)))"
  have "predict_total_output_tokens r lp =
      Inr (Some n, lp\<lparr>lp_groups := group_entry (registered_group lp r) (lp_groups lp)\<rparr>)"
    using False p(1) unfolding predict_total_output_tokens_def Let_def ls_def [symmetric] m_def [symmetric]
    by (simp add: n_def)
  moreover have le: "real (covered ls p) \<le> real (covered ls n)"
    using p(2) filter_le_mono [of p n ls] by (simp add: covered_def n_def)
  moreover have "num_output_tokens r + 256 \<le> n \<and> 3 / 4 * real (length ls) \<le> real (covered ls n)" if "n < m"
  proof -
    have "p < m" "num_output_tokens r + 256 \<le> n" using that False unfolding n_def by linarith+
    with p(3) le show ?thesis by linarith
  qed
  moreover have "n \<le> m" by (simp add: n_def)
  ultimately show ?thesis using False by simp
qed

theorem predicted_length_conservative_witness:
  "case predict_total_output_tokens example_sibling example_predictor of
     Inr (Some n, _) \<Rightarrow> n \<le> 1000 \<and> (n < 1000 \<longrightarrow> 259 \<le> n \<and> 3 \<le> covered [10, 20, 30, 40] n)
   | _ \<Rightarrow> False"
  using predicted_length_conservative [of example_predictor example_sibling]
  by (auto simp: example_predictor_def finished_of_def registered_group_def split: sum.splits option.splits)

text \<open>
  C28. The predictor does not accumulate dead parents, whatever the order of its handlers: after a
  refresh it holds at most one group per registered request, it has kept the history of every group
  that a registered request belongs to, and every recorded length is positive.
\<close>

theorem refresh_forgets_dead_groups:
  assumes "predictor_reach st lp" and "taper_plus_policy st = PBonTaperLenPredictor"
    and "distinct (map request_id reqs)" and "lp' = snd (refresh_running_requests st reqs lp)"
  shows "length (lp_groups lp') \<le> length (lp_request_to_group lp') \<and>
    (\<forall>(k, g) \<in> set (lp_request_to_group lp'). finished_of (lp_groups lp') g = finished_of (lp_groups lp) g) \<and>
    (\<forall>(g, ls) \<in> set (lp_groups lp'). \<forall>l \<in> set ls. 0 < l)"
proof -
  let ?dec = "filter is_taper_plus_decode_candidate reqs"
  define e where "e = fold (\<lambda>r. AList.update (request_id r) (taper_plus_group_id r)) ?dec (lp_request_to_group lp)"
  define d where "d = fold group_entry (map fst (group_candidates reqs)) (lp_groups lp)"
  have lp': "lp' = \<lparr>lp_groups = filter (\<lambda>(g, _). g \<in> set (map fst (group_candidates reqs)) \<or> g \<in> snd ` set e) d,
      lp_request_to_group = e\<rparr>"
    using assms(2,4) by (simp add: refresh_running_requests_def Let_def e_def d_def)
  have ok: "lp_ok lp" using predictor_reach_ok [OF assms(1)] .
  then have ok': "lp_ok lp'" unfolding assms(4) by (rule lp_ok_refresh)
  have dec: "distinct (map request_id ?dec)" using assms(3) by (simp add: distinct_map_filter)
  have "taper_plus_group_id r \<in> snd ` set e" if "r \<in> set ?dec" for r
    using map_of_SomeD [OF registrations_lookup [OF dec that, of taper_plus_group_id "lp_request_to_group lp"]]
    unfolding e_def by (rule rev_image_eqI) simp
  then have "fst ` set (lp_groups lp') \<subseteq> snd ` set e"
    unfolding lp' using group_candidates_keys [of reqs] by (auto intro: rev_image_eqI)
  then have "length (lp_groups lp') \<le> length e"
    using ok' unfolding lp_ok_def by (blast intro: length_le_values)
  moreover have "finished_of (lp_groups lp') g = finished_of (lp_groups lp) g" if "(k, g) \<in> set e" for k g
  proof -
    have "distinct (map fst d)" unfolding d_def using entries_ok ok by (simp add: lp_ok_def)
    moreover have "g \<in> snd ` set e" using that by force
    ultimately show ?thesis by (simp add: lp' finished_of_filter d_def)
  qed
  moreover have "\<forall>(g, ls) \<in> set (lp_groups lp'). \<forall>l \<in> set ls. 0 < l"
    using ok' unfolding lp_ok_def all_positive_def by fastforce
  ultimately show ?thesis unfolding lp' len_predictor.select_convs by blast
qed

theorem refresh_forgets_dead_groups_witness:
  "length (lp_groups (snd (refresh_running_requests example_policy []
     (observe_finished_request example_sibling init_len_predictor)))) = 0"
  using refresh_forgets_dead_groups [where st = example_policy and reqs = "[]",
      OF predictor_reach.finished [OF predictor_reach.init, of example_policy example_sibling] _ _ refl]
  by (simp add: example_policy_def refresh_running_requests_def Let_def group_candidates_def
      observe_finished_request_def init_len_predictor_def)

end
