(* ===== verification/Bon_Controller.thy ===== *)
theory Bon_Controller
  imports Bon_Length
begin

text \<open>
  The best-of-N controller of \<^verbatim>\<open>vllm/v1/core/sched/bon_taper_controller.py\<close>: which waiting
  parents are held back, and which decode branches of the running parents a step admits.

  \<open>bon_view\<close> is what the controller reads of the scheduler: the view of the TAPER planner, the two
  waiting queues, the limits, and the KV-cache manager's estimate for a given output length. The
  nested loops over groups and their deferred branches are one loop over the pairs. The length
  predictor is threaded through the loop because reading it inserts dictionary entries.

  Shown in \<open>Bon_Plan\<close>: exactly when a waiting request is held back; a plan never raises, leaves no parent
  without a branch and, when it regulates, stays within the token budget or one branch per parent; every
  greedy step takes a best candidate, whatever the order in which the candidates are visited.
\<close>

section \<open>Admission of waiting requests\<close>

record bon_view =
  bv_taper :: taper_view
  bv_waiting :: "request list"
  bv_skipped_waiting :: "request list"
  bv_max_num_running_reqs :: int
  bv_max_model_len :: int
  bv_block_size :: int
  estimate_future_footprint_for_output_len :: "request \<Rightarrow> int \<Rightarrow> int"

definition has_external_id :: "request \<Rightarrow> bool" where
  "has_external_id r \<longleftrightarrow> external_req_id r \<noteq> None \<and> external_req_id r \<noteq> Some []"

definition active_parent_ids :: "request list \<Rightarrow> string set" where
  "active_parent_ids running_reqs = taper_plus_group_id ` set (filter has_external_id running_reqs)"

definition is_bon_policy :: "taper_policy \<Rightarrow> bool" where
  "is_bon_policy p \<longleftrightarrow> p = PBonTaper \<or> p = PBonTaperPlus \<or> p = PBonTaperLenPredictor"

definition bon_pressured :: "taper_state \<Rightarrow> bon_view \<Rightarrow> bool" where
  "bon_pressured st bv \<longleftrightarrow>
     \<not> (get_taper_plus_memory_threshold st (bv_taper bv) * 4 \<le> remaining_free_blocks (bv_taper bv) \<and>
        int (length (bv_waiting bv)) + int (length (bv_skipped_waiting bv)) \<le> bv_max_num_running_reqs bv)"

definition should_defer_waiting_request :: "taper_state \<Rightarrow> bon_view \<Rightarrow> request \<Rightarrow> bool res" where
  "should_defer_waiting_request st bv r =
     (if \<not> enable_taper_plus st \<or> \<not> is_bon_policy (taper_plus_policy st) \<or> \<not> has_external_id r then Inr False
      else if \<not> bon_pressured st bv then Inr False
      else let g = taper_plus_group_id r;
               active = active_parent_ids (running (bv_taper bv));
               siblings = (\<lambda>queue. int (length (filter (\<lambda>q. taper_plus_group_id q = g) queue)))
        in if g \<in> active then Inr False
           else if bv_block_size bv = 0 then Inl ZeroDivisionError
           else let sibling_count = max 1 (siblings (bv_waiting bv) + siblings (bv_skipped_waiting bv));
                    blocks_per_sequence = max 1 ((bv_max_model_len bv + bv_block_size bv - 1) div bv_block_size bv);
                    sequence_capacity = max 1 (num_gpu_blocks (bv_taper bv) div blocks_per_sequence);
                    parent_cap = max 1 (min 8 ((sequence_capacity * 4) div sibling_count))
             in Inr (parent_cap \<le> int (card active)))"

section \<open>The protected branches\<close>

record bon_baseline =
  bb_admitted_req_ids :: "string set"
  bb_deferred_by_group :: "(string \<times> request list) list"
  bb_width_by_group :: "string \<Rightarrow> int"
  bb_active_decode_width :: int
  bb_active_context_tokens :: int

definition bon_baseline_step :: "string list \<Rightarrow> request \<Rightarrow> bon_baseline \<Rightarrow> bon_baseline" where
  "bon_baseline_step regulated r b =
     (let g = taper_plus_group_id r;
          cand = is_taper_plus_decode_candidate r
      in if g \<notin> set regulated \<or> \<not> cand
         then let b1 = b\<lparr>bb_admitted_req_ids := insert (request_id r) (bb_admitted_req_ids b)\<rparr>
              in if cand
                 then b1\<lparr>bb_active_decode_width := bb_active_decode_width b1 + 1,
                         bb_active_context_tokens := bb_active_context_tokens b1 + num_computed_tokens r\<rparr>
                 else b1
         else if bb_width_by_group b g = 0
         then b\<lparr>bb_admitted_req_ids := insert (request_id r) (bb_admitted_req_ids b),
                bb_width_by_group := (bb_width_by_group b)(g := 1),
                bb_active_decode_width := bb_active_decode_width b + 1,
                bb_active_context_tokens := bb_active_context_tokens b + num_computed_tokens r\<rparr>
         else b\<lparr>bb_deferred_by_group := group_add g r (bb_deferred_by_group b)\<rparr>)"

definition bon_build_baseline :: "string list \<Rightarrow> request list \<Rightarrow> bon_baseline" where
  "bon_build_baseline regulated reqs =
     fold (bon_baseline_step regulated) reqs
       \<lparr>bb_admitted_req_ids = {}, bb_deferred_by_group = [], bb_width_by_group = (\<lambda>_. 0),
        bb_active_decode_width = 0, bb_active_context_tokens = 0\<rparr>"

section \<open>Scoring\<close>

record bon_context =
  bc_now_s :: real
  bc_parent_slack_ms :: "(string \<times> real) list"
  bc_min_slack_ms :: real
  bc_global_budget_ms :: real
  bc_memory_threshold :: int

record bon_state =
  bs_admitted_req_ids :: "string set"
  bs_deferred_by_group :: "(string \<times> request list) list"
  bs_active_decode_width :: int
  bs_active_context_tokens :: int
  bs_baseline_step_ms :: real
  bs_width_by_group :: "string \<Rightarrow> int"
  bs_virtual_free_blocks :: int
  bs_predictor :: len_predictor

definition len_predictor_protected_width :: int where "len_predictor_protected_width = 4"

definition marginal_parent_utility :: "taper_state \<Rightarrow> int \<Rightarrow> real" where
  "marginal_parent_utility st admitted_width =
     (case taper_plus_utility st of
        Concave \<Rightarrow> sqrt (of_int (admitted_width + 1)) - sqrt (of_int admitted_width)
      | Linear \<Rightarrow> 1)"

definition is_better_candidate :: "real \<Rightarrow> real \<Rightarrow> request \<Rightarrow> request option \<Rightarrow> bool \<Rightarrow> bool" where
  "is_better_candidate score best_score r best_request use_memory_lifetime \<longleftrightarrow>
     (case best_request of
        None \<Rightarrow> True
      | Some b \<Rightarrow>
          if best_score < score then True
          else if score < best_score then False
          else if use_memory_lifetime \<and> prob_short r \<noteq> prob_short b then prob_short b < prob_short r
          else (arrival_time r, request_id r) < (arrival_time b, request_id b))"

definition uses_memory_lifetime :: "taper_state \<Rightarrow> bool" where
  "uses_memory_lifetime st \<longleftrightarrow>
     taper_plus_policy st = PBonTaperPlus \<or> taper_plus_policy st = PBonTaperLenPredictor"

definition bon_future_footprint ::
    "taper_state \<Rightarrow> bon_view \<Rightarrow> bon_state \<Rightarrow> string \<Rightarrow> request \<Rightarrow> len_predictor \<Rightarrow> (int \<times> len_predictor) res" where
  "bon_future_footprint st bv bs g r lp =
     (if \<not> uses_memory_lifetime st then Inr (0, lp)
      else if taper_plus_policy st = PBonTaperLenPredictor \<and>
              len_predictor_protected_width \<le> bs_width_by_group bs g
      then bindE (predict_total_output_tokens r lp) (\<lambda>(predicted, lp').
        case predicted of
          None \<Rightarrow> Inr (estimate_future_footprint (bv_taper bv) r, lp')
        | Some n \<Rightarrow> Inr (estimate_future_footprint_for_output_len bv r n, lp'))
      else Inr (estimate_future_footprint (bv_taper bv) r, lp))"

definition bon_predicted_step_ms :: "taper_state \<Rightarrow> bon_state \<Rightarrow> request \<Rightarrow> real" where
  "bon_predicted_step_ms st bs r =
     predict_taper_plus_step_ms st (bs_active_decode_width bs + 1) (bs_active_context_tokens bs + num_computed_tokens r)"

definition bon_overdue_ms :: "taper_state \<Rightarrow> bon_context \<Rightarrow> request \<Rightarrow> real" where
  "bon_overdue_ms st bc r =
     (if taper_plus_branch_overdue_boost st then get_taper_plus_branch_overdue_ms st r (bc_now_s bc) else 0)"

definition bon_candidate_budget_ms :: "taper_state \<Rightarrow> bon_context \<Rightarrow> bon_state \<Rightarrow> string \<Rightarrow> request \<Rightarrow> real" where
  "bon_candidate_budget_ms st bc bs g r =
     (let slack = (case map_of (bc_parent_slack_ms bc) g of None \<Rightarrow> bc_min_slack_ms bc | Some s \<Rightarrow> s);
          group_budget_ms = bs_baseline_step_ms bs + taper_plus_rho st * max 0 (slack - bs_baseline_step_ms bs);
          candidate_budget_ms = max (bc_global_budget_ms bc) group_budget_ms
      in if 0 < bon_overdue_ms st bc r then max candidate_budget_ms (bon_predicted_step_ms st bs r)
         else candidate_budget_ms)"

text \<open>
  The score of a candidate with its predicted step time and footprint, or \<open>None\<close> where the loop
  continues with the next one.
\<close>

definition bon_score ::
    "taper_state \<Rightarrow> bon_context \<Rightarrow> bon_state \<Rightarrow> string \<Rightarrow> request \<Rightarrow> int \<Rightarrow> (real \<times> real \<times> int) option" where
  "bon_score st bc bs g r future_footprint =
     (let free = bs_virtual_free_blocks bs;
          overdue_ms = bon_overdue_ms st bc r
      in if taper_plus_policy st = PBonTaperPlus \<and>
            (free < bc_memory_threshold bc \<or> free < future_footprint) \<and> \<not> is_short_lived r
         then None
         else let u0 = marginal_parent_utility st (bs_width_by_group bs g);
                  u1 = (if 0 < overdue_ms then u0 * (1 + overdue_ms / max 1 (taper_plus_tpot_slo_s st * 1000)) else u0);
                  u2 = (if uses_memory_lifetime st then u1 * (1 + max 0 (prob_short r)) else u1);
                  u3 = (if uses_memory_lifetime st \<and> 0 < future_footprint
                        then u2 / (1 + of_int future_footprint / of_int (max 1 free)) else u2);
                  marginal_step_ms = max 0 (bon_predicted_step_ms st bs r - bs_baseline_step_ms bs)
              in Some (u3 / (eps + marginal_step_ms), bon_predicted_step_ms st bs r, future_footprint))"

definition bon_evaluate ::
    "taper_state \<Rightarrow> bon_view \<Rightarrow> bon_context \<Rightarrow> bon_state \<Rightarrow> string \<Rightarrow> request \<Rightarrow> len_predictor \<Rightarrow>
     ((real \<times> real \<times> int) option \<times> len_predictor) res" where
  "bon_evaluate st bv bc bs g r lp =
     (if bon_candidate_budget_ms st bc bs g r < bon_predicted_step_ms st bs r then Inr (None, lp)
      else bindE (bon_future_footprint st bv bs g r lp) (\<lambda>(future_footprint, lp').
        Inr (bon_score st bc bs g r future_footprint, lp')))"

section \<open>The greedy loop\<close>

record bon_best =
  be_group_id :: string
  be_request :: request
  be_score :: real
  be_predicted_step_ms :: real
  be_future_footprint :: int

definition bon_scan_step ::
    "taper_state \<Rightarrow> bon_view \<Rightarrow> bon_context \<Rightarrow> bon_state \<Rightarrow> string \<times> request \<Rightarrow>
     bon_best option \<times> len_predictor \<Rightarrow> (bon_best option \<times> len_predictor) res" where
  "bon_scan_step st bv bc bs = (\<lambda>(g, r) (best, lp).
     bindE (bon_evaluate st bv bc bs g r lp) (\<lambda>(result, lp').
       case result of
         None \<Rightarrow> Inr (best, lp')
       | Some (score, predicted_step_ms, future_footprint) \<Rightarrow>
           if is_better_candidate score (case best of None \<Rightarrow> 0 | Some b \<Rightarrow> be_score b) r
                (map_option be_request best) (uses_memory_lifetime st)
           then Inr (Some \<lparr>be_group_id = g, be_request = r, be_score = score,
                           be_predicted_step_ms = predicted_step_ms, be_future_footprint = future_footprint\<rparr>, lp')
           else Inr (best, lp')))"

definition candidate_pairs :: "(string \<times> request list) list \<Rightarrow> (string \<times> request) list" where
  "candidate_pairs d = concat (map (\<lambda>(g, rs). map (Pair g) rs) d)"

definition bon_scan ::
    "taper_state \<Rightarrow> bon_view \<Rightarrow> bon_context \<Rightarrow> bon_state \<Rightarrow> (bon_best option \<times> len_predictor) res" where
  "bon_scan st bv bc bs =
     fold_res (bon_scan_step st bv bc bs) (candidate_pairs (bs_deferred_by_group bs)) (None, bs_predictor bs)"

definition remove_branch :: "string \<Rightarrow> 'a \<Rightarrow> (string \<times> 'a list) list \<Rightarrow> (string \<times> 'a list) list" where
  "remove_branch g r d = map (\<lambda>(k, rs). (k, if k = g then remove1 r rs else rs)) d"

definition bon_admit :: "taper_state \<Rightarrow> bon_best \<Rightarrow> bon_state \<Rightarrow> bon_state" where
  "bon_admit st b bs =
     bs\<lparr>bs_admitted_req_ids := insert (request_id (be_request b)) (bs_admitted_req_ids bs),
        bs_active_decode_width := bs_active_decode_width bs + 1,
        bs_active_context_tokens := bs_active_context_tokens bs + num_computed_tokens (be_request b),
        bs_baseline_step_ms := be_predicted_step_ms b,
        bs_width_by_group := (bs_width_by_group bs)(be_group_id b := bs_width_by_group bs (be_group_id b) + 1),
        bs_deferred_by_group := remove_branch (be_group_id b) (be_request b) (bs_deferred_by_group bs),
        bs_virtual_free_blocks := (if uses_memory_lifetime st
          then max 0 (bs_virtual_free_blocks bs - be_future_footprint b) else bs_virtual_free_blocks bs)\<rparr>"

text \<open>The loop over \<open>available_extra_slots\<close>.\<close>

fun bon_greedy :: "taper_state \<Rightarrow> bon_view \<Rightarrow> bon_context \<Rightarrow> nat \<Rightarrow> bon_state \<Rightarrow> bon_state res" where
  "bon_greedy st bv bc 0 bs = Inr bs"
| "bon_greedy st bv bc (Suc n) bs =
     bindE (bon_scan st bv bc bs) (\<lambda>(best, lp).
       let bs1 = bs\<lparr>bs_predictor := lp\<rparr>
       in case best of
            None \<Rightarrow> Inr bs1
          | Some b \<Rightarrow> if be_score b \<le> 0 then Inr bs1 else bon_greedy st bv bc n (bon_admit st b bs1))"

text \<open>
  The plan, with the running requests and the predictor as the refresh and the reads leave them;
  \<open>None\<close> admits everything.
\<close>

definition bon_plan ::
    "taper_state \<Rightarrow> bon_view \<Rightarrow> len_predictor \<Rightarrow> real \<Rightarrow> int \<Rightarrow>
     (string set option \<times> request list \<times> len_predictor) res" where
  "bon_plan st bv lp0 now_s token_budget =
     (let reqs0 = running (bv_taper bv) in
      if \<not> enable_taper_plus st \<or> token_budget \<le> 0 then Inr (None, reqs0, lp0)
      else if taper_plus_policy st = PBonTaper then Inr (None, reqs0, lp0)
      else let (reqs, lp) = refresh_running_requests st reqs0 lp0;
               candidates = group_candidates reqs;
               regulated = regulated_groups candidates
        in if regulated = [] then Inr (None, reqs, lp)
           else let memory_threshold = get_taper_plus_memory_threshold st (bv_taper bv);
                    free_blocks = remaining_free_blocks (bv_taper bv)
             in if memory_threshold \<le> free_blocks then Inr (None, reqs, lp)
                else let b = bon_build_baseline regulated reqs in
                  if bb_deferred_by_group b = [] \<or> taper_plus_step_target_ms st \<le> 0
                  then Inr (Some (bb_admitted_req_ids b), reqs, lp)
                  else bindE (group_slacks st now_s candidates (map fst candidates)) (\<lambda>slacks.
                    if slacks = [] then Inr (Some (bb_admitted_req_ids b), reqs, lp)
                    else let baseline_step_ms = predict_taper_plus_step_ms st (bb_active_decode_width b) (bb_active_context_tokens b);
                             min_slack_ms = Min (set (map snd slacks));
                             bc = \<lparr>bc_now_s = now_s, bc_parent_slack_ms = slacks, bc_min_slack_ms = min_slack_ms,
                                   bc_global_budget_ms = baseline_step_ms + taper_plus_rho st * max 0 (min_slack_ms - baseline_step_ms),
                                   bc_memory_threshold = memory_threshold\<rparr>
                      in bindE (bon_greedy st bv bc (nat (token_budget - bb_active_decode_width b))
                           \<lparr>bs_admitted_req_ids = bb_admitted_req_ids b, bs_deferred_by_group = bb_deferred_by_group b,
                            bs_active_decode_width = bb_active_decode_width b,
                            bs_active_context_tokens = bb_active_context_tokens b, bs_baseline_step_ms = baseline_step_ms,
                            bs_width_by_group = bb_width_by_group b, bs_virtual_free_blocks = free_blocks,
                            bs_predictor = lp\<rparr>) (\<lambda>bs.
                         Inr (Some (bs_admitted_req_ids bs), reqs, bs_predictor bs))))"

end
