(* ===== verification/Tail_Blend.thy ===== *)
theory Tail_Blend
  imports Bon_Controller Kv_Cache_Manager
begin

text \<open>
  The TailBlend controller of \<^verbatim>\<open>vllm/v1/core/sched/tail_blend_controller.py\<close>: length prediction from finished
  siblings, admission of waiting branches, and the choice of the branch to preempt under memory pressure.

  \<open>tail_scheduler\<close> is what the controller reads of the scheduler, with the KV cache manager itself and both waiting
  queues in iteration order. The dictionary of groups is a map, as it is never iterated; \<open>group_touched\<close> is a
  subscript of the \<^verbatim>\<open>defaultdict\<close>, which inserts an empty entry. \<open>clock i\<close> is reading number \<open>i\<close> of \<^verbatim>\<open>time.time()\<close> in
  a call. Floats are real numbers; the infinite slack is \<open>None\<close>. \<^verbatim>\<open>min\<close> and \<^verbatim>\<open>max\<close> with a key return the first
  best element.
\<close>

section \<open>State\<close>

record tb_group_state =
  finished_lengths :: "int list"
  last_progress_time_s :: real

record parent_slo_state =
  pss_doomed :: real
  pss_urgent_feasible :: real
  pss_work_norm :: real

record adaptive_pressure_state =
  aps_prefill_pressure :: real
  aps_output_tail_pressure :: real
  aps_kv_pressure :: real
  aps_backlog_ratio :: real
  aps_prompt_share :: real
  aps_recompute_risk :: real
  aps_tail_signal :: real
  aps_tail_skew :: real

record admission_pressure =
  ap_active :: bool
  ap_running_util :: real
  ap_waiting_backlog :: int
  ap_uncovered_groups :: int
  ap_min_uncovered_slack_s :: "real option"
  ap_avg_group_fanout :: real
  ap_free_block_ratio :: real

record tail_blend =
  tb_groups :: "string \<rightharpoonup> tb_group_state"
  adaptive_choice_counts :: "string \<rightharpoonup> int"
  last_adaptive_pressure_state :: "adaptive_pressure_state option"

record tail_scheduler =
  ts_taper :: taper_state
  ts_running :: "request list"
  ts_waiting :: "request list"
  ts_skipped_waiting :: "request list"
  ts_max_num_running_reqs :: int
  ts_block_size :: int
  ts_kv :: kv_cache_manager

definition init_tail_blend :: tail_blend where
  "init_tail_blend = \<lparr>tb_groups = Map.empty, adaptive_choice_counts = Map.empty, last_adaptive_pressure_state = None\<rparr>"

definition new_group_state :: tb_group_state where
  "new_group_state = \<lparr>finished_lengths = [], last_progress_time_s = 0\<rparr>"

definition group_touched :: "string \<Rightarrow> tail_blend \<Rightarrow> tail_blend" where
  "group_touched g tb =
     (case tb_groups tb g of None \<Rightarrow> tb\<lparr>tb_groups := (tb_groups tb)(g \<mapsto> new_group_state)\<rparr> | Some _ \<Rightarrow> tb)"

definition group_finished :: "tail_blend \<Rightarrow> string \<Rightarrow> int list" where
  "group_finished tb g = (case tb_groups tb g of None \<Rightarrow> [] | Some s \<Rightarrow> finished_lengths s)"

text \<open>The finished siblings under the external id of a request; no group has the key \<^verbatim>\<open>None\<close>.\<close>

definition sibling_lengths :: "tail_blend \<Rightarrow> request \<Rightarrow> int list" where
  "sibling_lengths tb r = (case external_req_id r of None \<Rightarrow> [] | Some g \<Rightarrow> group_finished tb g)"

definition tb_observe_finished_request :: "real \<Rightarrow> request \<Rightarrow> tail_blend \<Rightarrow> tail_blend" where
  "tb_observe_finished_request now r tb =
     (case (sampling_params r, external_req_id r) of
        (Some _, Some g) \<Rightarrow>
          if get_finished_reason r \<notin> {Some FR_STOP, Some FR_LENGTH, Some FR_REPETITION} then tb
          else let s = (case tb_groups tb g of None \<Rightarrow> new_group_state | Some s \<Rightarrow> s)
               in tb\<lparr>tb_groups := (tb_groups tb)(g \<mapsto>
                    \<lparr>finished_lengths = finished_lengths s @ [num_output_tokens r],
                     last_progress_time_s = max (max (last_progress_time_s s) (taper_last_token_time r)) now\<rparr>)\<rparr>
      | _ \<Rightarrow> tb)"

section \<open>Prediction\<close>

definition shrink_k :: real where "shrink_k = 4"

definition queued_prior_fraction :: real where "queued_prior_fraction = 3 / 4"

definition shrink_weight :: "int list \<Rightarrow> real" where
  "shrink_weight ls = of_nat (length ls) / (of_nat (length ls) + shrink_k)"

definition sibling_mean :: "int list \<Rightarrow> real" where
  "sibling_mean ls = of_int (sum_list ls) / max 1 (of_nat (length ls))"

definition predict_remaining_tokens :: "tail_blend \<Rightarrow> request \<Rightarrow> real" where
  "predict_remaining_tokens tb r =
     (let ls = sibling_lengths tb r
      in if ls = [] then of_int (max 0 (max_tokens r - num_output_tokens r))
         else let weight = shrink_weight ls;
                  lower_bound = of_int (num_output_tokens r);
                  prior_len = of_int (max 1 (max_tokens r));
                  tail_mean = 1 / 2 * (lower_bound + prior_len);
                  predicted_final_len = max lower_bound ((1 - weight) * tail_mean + weight * sibling_mean ls)
              in max 0 (predicted_final_len - of_int (num_output_tokens r)))"

definition predict_queued_tokens :: "tail_blend \<Rightarrow> string \<Rightarrow> int \<Rightarrow> real" where
  "predict_queued_tokens tb g max_toks =
     (let ls = group_finished tb g
      in if ls = [] then of_int max_toks
         else let weight = shrink_weight ls;
                  prior_len = queued_prior_fraction * of_int (max 1 max_toks);
                  predicted_len = (1 - weight) * prior_len + weight * sibling_mean ls
              in max 1 (min (of_int max_toks) predicted_len))"

text \<open>Both percentile functions; the argument is sorted. The index is in range because \<open>q\<close> is clamped.\<close>

definition percentile_at :: "real list \<Rightarrow> real \<Rightarrow> real" where
  "percentile_at values q0 =
     (let q = max 0 (min 1 q0);
          index = q * (of_nat (length values) - 1);
          lower = nat \<lfloor>index\<rfloor>;
          upper = min (lower + 1) (length values - 1);
          frac = index - of_nat lower
      in (values ! lower) * (1 - frac) + (values ! upper) * frac)"

definition percentile :: "int list \<Rightarrow> real \<Rightarrow> real" where
  "percentile values q = (if values = [] then 0 else percentile_at (map of_int (sort values)) q)"

definition percentile_float :: "real list \<Rightarrow> real \<Rightarrow> real" where
  "percentile_float values q = (if values = [] then 0 else percentile_at (sort values) q)"

definition predict_output_tokens_for_reservation :: "tail_scheduler \<Rightarrow> tail_blend \<Rightarrow> request \<Rightarrow> real" where
  "predict_output_tokens_for_reservation s tb r =
     (let reservation_q = tail_blend_reservation_q (ts_taper s)
      in if reservation_q \<le> 0 then of_int (max_tokens r)
         else let max_toks = max 1 (max_tokens r);
                  prior_len = reservation_q * of_int max_toks;
                  ls = sibling_lengths tb r;
                  running_lengths = map num_output_tokens (filter (\<lambda>q. external_req_id q = external_req_id r) (ts_running s));
                  predicted_len =
                    (if ls = [] then max prior_len (percentile running_lengths reservation_q)
                     else (1 - shrink_weight ls) * prior_len + shrink_weight ls * percentile (ls @ running_lengths) reservation_q)
              in min (of_int max_toks) (max (of_int (num_output_tokens r)) predicted_len))"

definition estimate_reserved_future_blocks :: "tail_scheduler \<Rightarrow> tail_blend \<Rightarrow> request \<Rightarrow> int res" where
  "estimate_reserved_future_blocks s tb r =
     Kv_Cache_Manager.estimate_future_footprint_for_output_len (ts_kv s) r \<lceil>predict_output_tokens_for_reservation s tb r\<rceil>"

section \<open>Groups in the queues\<close>

abbreviation free_blocks :: "tail_scheduler \<Rightarrow> int" where
  "free_blocks s \<equiv> get_remaining_free_blocks (ts_kv s)"

abbreviation total_blocks :: "tail_scheduler \<Rightarrow> int" where
  "total_blocks s \<equiv> block_pool.num_gpu_blocks (kcm_pool (ts_kv s))"

abbreviation queued :: "tail_scheduler \<Rightarrow> request list" where
  "queued s \<equiv> ts_waiting s @ ts_skipped_waiting s"

definition waiting_backlog :: "tail_scheduler \<Rightarrow> int" where
  "waiting_backlog s = int (length (ts_waiting s)) + int (length (ts_skipped_waiting s))"

definition in_group :: "string \<Rightarrow> request \<Rightarrow> bool" where
  "in_group g r \<longleftrightarrow> taper_plus_group_id r = g"

definition named_in_group :: "string \<Rightarrow> request \<Rightarrow> bool" where
  "named_in_group g r \<longleftrightarrow> external_req_id r \<noteq> None \<and> taper_plus_group_id r = g"

definition memory_threshold :: "tail_scheduler \<Rightarrow> int" where
  "memory_threshold s =
     (if 0 \<le> taper_plus_memory_threshold_blocks (ts_taper s) then taper_plus_memory_threshold_blocks (ts_taper s)
      else max 1 (total_blocks s div 20))"

definition under_admission_pressure :: "tail_scheduler \<Rightarrow> bool" where
  "under_admission_pressure s \<longleftrightarrow>
     free_blocks s < memory_threshold s * 4 \<or> ts_max_num_running_reqs s < waiting_backlog s \<or>
     (ts_max_num_running_reqs s * 3) div 4 \<le> int (length (ts_running s))"

definition is_ttft_guard_cold_request :: "request \<Rightarrow> bool" where
  "is_ttft_guard_cold_request r \<longleftrightarrow>
     external_req_id r \<noteq> None \<and> num_output_tokens r = 0 \<and> num_computed_tokens r = 0 \<and> num_preemptions r = 0"

definition is_ttft_guard_output_started_request :: "request \<Rightarrow> bool" where
  "is_ttft_guard_output_started_request r \<longleftrightarrow> external_req_id r \<noteq> None \<and> 0 < num_output_tokens r"

definition started_sibling_count :: "tail_scheduler \<Rightarrow> string \<Rightarrow> tail_blend \<Rightarrow> int \<times> tail_blend" where
  "started_sibling_count s g tb =
     (let running_count = int (length (filter (named_in_group g) (ts_running s)));
          started = (\<lambda>queue. int (length (filter (\<lambda>r. named_in_group g r \<and> \<not> is_ttft_guard_cold_request r) queue)));
          queued_started_count = started (ts_waiting s) + started (ts_skipped_waiting s);
          tb' = group_touched g tb
      in (running_count + queued_started_count + int (length (group_finished tb' g)), tb'))"

definition group_has_first_token :: "tail_blend \<Rightarrow> string \<Rightarrow> request list \<Rightarrow> bool" where
  "group_has_first_token tb g requests \<longleftrightarrow> group_finished tb g \<noteq> [] \<or> (\<exists>r \<in> set requests. 0 < num_output_tokens r)"

definition group_has_started_branch_anywhere :: "tail_scheduler \<Rightarrow> tail_blend \<Rightarrow> string \<Rightarrow> bool" where
  "group_has_started_branch_anywhere s tb g \<longleftrightarrow>
     group_finished tb g \<noteq> [] \<or> (\<exists>r \<in> set (ts_running s). named_in_group g r) \<or>
     (\<exists>r \<in> set (queued s). named_in_group g r \<and> \<not> is_ttft_guard_cold_request r)"

definition group_has_first_token_anywhere :: "tail_scheduler \<Rightarrow> tail_blend \<Rightarrow> string \<Rightarrow> bool" where
  "group_has_first_token_anywhere s tb g \<longleftrightarrow>
     group_finished tb g \<noteq> [] \<or> (\<exists>r \<in> set (ts_running s). named_in_group g r \<and> 0 < num_output_tokens r) \<or>
     (\<exists>r \<in> set (queued s). named_in_group g r \<and> 0 < num_output_tokens r)"

text \<open>The loop of both searches for a waiting group, with the set of groups already looked at.\<close>

fun waiting_group_loop :: "(string \<Rightarrow> bool) \<Rightarrow> string \<Rightarrow> string set \<Rightarrow> request list \<Rightarrow> bool" where
  "waiting_group_loop covered_group exclude seen [] = False"
| "waiting_group_loop covered_group exclude seen (r # rs) =
     (if external_req_id r = None then waiting_group_loop covered_group exclude seen rs
      else let g = taper_plus_group_id r
        in if g = exclude \<or> g \<in> seen then waiting_group_loop covered_group exclude seen rs
           else if \<not> covered_group g then True
           else waiting_group_loop covered_group exclude (insert g seen) rs)"

definition has_zero_start_waiting_group :: "tail_scheduler \<Rightarrow> tail_blend \<Rightarrow> string \<Rightarrow> bool" where
  "has_zero_start_waiting_group s tb exclude =
     waiting_group_loop (group_has_started_branch_anywhere s tb) exclude {} (queued s)"

definition has_first_token_uncovered_waiting_group :: "tail_scheduler \<Rightarrow> tail_blend \<Rightarrow> string \<Rightarrow> bool" where
  "has_first_token_uncovered_waiting_group s tb exclude =
     waiting_group_loop (group_has_first_token_anywhere s tb) exclude {} (queued s)"

definition parent_rescue_score :: "tail_scheduler \<Rightarrow> tail_blend \<Rightarrow> string \<Rightarrow> real" where
  "parent_rescue_score s tb g =
     (let finished_count = int (length (group_finished tb g));
          live_requests = filter (in_group g) (ts_running s);
          queued_count = int (length (filter (in_group g) (ts_waiting s))) + int (length (filter (in_group g) (ts_skipped_waiting s)));
          near_finish_live = int (length (filter (\<lambda>r. predict_remaining_tokens tb r \<le> max 32 (1 / 20 * of_int (max 1 (max_tokens r)))) live_requests));
          total_count = max 1 (finished_count + int (length live_requests) + queued_count)
      in of_int (finished_count + near_finish_live) / of_int total_count)"

section \<open>Selection\<close>

fun best_first :: "('k \<Rightarrow> 'k \<Rightarrow> bool) \<Rightarrow> 'k \<times> 'a \<Rightarrow> ('k \<times> 'a) list \<Rightarrow> 'a" where
  "best_first better b [] = snd b"
| "best_first better b (x # xs) = best_first better (if better (fst x) (fst b) then x else b) xs"

definition select_by :: "('k \<Rightarrow> 'k \<Rightarrow> bool) \<Rightarrow> ('a \<Rightarrow> 'k res) \<Rightarrow> 'a list \<Rightarrow> 'a res" where
  "select_by better key xs =
     bindE (map_res key xs) (\<lambda>ks.
       case zip ks xs of [] \<Rightarrow> Inl ValueError | x # rest \<Rightarrow> Inr (best_first better x rest))"

definition min_by :: "('a \<Rightarrow> 'k::linorder res) \<Rightarrow> 'a list \<Rightarrow> 'a res" where
  "min_by = select_by (<)"

definition max_by :: "('a \<Rightarrow> 'k::linorder res) \<Rightarrow> 'a list \<Rightarrow> 'a res" where
  "max_by = select_by (>)"

definition least :: "'a::linorder list \<Rightarrow> 'a res" where
  "least xs = (if xs = [] then Inl ValueError else Inr (Min (set xs)))"

definition greatest_or :: "'a::linorder \<Rightarrow> 'a list \<Rightarrow> 'a" where
  "greatest_or d xs = (if xs = [] then d else Max (set xs))"

section \<open>Ranking of parents\<close>

definition expand_rank_key ::
    "tail_scheduler \<Rightarrow> tail_blend \<Rightarrow> real \<Rightarrow> string \<Rightarrow> request list \<Rightarrow> (real \<times> real \<times> real \<times> int \<times> real \<times> string) res" where
  "expand_rank_key s tb now_s g queued_requests =
     (let running_requests = filter (in_group g) (ts_running s);
          live_remaining = sum_list (map (predict_remaining_tokens tb) running_requests);
          max_toks = greatest_or 1 (map max_tokens queued_requests @ map max_tokens running_requests);
          queued_remaining = of_nat (length queued_requests) * predict_queued_tokens tb g max_toks;
          predicted_parent_work = live_remaining + queued_remaining
      in bindE (if running_requests \<noteq> []
                then bindE (get_taper_plus_group_deadline_s (ts_taper s) running_requests) (\<lambda>deadline_s.
                     bindE (least (map arrival_time running_requests)) (\<lambda>oldest_arrival. Inr (deadline_s, oldest_arrival)))
                else bindE (least (map arrival_time queued_requests)) (\<lambda>oldest_arrival.
                     Inr (oldest_arrival + taper_plus_ttft_slo_s (ts_taper s), oldest_arrival)))
           (\<lambda>(deadline_s, oldest_arrival).
             let slack_s = max (1 / 1000) (deadline_s - now_s)
             in Inr (predicted_parent_work / slack_s, predicted_parent_work, - slack_s,
                     - int (length (group_finished tb g)), oldest_arrival, g)))"

fun expandable_groups :: "tail_scheduler \<Rightarrow> string list \<Rightarrow> tail_blend \<Rightarrow> string list \<times> tail_blend" where
  "expandable_groups s [] tb = ([], tb)"
| "expandable_groups s (g # gs) tb =
     (let (started, tb1) = started_sibling_count s g tb;
          (rest, tb2) = expandable_groups s gs tb1
      in (if tail_blend_pilot_k (ts_taper s) \<le> started \<and> group_finished tb1 g \<noteq> [] then g # rest else rest, tb2))"

definition best_expandable_group_id :: "tail_scheduler \<Rightarrow> real \<Rightarrow> tail_blend \<Rightarrow> (string option \<times> tail_blend) res" where
  "best_expandable_group_id s now_s tb =
     (let group_to_queued = fold (\<lambda>r d. if external_req_id r \<noteq> None then group_add (taper_plus_group_id r) r d else d) (queued s) [];
          (expandable_group_ids, tb') = expandable_groups s (map fst group_to_queued) tb
      in if expandable_group_ids = [] then Inr (None, tb')
         else bindE (min_by (\<lambda>g. expand_rank_key s tb' now_s g (the (map_of group_to_queued g))) expandable_group_ids)
                (\<lambda>g. Inr (Some g, tb')))"

text \<open>Keys that no policy uses at present.\<close>

definition parent_rank_key ::
    "tail_scheduler \<Rightarrow> tail_blend \<Rightarrow> real \<Rightarrow> string \<Rightarrow> request list \<Rightarrow> int \<Rightarrow> (bool \<times> bool \<times> real \<times> real \<times> int \<times> real \<times> string) res" where
  "parent_rank_key s tb now_s g requests queued_siblings =
     (let predicted_remaining = map (predict_remaining_tokens tb) requests;
          max_toks = greatest_or 1 (map max_tokens requests);
          remaining_sum = sum_list predicted_remaining + (if 0 < queued_siblings then of_int (queued_siblings * max_toks) else 0);
          remaining_max = (if 0 < queued_siblings then max (greatest_or 0 predicted_remaining) (of_int max_toks)
                           else greatest_or 0 predicted_remaining)
      in bindE (get_taper_plus_group_deadline_s (ts_taper s) requests) (\<lambda>deadline_s.
         bindE (least (map arrival_time requests)) (\<lambda>oldest_arrival.
           Inr (0 < queued_siblings, deadline_s - now_s \<le> 0, remaining_sum, remaining_max,
                - int (length (group_finished tb g)), oldest_arrival, g))))"

definition ttft_guard_group_key ::
    "tail_scheduler \<Rightarrow> tail_blend \<Rightarrow> real \<Rightarrow> string \<Rightarrow> request list \<Rightarrow> (bool \<times> real \<times> real \<times> real \<times> string) res" where
  "ttft_guard_group_key s tb now_s g requests =
     (let has_first = group_has_first_token tb g requests
      in bindE (if has_first then get_taper_plus_group_deadline_s (ts_taper s) requests
                else bindE (least (map arrival_time requests)) (\<lambda>a. Inr (a + taper_plus_ttft_slo_s (ts_taper s)))) (\<lambda>deadline_s.
         bindE (least (map arrival_time requests)) (\<lambda>oldest_arrival.
           Inr (has_first, deadline_s - now_s, sum_list (map (predict_remaining_tokens tb) requests), oldest_arrival, g))))"

definition ttft_guard_baseline_request_key ::
    "tail_scheduler \<Rightarrow> tail_blend \<Rightarrow> real \<Rightarrow> request \<Rightarrow> real \<times> bool \<times> real \<times> real \<times> string" where
  "ttft_guard_baseline_request_key s tb now_s r =
     (- get_taper_plus_branch_overdue_ms (ts_taper s) r now_s, 0 < num_output_tokens r, predict_remaining_tokens tb r,
      arrival_time r, request_id r)"

section \<open>Admission\<close>

definition best_waiting_request_id_by_reservation :: "tail_scheduler \<Rightarrow> tail_blend \<Rightarrow> string option res" where
  "best_waiting_request_id_by_reservation s tb =
     (let candidates = filter (\<lambda>r. external_req_id r \<noteq> None \<and> sampling_params r \<noteq> None) (queued s)
      in if candidates = [] then Inr None
         else bindE (min_by (\<lambda>r. bindE (estimate_reserved_future_blocks s tb r) (\<lambda>n.
                       Inr (n, predict_output_tokens_for_reservation s tb r, arrival_time r, request_id r))) candidates)
                (\<lambda>r. Inr (Some (request_id r))))"

definition should_defer_for_virtual_reservation :: "tail_scheduler \<Rightarrow> tail_blend \<Rightarrow> request \<Rightarrow> bool res" where
  "should_defer_for_virtual_reservation s tb r =
     (if tail_blend_reservation_q (ts_taper s) \<le> 0 then Inr False
      else if \<not> under_admission_pressure s then Inr False
      else if free_blocks s \<le> 0 then Inr True
      else bindE (map_res (estimate_reserved_future_blocks s tb) (filter (\<lambda>q. sampling_params q \<noteq> None) (ts_running s))) (\<lambda>active.
           bindE (estimate_reserved_future_blocks s tb r) (\<lambda>request_future_blocks.
             if sum_list active + request_future_blocks \<le> free_blocks s then Inr False
             else bindE (best_waiting_request_id_by_reservation s tb) (\<lambda>best.
               Inr (best \<noteq> None \<and> best \<noteq> Some (request_id r))))))"

definition should_defer_for_ttft_fair_guard :: "tail_scheduler \<Rightarrow> request \<Rightarrow> tail_blend \<Rightarrow> bool \<times> tail_blend" where
  "should_defer_for_ttft_fair_guard s r tb =
     (if external_req_id r = None then (False, tb)
      else if is_ttft_guard_output_started_request r then (False, tb)
      else let g = taper_plus_group_id r;
               protected_width = max 1 (tail_blend_pilot_k (ts_taper s));
               (started_siblings, tb1) = started_sibling_count s g tb
        in if started_siblings < protected_width then (False, tb1)
           else if waiting_backlog s \<le> 0 then (False, tb1)
           else if \<not> group_has_first_token_anywhere s tb1 g then (has_zero_start_waiting_group s tb1 g, tb1)
           else (has_first_token_uncovered_waiting_group s tb1 g, tb1))"

definition free_block_ratio_of :: "tail_scheduler \<Rightarrow> real" where
  "free_block_ratio_of s = min 1 (of_int (free_blocks s) / of_int (max 1 (total_blocks s)))"

definition should_preserve_prompt_locality_for_ttft_guard ::
    "tail_scheduler \<Rightarrow> request \<Rightarrow> real option \<Rightarrow> int option \<Rightarrow> real option \<Rightarrow> bool" where
  "should_preserve_prompt_locality_for_ttft_guard s r running_util0 backlog0 free_block_ratio0 =
     (if external_req_id r = None then False
      else let prompt_tokens = max 0 (num_prompt_tokens r);
               max_toks = max 1 (max_tokens r);
               tot = max 1 (prompt_tokens + max_toks);
               prompt_share = of_int prompt_tokens / of_int tot :: real;
               prompt_heavy = 1024 \<le> prompt_tokens \<and> (2 / 5 \<le> prompt_share \<or> max_toks \<le> prompt_tokens);
               backlog = (case backlog0 of None \<Rightarrow> waiting_backlog s | Some n \<Rightarrow> n)
        in if \<not> prompt_heavy then False
           else if backlog \<le> 0 then False
           else let running_util = (case running_util0 of
                      None \<Rightarrow> of_nat (length (ts_running s)) / of_int (max 1 (ts_max_num_running_reqs s)) | Some u \<Rightarrow> u);
                    free_block_ratio = (case free_block_ratio0 of None \<Rightarrow> free_block_ratio_of s | Some x \<Rightarrow> x)
             in 3 / 4 \<le> running_util \<or> free_block_ratio \<le> 1 / 4)"

record observed_groups =
  og_arrivals :: "(string \<times> real) list"
  og_has_first :: "string set"
  og_running_counts :: "(string \<times> int) list"

definition observe_request :: "tail_blend \<Rightarrow> bool \<Rightarrow> request \<Rightarrow> observed_groups \<Rightarrow> observed_groups" where
  "observe_request tb is_running r og =
     (if external_req_id r = None then og
      else let g = taper_plus_group_id r;
               earliest = (case map_of (og_arrivals og) g of None \<Rightarrow> arrival_time r | Some a \<Rightarrow> a);
               og1 = og\<lparr>og_arrivals := AList.update g (min earliest (arrival_time r)) (og_arrivals og)\<rparr>;
               og2 = (if 0 < num_output_tokens r \<or> group_finished tb g \<noteq> []
                      then og1\<lparr>og_has_first := insert g (og_has_first og1)\<rparr> else og1);
               n = (case map_of (og_running_counts og2) g of None \<Rightarrow> 0 | Some n \<Rightarrow> n)
        in if is_running then og2\<lparr>og_running_counts := AList.update g (n + 1) (og_running_counts og2)\<rparr> else og2)"

definition tail_blend_admission_pressure :: "tail_scheduler \<Rightarrow> tail_blend \<Rightarrow> real \<Rightarrow> admission_pressure" where
  "tail_blend_admission_pressure s tb now_s =
     (let ttft_slo = taper_plus_ttft_slo_s (ts_taper s)
      in if tail_blend_admission_mode (ts_taper s) \<noteq> TtftGuarded \<or> ttft_slo \<le> 0
         then \<lparr>ap_active = False, ap_running_util = 0, ap_waiting_backlog = 0, ap_uncovered_groups = 0,
               ap_min_uncovered_slack_s = None, ap_avg_group_fanout = 0, ap_free_block_ratio = 1\<rparr>
         else
           let max_running = max 1 (ts_max_num_running_reqs s);
               running_util = of_nat (length (ts_running s)) / of_int max_running;
               backlog = waiting_backlog s;
               og = fold (observe_request tb False) (queued s)
                      (fold (observe_request tb True) (ts_running s) \<lparr>og_arrivals = [], og_has_first = {}, og_running_counts = []\<rparr>);
               decode_candidates = int (length (filter is_taper_plus_decode_candidate (ts_running s)));
               uncovered_slacks = [arrival_s + ttft_slo - now_s. (g, arrival_s) \<leftarrow> og_arrivals og, g \<notin> og_has_first og];
               uncovered_groups = int (length uncovered_slacks);
               min_uncovered_slack_s = (if uncovered_slacks = [] then None else Some (Min (set uncovered_slacks)));
               avg_group_fanout = of_int decode_candidates / of_int (max 1 (int (length (og_running_counts og))));
               free_block_ratio = free_block_ratio_of s;
               backlog_threshold = max 8 (max_running div 8)
           in \<lparr>ap_active = (0 < uncovered_groups \<and>
                 ((case min_uncovered_slack_s of None \<Rightarrow> False | Some slack \<Rightarrow> slack \<le> 1 / 2 * ttft_slo) \<or>
                  (9 / 10 \<le> running_util \<and> 0 < backlog) \<or>
                  (3 / 4 \<le> running_util \<and> 2 \<le> avg_group_fanout \<and> backlog_threshold < backlog) \<or>
                  (free_block_ratio \<le> 3 / 20 \<and> 0 < backlog))),
               ap_running_util = running_util, ap_waiting_backlog = backlog, ap_uncovered_groups = uncovered_groups,
               ap_min_uncovered_slack_s = min_uncovered_slack_s, ap_avg_group_fanout = avg_group_fanout,
               ap_free_block_ratio = free_block_ratio\<rparr>)"

definition should_defer_for_ttft_guard :: "(nat \<Rightarrow> real) \<Rightarrow> tail_scheduler \<Rightarrow> request \<Rightarrow> tail_blend \<Rightarrow> (bool \<times> tail_blend) res" where
  "should_defer_for_ttft_guard clock s r tb =
     (case tail_blend_admission_mode (ts_taper s) of
        TtftFairGuarded \<Rightarrow> Inr (should_defer_for_ttft_fair_guard s r tb)
      | TtftCostGuarded \<Rightarrow> Inr (should_defer_for_ttft_fair_guard s r tb)
      | AdmOff \<Rightarrow> Inr (False, tb)
      | TtftGuarded \<Rightarrow>
          if \<not> is_ttft_guard_cold_request r then Inr (False, tb)
          else let pressure = tail_blend_admission_pressure s tb (clock 0)
            in if \<not> ap_active pressure then Inr (False, tb)
               else if should_preserve_prompt_locality_for_ttft_guard s r (Some (ap_running_util pressure))
                         (Some (ap_waiting_backlog pressure)) (Some (ap_free_block_ratio pressure)) then Inr (False, tb)
               else let g = taper_plus_group_id r;
                        protected_width = max 1 (tail_blend_pilot_k (ts_taper s));
                        (started_siblings, tb1) = started_sibling_count s g tb;
                        running_requests = filter (in_group g) (ts_running s)
                 in if started_siblings < protected_width then Inr (False, tb1)
                    else if \<not> group_has_first_token tb1 g running_requests then Inr (True, tb1)
                    else bindE (best_expandable_group_id s (clock 1) tb1) (\<lambda>(best, tb2).
                      Inr (best \<noteq> Some g, tb2)))"

definition tb_should_defer_waiting_request ::
    "(nat \<Rightarrow> real) \<Rightarrow> tail_scheduler \<Rightarrow> request \<Rightarrow> tail_blend \<Rightarrow> (bool \<times> tail_blend) res" where
  "tb_should_defer_waiting_request clock s r tb =
     (let st = ts_taper s
      in if \<not> enable_taper_plus st \<or> taper_plus_policy st \<noteq> PTailBlend \<or> external_req_id r = None then Inr (False, tb)
         else bindE (should_defer_for_virtual_reservation s tb r) (\<lambda>reserved.
           if reserved then Inr (True, tb)
           else bindE (should_defer_for_ttft_guard clock s r tb) (\<lambda>(guarded, tb1).
             if guarded then Inr (True, tb1)
             else if tail_blend_pilot_k st \<le> 0 \<or> \<not> under_admission_pressure s then Inr (False, tb1)
             else let g = taper_plus_group_id r;
                      (started_siblings, tb2) = started_sibling_count s g tb1
               in if started_siblings < tail_blend_pilot_k st then Inr (False, tb2)
                  else if group_finished tb2 g = [] then Inr (True, tb2)
                  else bindE (best_expandable_group_id s (clock 2) tb2) (\<lambda>(best, tb3).
                    Inr (best \<noteq> None \<and> best \<noteq> Some g, tb3)))))"

definition plan_admitted_running_req_ids :: "int \<Rightarrow> string set option" where
  "plan_admitted_running_req_ids token_budget = None"

end
