(* ===== verification/Tail_Blend_Preemption.thy ===== *)
theory Tail_Blend_Preemption
  imports Tail_Blend
begin

text \<open>
  The choice of a preemption victim in \<^verbatim>\<open>TailBlendController\<close> of
  \<^verbatim>\<open>vllm/v1/core/sched/tail_blend_controller.py\<close>: the scores of all preemption modes, the pressure state of
  the adaptive mode and \<^verbatim>\<open>select_preemption_victim\<close>.

  Object identity of requests is their \<open>obj_id\<close>. Where the source catches exceptions of the KV cache manager, the
  model falls back on an \<open>Inl\<close>; reading the numbers of blocks raises nothing in the model.
\<close>

section \<open>Scores\<close>

definition bool_score :: "real \<Rightarrow> bool \<Rightarrow> real" where
  "bool_score x b = (if b then x else 0)"

definition allocated_block_count :: "tail_scheduler \<Rightarrow> request \<Rightarrow> int" where
  "allocated_block_count s r =
     (case kcm_get_block_ids (ts_kv s) (request_id r) of
        None \<Rightarrow> max 1 \<lceil>of_int (num_computed_tokens r) / of_int (max 1 (ts_block_size s)) :: real\<rceil>
      | Some block_ids \<Rightarrow> max 1 (int (sum_list (map length block_ids))))"

definition predicted_future_blocks :: "tail_scheduler \<Rightarrow> tail_blend \<Rightarrow> request \<Rightarrow> int" where
  "predicted_future_blocks s tb r =
     (let predicted_output_tokens = num_output_tokens r + \<lceil>predict_remaining_tokens tb r\<rceil>
      in case Kv_Cache_Manager.estimate_future_footprint_for_output_len (ts_kv s) r predicted_output_tokens of
           Inr n \<Rightarrow> n
         | Inl _ \<Rightarrow>
             let remaining_tokens = max 0 (min (max_tokens r) predicted_output_tokens - num_output_tokens r)
             in \<lceil>of_int remaining_tokens / of_int (max 1 (ts_block_size s)) :: real\<rceil>)"

definition prefill_aware_preemption_score :: "tail_scheduler \<Rightarrow> request \<Rightarrow> real \<Rightarrow> real \<Rightarrow> bool \<Rightarrow> bool \<Rightarrow> real" where
  "prefill_aware_preemption_score s r recompute_cost parent_rescue near_finish overdue =
     (let tot = max 1 (num_prompt_tokens r + max 1 (max_tokens r));
          prompt_share = min 1 (of_int (num_prompt_tokens r) / of_int tot);
          computed_norm = min 1 (of_int (num_computed_tokens r) / of_int tot);
          capacity_blocks = max 1 \<lceil>of_int tot / of_int (max 1 (ts_block_size s)) :: real\<rceil>;
          freed_ratio = min 1 (of_int (allocated_block_count s r) / of_int capacity_blocks);
          cheap_to_recompute = 1 - computed_norm;
          no_token_bonus = bool_score (1 / 4) (num_output_tokens r = 0);
          prompt_recompute_damage = recompute_cost * (9 / 20 + 17 / 20 * prompt_share);
          generated_prefix_damage = min 1 (of_int (num_output_tokens r) / max 64 (1 / 10 * of_int (max_tokens r)))
      in 7 / 5 * cheap_to_recompute + 3 / 10 * freed_ratio + no_token_bonus - 13 / 10 * prompt_recompute_damage
         - 9 / 5 * generated_prefix_damage - 19 / 20 * parent_rescue - bool_score (19 / 20) near_finish
         - bool_score (7 / 20) overdue - 1 / 5 * of_int (num_preemptions r))"

definition kv_freed_preemption_score ::
    "tail_scheduler \<Rightarrow> tail_blend \<Rightarrow> request \<Rightarrow> real \<Rightarrow> real \<Rightarrow> real \<Rightarrow> real \<Rightarrow> bool \<Rightarrow> bool \<Rightarrow> real" where
  "kv_freed_preemption_score s tb r remaining_norm output_progress recompute_cost parent_rescue near_finish overdue =
     (let capacity_blocks = max 1 \<lceil>of_int (num_prompt_tokens r + max 1 (max_tokens r)) / of_int (max 1 (ts_block_size s)) :: real\<rceil>;
          freed_ratio = min 1 (of_int (allocated_block_count s r) / of_int capacity_blocks);
          future_ratio = min 1 (of_int (predicted_future_blocks s tb r) / of_int capacity_blocks);
          pressure_relief = 27 / 20 * remaining_norm + 11 / 20 * freed_ratio + 7 / 20 * future_ratio;
          parent_damage = 23 / 20 * output_progress + 19 / 20 * recompute_cost + 5 / 4 * parent_rescue +
            bool_score (11 / 10) near_finish + bool_score (9 / 20) overdue + 1 / 5 * of_int (num_preemptions r)
      in pressure_relief - parent_damage)"

definition parent_slo_state_of :: "tail_scheduler \<Rightarrow> tail_blend \<Rightarrow> string \<Rightarrow> real \<Rightarrow> parent_slo_state res" where
  "parent_slo_state_of s tb g now_s =
     (let member = (\<lambda>r. in_group g r \<and> sampling_params r \<noteq> None);
          finished_count = int (length (group_finished tb g));
          running_requests = filter member (ts_running s);
          all_requests = running_requests @ filter member (ts_waiting s) @ filter member (ts_skipped_waiting s);
          progress_times =
            (case tb_groups tb g of None \<Rightarrow> [] | Some gs \<Rightarrow> if 0 < last_progress_time_s gs then [last_progress_time_s gs] else []) @
            map taper_last_token_time (filter (\<lambda>r. 0 < num_output_tokens r) running_requests);
          max_toks = greatest_or 1 (map max_tokens all_requests);
          total_count = max 1 (finished_count + int (length all_requests));
          predicted_work = sum_list (map (predict_remaining_tokens tb) all_requests)
      in if total_count * max_toks = 0 then Inl ZeroDivisionError
         else let work_norm = min 1 (predicted_work / of_int (total_count * max_toks));
                  tpot = taper_plus_tpot_slo_s (ts_taper s);
                  ttft = taper_plus_ttft_slo_s (ts_taper s);
                  (deadline_s, slo_window_s) =
                    (if progress_times \<noteq> [] then (Max (set progress_times) + tpot, max (1 / 1000) tpot)
                     else ((if all_requests = [] then now_s else Min (set (map arrival_time all_requests))) + ttft, max (1 / 1000) ttft));
                  slack_s = deadline_s - now_s
           in Inr \<lparr>pss_doomed = min 1 (max 0 (- slack_s / (1 / 2 * slo_window_s))),
                   pss_urgent_feasible = (if 0 \<le> slack_s then min 1 (max 0 (1 - slack_s / slo_window_s)) else 0),
                   pss_work_norm = work_norm\<rparr>)"

definition slo_feasibility_preemption_score ::
    "tail_scheduler \<Rightarrow> tail_blend \<Rightarrow> request \<Rightarrow> string \<Rightarrow> real \<Rightarrow> real \<Rightarrow> real \<Rightarrow> real \<Rightarrow> real \<Rightarrow> bool \<Rightarrow> bool \<Rightarrow> real res" where
  "slo_feasibility_preemption_score s tb r g now_s remaining_norm output_progress recompute_cost parent_rescue near_finish overdue =
     bindE (parent_slo_state_of s tb g now_s) (\<lambda>parent.
       let doomed = pss_doomed parent;
           feasible = 1 - doomed;
           rescue_value = parent_rescue * feasible;
           near_finish_value = bool_score 1 near_finish * feasible;
           recompute_value = recompute_cost * (9 / 20 + 11 / 20 * feasible);
           output_value = output_progress * (1 / 2 + 1 / 2 * feasible);
           branch_overdue_protection = bool_score (3 / 10) (overdue \<and> doomed < 1 / 2)
       in Inr (29 / 20 * remaining_norm + 13 / 10 * doomed + 7 / 20 * pss_work_norm parent - 6 / 5 * rescue_value - near_finish_value
               - 9 / 10 * recompute_value - 21 / 20 * output_value - 17 / 20 * pss_urgent_feasible parent
               - branch_overdue_protection - 1 / 5 * of_int (num_preemptions r)))"

section \<open>The key of a victim\<close>

definition preemption_victim_key ::
    "tail_scheduler \<Rightarrow> tail_blend \<Rightarrow> request \<Rightarrow> real \<Rightarrow> preemption_mode \<Rightarrow> request \<Rightarrow> (real \<times> real \<times> real \<times> string) res" where
  "preemption_victim_key s tb current now_s mode r =
     (let max_toks = max 1 (max_tokens r);
          remaining = predict_remaining_tokens tb r;
          remaining_norm = remaining / of_int max_toks;
          output_progress = min 1 (of_int (num_output_tokens r) / of_int max_toks);
          recompute_cost = of_int (num_computed_tokens r) / of_int (max 1 (num_prompt_tokens r + max_toks));
          g = taper_plus_group_id r;
          parent_rescue = parent_rescue_score s tb g;
          near_finish = (remaining \<le> max 32 (1 / 20 * of_int max_toks));
          overdue = (get_taper_plus_deadline_s (ts_taper s) r < now_s);
          preempted = 1 / 5 * of_int (num_preemptions r)
      in bindE (case mode of
            Remaining \<Rightarrow> Inr remaining_norm
          | RemainingRecompute \<Rightarrow> Inr (7 / 5 * remaining_norm - 9 / 10 * recompute_cost - bool_score 1 near_finish - preempted)
          | RemainingParent \<Rightarrow> Inr (7 / 5 * remaining_norm - 11 / 10 * parent_rescue - bool_score 1 near_finish - preempted)
          | FullV2 \<Rightarrow> Inr (kv_freed_preemption_score s tb r remaining_norm output_progress recompute_cost parent_rescue near_finish overdue)
          | FullSlo \<Rightarrow>
              slo_feasibility_preemption_score s tb r g now_s remaining_norm output_progress recompute_cost parent_rescue near_finish overdue
          | PrefillAware \<Rightarrow> Inr (prefill_aware_preemption_score s r recompute_cost parent_rescue near_finish overdue)
          | PrefillAwareGated \<Rightarrow> Inr (prefill_aware_preemption_score s r recompute_cost parent_rescue near_finish overdue)
          | Complicated \<Rightarrow> Inr (8 / 5 * remaining_norm - 6 / 5 * output_progress - parent_rescue - 4 / 5 * recompute_cost
              - bool_score 1 near_finish - bool_score (2 / 5) overdue - preempted)
          | _ \<Rightarrow> Inr (remaining_norm - 1 / 2 * (output_progress + recompute_cost)
              - max (max parent_rescue (bool_score 1 near_finish)) (bool_score 1 overdue)))
        (\<lambda>score. Inr (score, if obj_id r = obj_id current then - 1 else 0, arrival_time r, request_id r)))"

section \<open>The adaptive mode\<close>

definition adaptive_pressure_state_of :: "tail_scheduler \<Rightarrow> tail_blend \<Rightarrow> request \<Rightarrow> request list \<Rightarrow> adaptive_pressure_state" where
  "adaptive_pressure_state_of s tb current candidates =
     (let kv_util = 1 - free_block_ratio_of s;
          kv_pressure = clamp01 ((kv_util - 17 / 20) / (3 / 20));
          running_count = max 1 (int (length (ts_running s)));
          backlog_ratio = of_int (waiting_backlog s) / of_int running_count;
          backlog_pressure = clamp01 ((backlog_ratio - 3 / 2) / 4);
          requests = (if \<forall>r \<in> set candidates. request_id r \<noteq> request_id current then candidates @ [current] else candidates);
          prompt_tokens = sum_list (map (\<lambda>r. max 0 (num_prompt_tokens r)) requests);
          tot = sum_list (map (\<lambda>r. max 1 (num_prompt_tokens r + max 1 (max_tokens r))) requests);
          prompt_share = of_int prompt_tokens / of_int (max 1 tot);
          recompute_risk = of_int (sum_list (map (\<lambda>r. min (num_computed_tokens r) (num_prompt_tokens r)) requests)) / of_int (max 1 prompt_tokens);
          prefill_pressure = kv_pressure * backlog_pressure * prompt_share * clamp01 recompute_risk;
          active_group_ids = remdups (map taper_plus_group_id (filter (\<lambda>r. external_req_id r \<noteq> None) requests));
          groups_with_tail_signal = length (filter (\<lambda>g. group_finished tb g \<noteq> []) active_group_ids);
          tail_signal = (if active_group_ids \<noteq> [] then of_nat groups_with_tail_signal / of_nat (length active_group_ids) else 0);
          remaining_values = map (predict_remaining_tokens tb) (filter (\<lambda>r. sampling_params r \<noteq> None) requests);
          p50_remaining = percentile_float remaining_values (1 / 2);
          p90_remaining = percentile_float remaining_values (9 / 10);
          tail_skew = (if 1 < p50_remaining then clamp01 ((p90_remaining / p50_remaining - 1) / (3 / 2)) else 0);
          decode_candidates = int (length (filter is_taper_plus_decode_candidate (ts_running s)));
          decode_pressure = clamp01 ((of_int decode_candidates / of_int running_count - 3 / 4) / (1 / 4));
          output_share = 1 - prompt_share;
          output_tail_pressure = kv_pressure * output_share * tail_signal * max (1 / 4) tail_skew * (1 / 2 + 1 / 2 * decode_pressure)
      in \<lparr>aps_prefill_pressure = prefill_pressure, aps_output_tail_pressure = output_tail_pressure, aps_kv_pressure = kv_pressure,
          aps_backlog_ratio = backlog_ratio, aps_prompt_share = prompt_share, aps_recompute_risk = clamp01 recompute_risk,
          aps_tail_signal = tail_signal, aps_tail_skew = tail_skew\<rparr>)"

definition count_choice :: "string \<Rightarrow> tail_blend \<Rightarrow> tail_blend" where
  "count_choice key tb = tb\<lparr>adaptive_choice_counts :=
     (adaptive_choice_counts tb)(key \<mapsto> (case adaptive_choice_counts tb key of None \<Rightarrow> 0 | Some n \<Rightarrow> n) + 1)\<rparr>"

definition full_candidate_has_high_prefix_waste ::
    "tail_scheduler \<Rightarrow> tail_blend \<Rightarrow> real \<Rightarrow> request \<Rightarrow> request list \<Rightarrow> bool res" where
  "full_candidate_has_high_prefix_waste s tb now_s current candidates =
     bindE (max_by (preemption_victim_key s tb current now_s Full) candidates) (\<lambda>victim.
       Inr (max 128 (1 / 10 * of_int (max 1 (max_tokens victim))) < (of_int (num_output_tokens victim) :: real)))"

definition select_adaptive_preemption_mode ::
    "(nat \<Rightarrow> real) \<Rightarrow> tail_scheduler \<Rightarrow> request \<Rightarrow> request list \<Rightarrow> tail_blend \<Rightarrow> (preemption_mode option \<times> tail_blend) res" where
  "select_adaptive_preemption_mode clock s current candidates tb =
     (let pressure = adaptive_pressure_state_of s tb current candidates;
          tb1 = tb\<lparr>last_adaptive_pressure_state := Some pressure\<rparr>;
          prefill = aps_prefill_pressure pressure;
          tail = aps_output_tail_pressure pressure
      in if 3 / 10 \<le> prefill \<and> tail + 1 / 10 \<le> prefill then Inr (Some PrefillAware, tb1)
         else if 7 / 50 \<le> tail \<and> prefill + 1 / 20 \<le> tail
         then bindE (full_candidate_has_high_prefix_waste s tb1 (clock 1) current candidates) (\<lambda>waste.
                if waste then Inr (None, count_choice ''full_prefix_guard'' tb1) else Inr (Some Full, tb1))
         else Inr (None, tb1))"

definition should_use_prefill_aware_preemption :: "tail_scheduler \<Rightarrow> request \<Rightarrow> bool" where
  "should_use_prefill_aware_preemption s current =
     (let tot = max 1 (num_prompt_tokens current + max 1 (max_tokens current));
          prompt_share = of_int (num_prompt_tokens current) / of_int tot :: real;
          prompt_heavy = 1 / 2 \<le> prompt_share \<or> max 1024 (max_tokens current) \<le> num_prompt_tokens current
      in if \<not> prompt_heavy then False
         else (7 / 2 * of_int (max 1 (int (length (ts_running s)))) :: real) \<le> of_int (waiting_backlog s))"

fun mode_name :: "preemption_mode \<Rightarrow> string" where
  "mode_name Remaining = ''remaining''"
| "mode_name RemainingRecompute = ''remaining_recompute''"
| "mode_name RemainingParent = ''remaining_parent''"
| "mode_name Full = ''full''"
| "mode_name FullV2 = ''full_v2''"
| "mode_name FullSlo = ''full_slo''"
| "mode_name Complicated = ''complicated''"
| "mode_name Simplified = ''simplified''"
| "mode_name PrefillAware = ''prefill_aware''"
| "mode_name PrefillAwareGated = ''prefill_aware_gated''"
| "mode_name Adaptive = ''adaptive''"

lemma parse_mode_name: "parse_preemption_mode (mode_name m) = Inr m"
  by (cases m) (simp_all add: parse_preemption_mode_def)

definition choice_name :: "preemption_mode option \<Rightarrow> string" where
  "choice_name effective_mode = (case effective_mode of None \<Rightarrow> ''default'' | Some m \<Rightarrow> mode_name m)"

definition victim_candidates :: "tail_scheduler \<Rightarrow> request list" where
  "victim_candidates s = filter (\<lambda>r. sampling_params r \<noteq> None \<and> external_req_id r \<noteq> None) (ts_running s)"

definition select_preemption_victim ::
    "(nat \<Rightarrow> real) \<Rightarrow> tail_scheduler \<Rightarrow> request \<Rightarrow> tail_blend \<Rightarrow> (request option \<times> tail_blend) res" where
  "select_preemption_victim clock s current tb =
     (let st = ts_taper s;
          mode = tail_blend_preemption_mode st;
          candidates = victim_candidates s
      in if \<not> enable_taper_plus st \<or> taper_plus_policy st \<noteq> PTailBlend \<or> \<not> tail_blend_preemption st then Inr (None, tb)
         else if candidates = [] then Inr (None, tb)
         else bindE (if mode = Adaptive
                     then bindE (select_adaptive_preemption_mode clock s current candidates tb) (\<lambda>(chosen, tb1).
                            Inr (chosen, count_choice (choice_name chosen) tb1))
                     else Inr (Some mode, tb)) (\<lambda>(effective_mode, tb').
           case effective_mode of
             None \<Rightarrow> Inr (None, tb')
           | Some m \<Rightarrow>
               if mode = PrefillAwareGated \<and> \<not> should_use_prefill_aware_preemption s current then Inr (None, tb')
               else bindE (max_by (preemption_victim_key s tb' current (clock 0) m) candidates) (\<lambda>victim.
                      Inr (Some victim, tb'))))"

end
