(* ===== verification/Tail_Blend_Properties.thy ===== *)
theory Tail_Blend_Properties
  imports Tail_Blend_Preemption Kv_Properties
begin

text \<open>
  What the TailBlend controller guarantees: footprints are monotone and reservations stay below the worst case,
  reservation always leaves a waiting branch, the first branches of a parent are never held back, and the victim of a
  preemption is a best one. It also shows a branch that the pilot rule holds back for ever.
\<close>

section \<open>Footprints\<close>

definition admission_need :: "kv_manager \<Rightarrow> int \<Rightarrow> int" where
  "admission_need m n = (case max_admission_blocks m of
     None \<Rightarrow> cdiv n (km_block_size m) | Some cap \<Rightarrow> min (cdiv n (km_block_size m)) cap)"

definition blocks_counted :: "kv_manager \<Rightarrow> string \<Rightarrow> int \<Rightarrow> int" where
  "blocks_counted m rid tot =
     (if num_cached_block m rid \<noteq> None then int (length (blocks_of_req m rid))
      else max (get_num_skipped_tokens m tot div km_block_size m) (int (length (blocks_of_req m rid))))"

lemma base_footprint:
  "base_get_num_blocks_to_allocate m p rid n [] tot True = Inr (max (admission_need m n - blocks_counted m rid tot) 0)"
  by (auto simp: base_get_num_blocks_to_allocate_def Let_def admission_need_def blocks_counted_def get_num_evictable_blocks_def
      split: option.split)

lemma admission_need_mono: "0 < km_block_size m \<Longrightarrow> n \<le> n' \<Longrightarrow> admission_need m n \<le> admission_need m n'"
  using cdiv_mono [of "km_block_size m" n n'] by (auto simp: admission_need_def split: option.split)

definition footprint :: "kv_cache_manager \<Rightarrow> request \<Rightarrow> int \<Rightarrow> int" where
  "footprint k r n = (\<Sum>j < length (kcm_managers k). max (admission_need (kcm_managers k ! j) n -
     blocks_counted (kcm_managers k ! j) (request_id r) (min (num_computed_tokens r) (kcm_max_model_len k))) 0)"

lemma footprint_for_total:
  assumes "kv_inv k"
  shows "footprint_for k r n = Inr (footprint k r n)"
proof -
  have groups: "num_kv_cache_groups k = length (kcm_managers k)" "\<forall>m \<in> set (kcm_managers k). plain_mgr m"
    using assms by (simp_all add: kv_inv_def mgr_conf_def)
  have "co_get_num_blocks_to_allocate (coordinator k) (request_id r) n (replicate (length (kcm_managers k)) []) 0
      (min (num_computed_tokens r) (kcm_max_model_len k)) n True = Inr (\<Sum>j < length (replicate (length (kcm_managers k)) ([] :: ref list)).
      max (admission_need (kcm_managers k ! j) n - blocks_counted (kcm_managers k ! j) (request_id r)
        (min (num_computed_tokens r) (kcm_max_model_len k))) 0)"
    by (rule predict_all [OF groups(2)]) (simp_all add: base_footprint)
  then show ?thesis by (simp add: footprint_for_def empty_kv_cache_blocks_def groups(1) footprint_def)
qed

lemma footprint_nonneg: "0 \<le> footprint k r n"
  by (auto simp: footprint_def intro: sum_nonneg)

lemma footprint_mono:
  assumes "kv_inv k" and "n \<le> n'"
  shows "footprint k r n \<le> footprint k r n'"
  unfolding footprint_def
proof (rule sum_mono)
  fix j
  assume "j \<in> {..<length (kcm_managers k)}"
  then have "0 < km_block_size (kcm_managers k ! j)" using assms(1) by (simp add: kv_inv_def mgr_conf_def plain_mgr_def spec_ok_def)
  from admission_need_mono [OF this assms(2)]
  show "max (admission_need (kcm_managers k ! j) n - blocks_counted (kcm_managers k ! j) (request_id r) (min (num_computed_tokens r) (kcm_max_model_len k))) 0
      \<le> max (admission_need (kcm_managers k ! j) n' - blocks_counted (kcm_managers k ! j) (request_id r) (min (num_computed_tokens r) (kcm_max_model_len k))) 0"
    by (intro max.mono diff_right_mono) simp_all
qed

section \<open>Selection\<close>

locale selection =
  fixes better :: "'k \<Rightarrow> 'k \<Rightarrow> bool"
  assumes better_trans: "better a b \<Longrightarrow> better b c \<Longrightarrow> better a c"
    and better_irrefl: "\<not> better a a"
    and better_total: "a \<noteq> b \<Longrightarrow> better a b \<or> better b a"
begin

lemma best_first_best:
  "\<exists>k. (k, best_first better b xs) \<in> set (b # xs) \<and> (\<forall>x \<in> set (b # xs). \<not> better (fst x) k)"
proof (induction xs arbitrary: b)
  case Nil
  show ?case using better_irrefl by (intro exI [of _ "fst b"]) simp
next
  case (Cons y ys)
  let ?c = "if better (fst y) (fst b) then y else b"
  obtain k where k: "(k, best_first better ?c ys) \<in> set (?c # ys)" "\<forall>x \<in> set (?c # ys). \<not> better (fst x) k"
    using Cons.IH [of ?c] by blast
  have "\<not> better (fst b) k \<and> \<not> better (fst y) k"
  proof (cases "better (fst y) (fst b)")
    case True
    then show ?thesis using k(2) better_trans [of "fst y" "fst b" k] by auto
  next
    case False
    then have "\<not> better (fst b) k" using k(2) by simp
    with False better_total [of "fst y" "fst b"] better_trans [of "fst b" "fst y" k] show ?thesis by metis
  qed
  moreover have "best_first better b (y # ys) = best_first better ?c ys" by simp
  ultimately show ?case using k by (intro exI [of _ k]) (auto split: if_splits)
qed

lemma select_best:
  assumes "xs \<noteq> []" and "\<And>x. x \<in> set xs \<Longrightarrow> key x = Inr (k x)"
  shows "\<exists>y \<in> set xs. select_by better key xs = Inr y \<and> (\<forall>x \<in> set xs. \<not> better (k x) (k y))"
proof -
  obtain z zs where xs: "xs = z # zs" using assms(1) by (cases xs) auto
  have keys: "map_res key xs = Inr (map k xs)" by (rule map_res_total) (rule assms(2))
  have zip: "zip (map k xs) xs = map (\<lambda>x. (k x, x)) xs" by (simp add: zip_map1 zip_same_conv_map)
  let ?y = "best_first better (k z, z) (map (\<lambda>x. (k x, x)) zs)"
  obtain kk where kk: "(kk, ?y) \<in> set ((k z, z) # map (\<lambda>x. (k x, x)) zs)"
      "\<forall>x \<in> set ((k z, z) # map (\<lambda>x. (k x, x)) zs). \<not> better (fst x) kk"
    using best_first_best by blast
  have "select_by better key xs = Inr ?y" using zip by (simp add: select_by_def keys) (simp add: xs)
  moreover have "?y \<in> set xs" "kk = k ?y" using kk(1) by (auto simp: xs)
  moreover have "\<forall>x \<in> set xs. \<not> better (k x) kk" using kk(2) by (auto simp: xs)
  ultimately show ?thesis by auto
qed

end

interpretation smallest: selection "(<) :: 'k::linorder \<Rightarrow> 'k \<Rightarrow> bool"
  by unfold_locales auto

interpretation largest: selection "(>) :: 'k::linorder \<Rightarrow> 'k \<Rightarrow> bool"
  by unfold_locales auto

section \<open>A concrete scheduler\<close>

definition example_tail :: "real \<Rightarrow> kv_cache_manager \<Rightarrow> request list \<Rightarrow> request list \<Rightarrow> tail_scheduler" where
  "example_tail q k running_reqs waiting_reqs =
     \<lparr>ts_taper = example_taper\<lparr>taper_plus_policy := PTailBlend, tail_blend_pilot_k := 1, tail_blend_preemption := True,
        tail_blend_reservation_q := q\<rparr>,
      ts_running = running_reqs, ts_waiting = waiting_reqs, ts_skipped_waiting = [], ts_max_num_running_reqs = 1,
      ts_block_size = 16, ts_kv = k\<rparr>"

lemma example_tail_simps [simp]:
  "ts_running (example_tail q k rs ws) = rs" "ts_waiting (example_tail q k rs ws) = ws" "ts_skipped_waiting (example_tail q k rs ws) = []"
  "ts_kv (example_tail q k rs ws) = k" "ts_max_num_running_reqs (example_tail q k rs ws) = 1"
  "enable_taper_plus (ts_taper (example_tail q k rs ws))" "taper_plus_policy (ts_taper (example_tail q k rs ws)) = PTailBlend"
  "tail_blend_pilot_k (ts_taper (example_tail q k rs ws)) = 1" "tail_blend_preemption (ts_taper (example_tail q k rs ws))"
  "tail_blend_reservation_q (ts_taper (example_tail q k rs ws)) = q" "tail_blend_admission_mode (ts_taper (example_tail q k rs ws)) = AdmOff"
  "tail_blend_preemption_mode (ts_taper (example_tail q k rs ws)) = Full"
  by (simp_all add: example_tail_def example_taper_def)

lemma example_branch_simps [simp]:
  "external_req_id (example_branch oid rid tok) = Some ''parent''" "sampling_params (example_branch oid rid tok) \<noteq> None"
  "max_tokens (example_branch oid rid tok) = 16" "num_preemptions (example_branch oid rid tok) = 0"
  by (simp_all add: example_branch_def plain_request_def new_request_def)

abbreviation cold_branch :: request where
  "cold_branch \<equiv> (plain_request 0 ''a'' [1])\<lparr>external_req_id := Some ''parent''\<rparr>"

lemma cold_branch_cold: "is_ttft_guard_cold_request cold_branch"
  by (simp add: is_ttft_guard_cold_request_def num_output_tokens_def) (simp add: plain_request_def new_request_def)

lemma init_tail_blend_finished [simp]: "group_finished init_tail_blend g = []"
  by (simp add: group_finished_def init_tail_blend_def)

section \<open>Reservation\<close>

definition branch_ok :: "request \<Rightarrow> bool" where
  "branch_ok r \<longleftrightarrow> 1 \<le> max_tokens r \<and> num_output_tokens r \<le> max_tokens r"

lemma reservation_prediction_range:
  assumes "branch_ok r"
  shows "of_int (num_output_tokens r) \<le> predict_output_tokens_for_reservation s tb r"
    and "predict_output_tokens_for_reservation s tb r \<le> of_int (max_tokens r)"
  using assms by (auto simp: predict_output_tokens_for_reservation_def Let_def branch_ok_def)

lemma reserved_blocks:
  assumes inv: "kv_inv (ts_kv s)" and r: "branch_ok r"
  obtains n worst where "estimate_reserved_future_blocks s tb r = Inr n"
    and "Kv_Cache_Manager.estimate_future_footprint_for_output_len (ts_kv s) r (max_tokens r) = Inr worst" and "0 \<le> n" and "n \<le> worst"
proof -
  define target where "target n = min (num_prompt_tokens r + max (num_output_tokens r) (min (max_tokens r) n)) (kcm_max_model_len (ts_kv s))" for n
  have "\<lceil>predict_output_tokens_for_reservation s tb r\<rceil> \<le> max_tokens r"
    using reservation_prediction_range(2) [OF r, of s tb] by (simp add: ceiling_le_iff)
  then have le: "target \<lceil>predict_output_tokens_for_reservation s tb r\<rceil> \<le> target (max_tokens r)" by (auto simp: target_def)
  have est: "Kv_Cache_Manager.estimate_future_footprint_for_output_len (ts_kv s) r n = Inr (footprint (ts_kv s) r (target n))" for n
    by (simp add: Kv_Cache_Manager.estimate_future_footprint_for_output_len_def target_def footprint_for_total [OF inv])
  show thesis
    by (rule that [OF _ est footprint_nonneg footprint_mono [OF inv le]]) (simp add: estimate_reserved_future_blocks_def est)
qed

lemma reserved_total:
  assumes "kv_inv (ts_kv s)" and "branch_ok r"
  shows "\<exists>n. estimate_reserved_future_blocks s tb r = Inr n"
proof -
  obtain n where "estimate_reserved_future_blocks s tb r = Inr n" by (rule reserved_blocks [OF assms])
  then show ?thesis by blast
qed

lemma best_waiting_by_reservation:
  assumes inv: "kv_inv (ts_kv s)" and ok: "\<forall>r \<in> set (queued s). branch_ok r"
    and some: "r \<in> set (queued s)" "external_req_id r \<noteq> None" "sampling_params r \<noteq> None"
  shows "\<exists>b \<in> set (queued s). best_waiting_request_id_by_reservation s tb = Inr (Some (request_id b))"
proof -
  let ?cs = "filter (\<lambda>r. external_req_id r \<noteq> None \<and> sampling_params r \<noteq> None) (queued s)"
  define n where "n q = projr (estimate_reserved_future_blocks s tb q)" for q
  have n: "estimate_reserved_future_blocks s tb q = Inr (n q)" if "q \<in> set ?cs" for q
  proof -
    have "branch_ok q" using that ok by auto
    from reserved_total [OF inv this, of tb] show ?thesis by (auto simp: n_def)
  qed
  have ne: "?cs \<noteq> []" using some by (auto simp: filter_empty_conv)
  define key where "key q = bindE (estimate_reserved_future_blocks s tb q) (\<lambda>n.
      Inr (n, predict_output_tokens_for_reservation s tb q, arrival_time q, request_id q))" for q
  have key: "key q = Inr (n q, predict_output_tokens_for_reservation s tb q, arrival_time q, request_id q)" if "q \<in> set ?cs" for q
    by (simp only: key_def n [OF that] bindE_Inr)
  obtain b where b: "b \<in> set ?cs" "min_by key ?cs = Inr b"
    using smallest.select_best [where key = key, OF ne key] unfolding min_by_def by blast
  have "best_waiting_request_id_by_reservation s tb = Inr (Some (request_id b))"
    using ne by (simp only: best_waiting_request_id_by_reservation_def Let_def key_def [symmetric] b(2) bindE_Inr if_False)
  with b(1) show ?thesis by auto
qed

text \<open>
  C25. Reservation is bounded and leaves a branch. Over a reachable KV cache manager, the output length the reservation
  plans for lies between what a branch has produced and its limit, and the blocks reserved for it are computed without
  an exception and never exceed those for its whole limit. As long as a block is free and a best-of-N branch waits,
  the reservation lets at least one waiting branch pass.
\<close>

theorem reservation_bounded_and_live:
  assumes reach: "kv_reachable (ts_kv s)" and ok: "\<forall>r \<in> set (ts_running s @ queued s). branch_ok r"
  shows "(\<forall>r \<in> set (ts_running s @ queued s).
      of_int (num_output_tokens r) \<le> predict_output_tokens_for_reservation s tb r \<and>
      predict_output_tokens_for_reservation s tb r \<le> of_int (max_tokens r) \<and>
      (\<exists>n worst. estimate_reserved_future_blocks s tb r = Inr n \<and>
         Kv_Cache_Manager.estimate_future_footprint_for_output_len (ts_kv s) r (max_tokens r) = Inr worst \<and> 0 \<le> n \<and> n \<le> worst)) \<and>
    (0 < get_remaining_free_blocks (ts_kv s) \<longrightarrow>
     (\<exists>r \<in> set (queued s). external_req_id r \<noteq> None \<and> sampling_params r \<noteq> None) \<longrightarrow>
     (\<exists>r \<in> set (queued s). should_defer_for_virtual_reservation s tb r = Inr False))"
proof (intro conjI ballI impI)
  note inv = kv_reachable_inv [OF reach]
  fix r
  assume "r \<in> set (ts_running s @ queued s)"
  then have r: "branch_ok r" using ok by blast
  show "of_int (num_output_tokens r) \<le> predict_output_tokens_for_reservation s tb r"
    and "predict_output_tokens_for_reservation s tb r \<le> of_int (max_tokens r)"
    by (rule reservation_prediction_range [OF r])+
  show "\<exists>n worst. estimate_reserved_future_blocks s tb r = Inr n \<and>
      Kv_Cache_Manager.estimate_future_footprint_for_output_len (ts_kv s) r (max_tokens r) = Inr worst \<and> 0 \<le> n \<and> n \<le> worst"
    using reserved_blocks [OF inv r] by metis
next
  note inv = kv_reachable_inv [OF reach]
  assume free: "0 < free_blocks s" and "\<exists>r \<in> set (queued s). external_req_id r \<noteq> None \<and> sampling_params r \<noteq> None"
  then obtain b where b: "b \<in> set (queued s)" "best_waiting_request_id_by_reservation s tb = Inr (Some (request_id b))"
    using best_waiting_by_reservation [OF inv, of _ tb] ok by auto
  note est = reserved_total [OF inv]
  let ?running = "filter (\<lambda>q. sampling_params q \<noteq> None) (ts_running s)"
  define n where "n q = projr (estimate_reserved_future_blocks s tb q)" for q
  have "estimate_reserved_future_blocks s tb q = Inr (n q)" if "q \<in> set ?running" for q
    using est [of q tb] ok that by (auto simp: n_def)
  then have "map_res (estimate_reserved_future_blocks s tb) ?running = Inr (map n ?running)" by (rule map_res_total)
  moreover have "branch_ok b" using ok b(1) by auto
  then obtain nb where "estimate_reserved_future_blocks s tb b = Inr nb" using est by blast
  ultimately have "should_defer_for_virtual_reservation s tb b = Inr False"
    using free b(2) by (simp add: should_defer_for_virtual_reservation_def)
  with b(1) show "\<exists>r \<in> set (queued s). should_defer_for_virtual_reservation s tb r = Inr False" by blast
qed

theorem reservation_bounded_and_live_witness:
  "\<exists>k. example_manager = Inr k \<and> (\<exists>r \<in> set (queued (example_tail (1 / 2) k [] [example_branch 0 ''a'' 3])).
     should_defer_for_virtual_reservation (example_tail (1 / 2) k [] [example_branch 0 ''a'' 3]) init_tail_blend r = Inr False)"
proof -
  obtain k where k: "example_manager = Inr k" "kv_reachable k" "get_num_free_blocks (kcm_pool k) = 7"
    by (rule example_manager_state) blast
  from reservation_bounded_and_live [of "example_tail (1 / 2) k [] [example_branch 0 ''a'' 3]" init_tail_blend] k
  show ?thesis by (auto simp: branch_ok_def get_remaining_free_blocks_def)
qed

section \<open>Admission\<close>

lemma group_touched_finished [simp]: "group_finished (group_touched g tb) g' = group_finished tb g'"
  by (auto simp: group_touched_def group_finished_def new_group_state_def split: option.splits)

lemma started_sibling_count_touched: "fst (started_sibling_count s g (group_touched g' tb)) = fst (started_sibling_count s g tb)"
  by (simp add: started_sibling_count_def Let_def)

lemma started_sibling_count_state [simp]: "snd (started_sibling_count s g tb) = group_touched g tb"
  by (simp add: started_sibling_count_def Let_def)

lemma guard_passes_pilot:
  assumes "fst (started_sibling_count s (taper_plus_group_id r) tb) < max 1 (tail_blend_pilot_k (ts_taper s))"
  shows "\<exists>tb'. should_defer_for_ttft_guard clock s r tb = Inr (False, tb') \<and> (tb' = tb \<or> tb' = group_touched (taper_plus_group_id r) tb)"
proof -
  obtain n where n: "started_sibling_count s (taper_plus_group_id r) tb = (n, group_touched (taper_plus_group_id r) tb)"
      "n < max 1 (tail_blend_pilot_k (ts_taper s))"
    using assms started_sibling_count_state [of s "taper_plus_group_id r" tb] by (metis prod.collapse)
  have fair: "should_defer_for_ttft_fair_guard s r tb \<in> {(False, tb), (False, group_touched (taper_plus_group_id r) tb)}"
    using n(2) unfolding should_defer_for_ttft_fair_guard_def Let_def n(1) by simp
  show ?thesis
    using fair n(2) unfolding should_defer_for_ttft_guard_def Let_def n(1)
    by (cases "tail_blend_admission_mode (ts_taper s)") auto
qed

text \<open>
  C26. The first branches of a parent are never held back. Whatever the admission mode, the pressure and the clock, a
  waiting branch that the reservation lets pass is admitted as long as fewer branches of its parent have started
  than the protected width, which is the pilot width but at least one.
\<close>

theorem pilot_branches_are_admitted:
  assumes "should_defer_for_virtual_reservation s tb r = Inr False"
    and "fst (started_sibling_count s (taper_plus_group_id r) tb) < max 1 (tail_blend_pilot_k (ts_taper s))"
  shows "\<exists>tb'. tb_should_defer_waiting_request clock s r tb = Inr (False, tb') \<and>
    (\<forall>g. group_finished tb' g = group_finished tb g)"
proof -
  let ?g = "taper_plus_group_id r"
  obtain tb1 where tb1: "should_defer_for_ttft_guard clock s r tb = Inr (False, tb1)" "tb1 = tb \<or> tb1 = group_touched ?g tb"
    using guard_passes_pilot [OF assms(2)] by blast
  obtain n where n: "started_sibling_count s ?g tb1 = (n, group_touched ?g tb1)" by (metis prod.collapse started_sibling_count_state)
  have "n = fst (started_sibling_count s ?g tb)" using n tb1(2) started_sibling_count_touched [of s ?g ?g tb] by auto
  then have small: "0 < tail_blend_pilot_k (ts_taper s) \<Longrightarrow> n < tail_blend_pilot_k (ts_taper s)" using assms(2) by simp
  have same: "\<forall>g. group_finished tb1 g = group_finished tb g" using tb1(2) by auto
  show ?thesis
    using small same unfolding tb_should_defer_waiting_request_def Let_def assms(1) by (simp add: tb1(1) n)
qed

theorem pilot_branches_are_admitted_witness:
  "\<exists>k tb'. example_manager = Inr k \<and>
     tb_should_defer_waiting_request (\<lambda>_. 0) (example_tail 0 k [] [cold_branch]) cold_branch init_tail_blend = Inr (False, tb')"
proof -
  obtain k where k: "example_manager = Inr k" by (rule example_manager_state) blast
  have "should_defer_for_virtual_reservation (example_tail 0 k [] [cold_branch]) init_tail_blend cold_branch = Inr False"
    by (simp add: should_defer_for_virtual_reservation_def)
  moreover have "fst (started_sibling_count (example_tail 0 k [] [cold_branch]) (taper_plus_group_id cold_branch) init_tail_blend)
      < max 1 (tail_blend_pilot_k (ts_taper (example_tail 0 k [] [cold_branch])))"
    using cold_branch_cold by (simp add: started_sibling_count_def Let_def)
  ultimately show ?thesis
    using pilot_branches_are_admitted [of "example_tail 0 k [] [cold_branch]" init_tail_blend cold_branch "\<lambda>_. 0"] k by blast
qed

section \<open>A branch that waits for itself\<close>

text \<open>
  C37. The pilot rule can hold back a preempted branch for ever. A branch that was preempted counts as a started
  sibling of its own parent. If the pilot width is one, no sibling has finished and the system is under admission
  pressure, the rule that admits the remaining siblings only after a first one has finished therefore holds back that
  very branch, although nothing else of the parent runs; asked again with the state it left, it answers the same.
\<close>

theorem preempted_pilot_waits_for_itself:
  assumes st: "enable_taper_plus (ts_taper s)" "taper_plus_policy (ts_taper s) = PTailBlend" "tail_blend_pilot_k (ts_taper s) = 1"
      "tail_blend_reservation_q (ts_taper s) \<le> 0" "tail_blend_admission_mode (ts_taper s) = AdmOff"
    and r: "r \<in> set (queued s)" "external_req_id r = Some e" "0 < num_preemptions r"
    and none: "ts_running s = []" "group_finished tb (taper_plus_group_id r) = []" and pressure: "under_admission_pressure s"
  shows "\<exists>tb'. tb_should_defer_waiting_request clock s r tb = Inr (True, tb') \<and>
    tb_should_defer_waiting_request clock' s r tb' = Inr (True, tb')"
proof -
  let ?g = "taper_plus_group_id r"
  let ?started = "\<lambda>q. named_in_group ?g q \<and> \<not> is_ttft_guard_cold_request q"
  have "?started r" using r(2,3) by (simp add: named_in_group_def is_ttft_guard_cold_request_def)
  then have "filter ?started (ts_waiting s) \<noteq> [] \<or> filter ?started (ts_skipped_waiting s) \<noteq> []"
    using r(1) by (auto simp: filter_empty_conv)
  then have "1 \<le> fst (started_sibling_count s ?g tb')" for tb'
    by (auto simp: started_sibling_count_def Let_def Suc_le_eq simp flip: length_greater_0_conv)
  then have hold: "tb_should_defer_waiting_request c s r tb' = Inr (True, group_touched ?g tb')"
    if "group_finished tb' ?g = []" for c tb'
    using that st r(2) pressure
    by (simp add: tb_should_defer_waiting_request_def Let_def should_defer_for_virtual_reservation_def
        should_defer_for_ttft_guard_def split: prod.split) (metis fst_conv not_le snd_conv started_sibling_count_state group_touched_finished)
  have "group_touched ?g (group_touched ?g tb) = group_touched ?g tb"
    by (auto simp: group_touched_def split: option.split)
  then show ?thesis using hold [of tb clock] hold [of "group_touched ?g tb" clock'] none(2) by auto
qed

theorem preempted_pilot_waits_for_itself_witness:
  "\<exists>k r tb'. example_manager = Inr k \<and> r = (example_branch 0 ''a'' 3)\<lparr>num_preemptions := 1\<rparr> \<and>
     tb_should_defer_waiting_request (\<lambda>_. 0) (example_tail 0 k [] [r]) r init_tail_blend = Inr (True, tb')"
proof -
  obtain k where k: "example_manager = Inr k" by (rule example_manager_state) blast
  define r where "r = (example_branch 0 ''a'' 3)\<lparr>num_preemptions := 1\<rparr>"
  have "external_req_id r = Some ''parent''" "0 < num_preemptions r" by (simp_all add: r_def)
  moreover have "under_admission_pressure (example_tail 0 k [] [r])" by (simp add: under_admission_pressure_def)
  ultimately show ?thesis
    using preempted_pilot_waits_for_itself [of "example_tail 0 k [] [r]" r "''parent''" init_tail_blend "\<lambda>_. 0" "\<lambda>_. 0"] k r_def
    by auto
qed

section \<open>The preemption victim\<close>

lemma prediction_groups:
  assumes "tb_groups tb' = tb_groups tb"
  shows "group_finished tb' = group_finished tb" and "predict_remaining_tokens tb' = predict_remaining_tokens tb"
proof -
  show fin: "group_finished tb' = group_finished tb" by (simp add: group_finished_def assms fun_eq_iff)
  then have "sibling_lengths tb' = sibling_lengths tb" by (intro ext) (simp add: sibling_lengths_def split: option.split)
  then show "predict_remaining_tokens tb' = predict_remaining_tokens tb" by (simp add: predict_remaining_tokens_def fun_eq_iff)
qed

lemma victim_key_groups:
  assumes "tb_groups tb' = tb_groups tb"
  shows "preemption_victim_key s tb' = preemption_victim_key s tb"
proof -
  note same = prediction_groups [OF assms]
  have "parent_rescue_score s tb' = parent_rescue_score s tb" by (intro ext) (simp only: parent_rescue_score_def same)
  moreover have "predicted_future_blocks s tb' = predicted_future_blocks s tb" by (intro ext) (simp only: predicted_future_blocks_def same)
  then have "kv_freed_preemption_score s tb' = kv_freed_preemption_score s tb" by (intro ext) (simp only: kv_freed_preemption_score_def)
  moreover have "parent_slo_state_of s tb' = parent_slo_state_of s tb" by (intro ext) (simp only: parent_slo_state_of_def same assms)
  then have "slo_feasibility_preemption_score s tb' = slo_feasibility_preemption_score s tb"
    by (intro ext) (simp only: slo_feasibility_preemption_score_def)
  ultimately show ?thesis by (intro ext) (simp only: preemption_victim_key_def same)
qed

lemma parent_slo_state_total:
  assumes ok: "\<forall>q \<in> set (ts_running s @ queued s). 1 \<le> max_tokens q" and r: "r \<in> set (victim_candidates s)"
  shows "\<exists>st. parent_slo_state_of s tb (taper_plus_group_id r) now_s = Inr st"
proof -
  let ?member = "\<lambda>q. in_group (taper_plus_group_id r) q \<and> sampling_params q \<noteq> None"
  let ?all = "filter ?member (ts_running s) @ filter ?member (ts_waiting s) @ filter ?member (ts_skipped_waiting s)"
  have "r \<in> set ?all" using r by (auto simp: victim_candidates_def in_group_def)
  then have "max_tokens r \<le> greatest_or 1 (map max_tokens ?all)" by (auto simp: greatest_or_def simp del: map_append set_append)
  moreover have "1 \<le> max_tokens r" using ok r by (auto simp: victim_candidates_def)
  ultimately have "max 1 (int (length (group_finished tb (taper_plus_group_id r))) + int (length ?all)) * greatest_or 1 (map max_tokens ?all) \<noteq> 0"
    by simp
  then show ?thesis unfolding parent_slo_state_of_def Let_def case_prod_beta by (simp only: if_False) blast
qed

lemma victim_key_total:
  assumes "\<forall>q \<in> set (ts_running s @ queued s). 1 \<le> max_tokens q" and "r \<in> set (victim_candidates s)"
  shows "\<exists>score tie. preemption_victim_key s tb cur now_s m r = Inr (score, tie, arrival_time r, request_id r)"
proof -
  obtain st where "parent_slo_state_of s tb (taper_plus_group_id r) now_s = Inr st" using parent_slo_state_total [OF assms] by blast
  then show ?thesis by (cases m) (simp_all add: preemption_victim_key_def Let_def slo_feasibility_preemption_score_def)
qed

lemma max_by_best:
  fixes key :: "'a \<Rightarrow> 'k::linorder res"
  assumes ne: "xs \<noteq> []" and total: "\<And>x. x \<in> set xs \<Longrightarrow> \<exists>k. key x = Inr k \<and> name k = label x"
  shows "\<exists>y \<in> set xs. max_by key xs = Inr y \<and>
    (\<exists>ky. key y = Inr ky \<and> (\<forall>x \<in> set xs. \<exists>kx. key x = Inr kx \<and> kx \<le> ky \<and> (kx = ky \<longrightarrow> label x = label y)))"
proof -
  define k where "k x = projr (key x)" for x
  have k: "key x = Inr (k x)" "name (k x) = label x" if "x \<in> set xs" for x
    using total [OF that] by (auto simp: k_def)
  from largest.select_best [where key = key and k = k, OF ne k(1)]
  obtain y where y: "y \<in> set xs" "max_by key xs = Inr y" "\<forall>x \<in> set xs. k x \<le> k y"
    by (auto simp: max_by_def not_less)
  have "\<exists>kx. key x = Inr kx \<and> kx \<le> k y \<and> (kx = k y \<longrightarrow> label x = label y)" if x: "x \<in> set xs" for x
    using k [OF x] k(2) [OF y(1)] y(3) x by (intro exI [of _ "k x"]) auto
  with y(1,2) k(1) [OF y(1)] show ?thesis by blast
qed

lemma best_victim:
  assumes "\<forall>q \<in> set (ts_running s @ queued s). 1 \<le> max_tokens q" and "victim_candidates s \<noteq> []"
  shows "\<exists>v \<in> set (victim_candidates s). max_by (preemption_victim_key s tb cur now_s m) (victim_candidates s) = Inr v \<and>
    (\<exists>kv. preemption_victim_key s tb cur now_s m v = Inr kv \<and>
      (\<forall>r \<in> set (victim_candidates s). \<exists>kr. preemption_victim_key s tb cur now_s m r = Inr kr \<and> kr \<le> kv \<and>
         (kr = kv \<longrightarrow> request_id r = request_id v)))"
proof (rule max_by_best [where name = "\<lambda>k. snd (snd (snd k))", OF assms(2)])
  fix r
  assume "r \<in> set (victim_candidates s)"
  from victim_key_total [OF assms(1) this, of tb cur now_s m]
  show "\<exists>k. preemption_victim_key s tb cur now_s m r = Inr k \<and> snd (snd (snd k)) = request_id r" by fastforce
qed

lemma count_choice_groups [simp]: "tb_groups (count_choice key tb) = tb_groups tb"
  by (simp add: count_choice_def)

lemma adaptive_mode_total:
  assumes "\<forall>q \<in> set (ts_running s @ queued s). 1 \<le> max_tokens q" and "victim_candidates s \<noteq> []"
  shows "\<exists>chosen tb'. select_adaptive_preemption_mode clock s cur (victim_candidates s) tb = Inr (chosen, tb') \<and>
    tb_groups tb' = tb_groups tb \<and> chosen \<in> {None, Some PrefillAware, Some Full}"
proof -
  define tb1 where "tb1 = tb\<lparr>last_adaptive_pressure_state := Some (adaptive_pressure_state_of s tb cur (victim_candidates s))\<rparr>"
  obtain v where "max_by (preemption_victim_key s tb1 cur (clock 1) Full) (victim_candidates s) = Inr v"
    using best_victim [OF assms, of tb1 cur "clock 1" Full] by blast
  then have "\<exists>w. full_candidate_has_high_prefix_waste s tb1 (clock 1) cur (victim_candidates s) = Inr w"
    by (simp add: full_candidate_has_high_prefix_waste_def)
  then show ?thesis unfolding select_adaptive_preemption_mode_def Let_def tb1_def [symmetric] by (auto simp: tb1_def)
qed

text \<open>
  C24. The preemption victim is a best one. If every branch may produce at least one token, choosing a victim raises
  nothing in any mode and leaves the record of finished branches alone. A victim is a running best-of-N branch whose
  key is the largest among all of them in the mode in force, and no branch with another id has the same key, so the
  order of the running list does not matter. Outside the adaptive and the gated mode a victim is chosen whenever there
  is a running best-of-N branch; with the policy switched off there is none.
\<close>

theorem preemption_victim_is_best:
  assumes "\<forall>q \<in> set (ts_running s @ queued s). 1 \<le> max_tokens q"
  shows "\<exists>res tb'. select_preemption_victim clock s cur tb = Inr (res, tb') \<and> tb_groups tb' = tb_groups tb \<and>
    (\<forall>v. res = Some v \<longrightarrow> v \<in> set (victim_candidates s) \<and>
       (\<exists>m kv. (if tail_blend_preemption_mode (ts_taper s) = Adaptive then m \<in> {PrefillAware, Full}
                else m = tail_blend_preemption_mode (ts_taper s)) \<and>
          preemption_victim_key s tb cur (clock 0) m v = Inr kv \<and>
          (\<forall>r \<in> set (victim_candidates s). \<exists>kr. preemption_victim_key s tb cur (clock 0) m r = Inr kr \<and> kr \<le> kv \<and>
             (kr = kv \<longrightarrow> request_id r = request_id v)))) \<and>
    (res \<noteq> None \<longrightarrow> enable_taper_plus (ts_taper s) \<and> taper_plus_policy (ts_taper s) = PTailBlend \<and> tail_blend_preemption (ts_taper s)) \<and>
    (enable_taper_plus (ts_taper s) \<longrightarrow> taper_plus_policy (ts_taper s) = PTailBlend \<longrightarrow> tail_blend_preemption (ts_taper s) \<longrightarrow>
     tail_blend_preemption_mode (ts_taper s) \<notin> {Adaptive, PrefillAwareGated} \<longrightarrow> victim_candidates s \<noteq> [] \<longrightarrow> res \<noteq> None)"
proof (cases "enable_taper_plus (ts_taper s) \<and> taper_plus_policy (ts_taper s) = PTailBlend \<and> tail_blend_preemption (ts_taper s) \<and>
    victim_candidates s \<noteq> []")
  case False
  then have "select_preemption_victim clock s cur tb = Inr (None, tb)" by (auto simp: select_preemption_victim_def Let_def)
  then show ?thesis using False by (intro exI [of _ None] exI [of _ tb]) auto
next
  case True
  let ?mode = "tail_blend_preemption_mode (ts_taper s)"
  obtain eff tb' where eff: "(if ?mode = Adaptive
        then bindE (select_adaptive_preemption_mode clock s cur (victim_candidates s) tb) (\<lambda>(chosen, tb1).
               Inr (chosen, count_choice (choice_name chosen) tb1)) else Inr (Some ?mode, tb)) = Inr (eff, tb')"
      "tb_groups tb' = tb_groups tb" "if ?mode = Adaptive then eff \<in> {None, Some PrefillAware, Some Full} else eff = Some ?mode"
    using adaptive_mode_total [OF assms, of clock cur tb] True by (cases "?mode = Adaptive") auto
  note key = victim_key_groups [OF eff(2)]
  have run: "select_preemption_victim clock s cur tb = (case eff of None \<Rightarrow> Inr (None, tb')
      | Some m \<Rightarrow> if ?mode = PrefillAwareGated \<and> \<not> should_use_prefill_aware_preemption s cur then Inr (None, tb')
          else bindE (max_by (preemption_victim_key s tb cur (clock 0) m) (victim_candidates s)) (\<lambda>v. Inr (Some v, tb')))"
    using True unfolding select_preemption_victim_def Let_def eff(1) by (cases eff) (simp_all add: key)
  show ?thesis
  proof (cases "eff = None \<or> ?mode = PrefillAwareGated \<and> \<not> should_use_prefill_aware_preemption s cur")
    case none: True
    then have "select_preemption_victim clock s cur tb = Inr (None, tb')" using run by (auto split: option.split)
    then show ?thesis using none eff(2,3) by (intro exI [of _ None] exI [of _ tb']) (auto split: if_splits)
  next
    case False
    then obtain m where m: "eff = Some m" by auto
    from best_victim [OF assms, of tb cur "clock 0" m] True obtain v where v: "v \<in> set (victim_candidates s)"
        "max_by (preemption_victim_key s tb cur (clock 0) m) (victim_candidates s) = Inr v"
        "\<exists>kv. preemption_victim_key s tb cur (clock 0) m v = Inr kv \<and> (\<forall>r \<in> set (victim_candidates s).
           \<exists>kr. preemption_victim_key s tb cur (clock 0) m r = Inr kr \<and> kr \<le> kv \<and> (kr = kv \<longrightarrow> request_id r = request_id v))"
      by blast
    have res: "select_preemption_victim clock s cur tb = Inr (Some v, tb')" using run False m v(2) by simp
    have "if ?mode = Adaptive then m \<in> {PrefillAware, Full} else m = ?mode" using eff(3) m by auto
    with v(1,3) res True eff(2) show ?thesis by (intro exI [of _ "Some v"] exI [of _ tb']) blast
  qed
qed

theorem preemption_victim_is_best_witness:
  "\<exists>k v tb'. example_manager = Inr k \<and>
     select_preemption_victim (\<lambda>_. 0) (example_tail 0 k [example_branch 0 ''a'' 3, example_branch 1 ''b'' 5] []) (example_branch 0 ''a'' 3)
       init_tail_blend = Inr (Some v, tb') \<and> v \<in> {example_branch 0 ''a'' 3, example_branch 1 ''b'' 5}"
proof -
  obtain k where k: "example_manager = Inr k" by (rule example_manager_state) blast
  let ?s = "example_tail 0 k [example_branch 0 ''a'' 3, example_branch 1 ''b'' 5] []"
  have cands: "victim_candidates ?s = [example_branch 0 ''a'' 3, example_branch 1 ''b'' 5]" by (simp add: victim_candidates_def)
  have ok: "\<forall>q \<in> set (ts_running ?s @ queued ?s). 1 \<le> max_tokens q" by simp
  obtain res tb' where res: "select_preemption_victim (\<lambda>_. 0) ?s (example_branch 0 ''a'' 3) init_tail_blend = Inr (res, tb')"
      "\<forall>v. res = Some v \<longrightarrow> v \<in> set (victim_candidates ?s)" "res \<noteq> None"
    using preemption_victim_is_best [OF ok, of "\<lambda>_. 0" "example_branch 0 ''a'' 3" init_tail_blend] cands by auto
  then obtain v where "res = Some v" by blast
  with res k cands show ?thesis by auto
qed

end
