(* ===== verification/Sched_Utils.thy ===== *)
theory Sched_Utils
  imports Request_Model "HOL-Library.Sublist"
begin

text \<open>
  \<^verbatim>\<open>vllm/v1/core/sched/utils.py\<close>: repetition detection at the tail of the output, removal of a set
  of items from a list, and the stop conditions of a request.

  A Python set is given as the list of its elements. Shown: the repetition test never indexes out
  of range and finds exactly the outputs that end in \<open>min_count\<close> copies of a pattern of an allowed
  length; both paths of \<^verbatim>\<open>remove_all\<close> agree on lists without duplicates; \<^verbatim>\<open>check_stop\<close> reports each
  stop condition in its order, and leaves the request alone when none holds.
\<close>

section \<open>Definitions\<close>

definition has_repeating_pattern :: "int list \<Rightarrow> int \<Rightarrow> int \<Rightarrow> bool res" where
  "has_repeating_pattern token_ids pattern_len repetition_min_count =
     all_res (\<lambda>n. bindE (py_get token_ids (- n)) (\<lambda>target_token.
       all_res (\<lambda>m. bindE (py_get token_ids (- (pattern_len * m + n))) (\<lambda>t. Inr (t = target_token)))
         [1..repetition_min_count - 1])) [1..pattern_len]"

fun repetition_loop :: "int list \<Rightarrow> int \<Rightarrow> int list \<Rightarrow> bool res" where
  "repetition_loop token_ids cnt [] = Inr False"
| "repetition_loop token_ids cnt (pattern_len # rest) =
     (if int (length token_ids) < pattern_len * cnt then Inr False
      else bindE (has_repeating_pattern token_ids pattern_len cnt)
        (\<lambda>b. if b then Inr True else repetition_loop token_ids cnt rest))"

definition check_sequence_repetition :: "int list \<Rightarrow> repetition_detection_params \<Rightarrow> bool res" where
  "check_sequence_repetition token_ids params =
     (let min_size = (if min_pattern_size params \<le> 0 then 1 else min_pattern_size params)
      in if max_pattern_size params \<le> 0 \<or> min_count params < 2 \<or> max_pattern_size params < min_size
         then Inr False
         else repetition_loop token_ids (min_count params) [min_size..max_pattern_size params])"

text \<open>\<^verbatim>\<open>list.remove\<close> with its \<^verbatim>\<open>ValueError\<close> suppressed is \<open>remove1\<close>.\<close>

definition remove_all :: "'a list \<Rightarrow> 'a list \<Rightarrow> 'a list" where
  "remove_all lst items_to_remove =
     (if length items_to_remove = 0 then lst
      else if length items_to_remove = 1 then remove1 (hd items_to_remove) lst
      else filter (\<lambda>item. item \<notin> set items_to_remove) lst)"

definition check_stop :: "request \<Rightarrow> int \<Rightarrow> (bool \<times> request) res" where
  "check_stop r max_model_len =
     assertE (pooling_params r = None)
       (case sampling_params r of
          None \<Rightarrow> Inl AssertionError
        | Some sp \<Rightarrow>
            if num_output_tokens r < min_tokens sp then Inr (False, r)
            else bindE (py_get (output_token_ids r) (- 1)) (\<lambda>last_token_id.
              if eos_token_id sp = Some last_token_id
              then Inr (True, r\<lparr>status := FINISHED_STOPPED\<rparr>)
              else if last_token_id \<in> set (case stop_token_ids sp of None \<Rightarrow> [] | Some ts \<Rightarrow> ts)
              then Inr (True, r\<lparr>status := FINISHED_STOPPED, stop_reason := Some (StopToken last_token_id)\<rparr>)
              else if max_model_len \<le> num_tokens r \<or> max_tokens r \<le> num_output_tokens r
              then Inr (True, r\<lparr>status := FINISHED_LENGTH_CAPPED\<rparr>)
              else
                (case repetition_detection sp of
                   None \<Rightarrow> Inr (False, r)
                 | Some params \<Rightarrow>
                     bindE (check_sequence_repetition (output_token_ids r) params) (\<lambda>b.
                       if b then Inr (True, r\<lparr>status := FINISHED_REPETITION,
                                              stop_reason := Some (StopString ''repetition_detected'')\<rparr>)
                       else Inr (False, r)))))"

section \<open>Repetition\<close>

text \<open>The specification: the output ends in \<open>cnt\<close> copies of some word of length \<open>k\<close>.\<close>

definition ends_in_copies :: "'a list \<Rightarrow> nat \<Rightarrow> nat \<Rightarrow> bool" where
  "ends_in_copies ts k cnt \<longleftrightarrow> (\<exists>w. length w = k \<and> suffix (concat (replicate cnt w)) ts)"

lemma length_concat_replicate: "length (concat (replicate c w)) = c * length w"
  by (induction c) auto

lemma nth_concat_replicate:
  "i < c * length w \<Longrightarrow> concat (replicate c w) ! i = w ! (i mod length w)"
proof (induction c arbitrary: i)
  case (Suc c)
  show ?case
  proof (cases "i < length w")
    case False
    then have "i - length w < c * length w" using Suc.prems by simp
    with Suc.IH [of "i - length w"] False show ?thesis
      by (simp add: nth_append le_mod_geq)
  qed (simp add: nth_append)
qed simp

lemma take_copies_iff:
  assumes "c * k \<le> length ys" "0 < k" "0 < c"
  shows "take (c * k) ys = concat (replicate c (take k ys)) \<longleftrightarrow> (\<forall>i < c * k. ys ! i = ys ! (i mod k))"
proof -
  have "k \<le> c * k" using assms(3) by (cases c) simp_all
  with assms(1) have "k \<le> length ys" by linarith
  then have len: "length (take k ys) = k" by simp
  have r: "concat (replicate c (take k ys)) ! i = ys ! (i mod k)" if "i < c * k" for i
    using that nth_concat_replicate [of i c "take k ys"] len assms(2) by simp
  show ?thesis
    using assms(1) len r by (auto simp: list_eq_iff_nth_eq length_concat_replicate)
qed

lemma concat_replicate_snoc: "concat (replicate c w) @ w = w @ concat (replicate c w)"
  by (induction c) simp_all

lemma rev_concat_replicate: "rev (concat (replicate c w)) = concat (replicate c (rev w))"
  by (induction c) (simp_all add: concat_replicate_snoc)

lemma ends_in_copies_rev:
  assumes "c * k \<le> length ts" "0 < k" "0 < c"
  shows "ends_in_copies ts k c \<longleftrightarrow> (\<forall>i < c * k. rev ts ! i = rev ts ! (i mod k))"
proof -
  have "ends_in_copies ts k c \<longleftrightarrow> take (c * k) (rev ts) = concat (replicate c (take k (rev ts)))"
  proof
    assume "ends_in_copies ts k c"
    then obtain w us where w: "length w = k" "ts = us @ concat (replicate c w)"
      by (auto simp: ends_in_copies_def suffix_def)
    have r: "rev ts = concat (replicate c (rev w)) @ rev us" by (simp add: w(2) rev_concat_replicate)
    obtain c' where "c = Suc c'" using assms(3) by (cases c) auto
    with r w(1) have "take k (rev ts) = rev w" by simp
    with r w(1) show "take (c * k) (rev ts) = concat (replicate c (take k (rev ts)))"
      by (simp add: length_concat_replicate)
  next
    assume eq: "take (c * k) (rev ts) = concat (replicate c (take k (rev ts)))"
    define w where "w = rev (take k (rev ts))"
    have "k \<le> c * k" using assms(3) by (cases c) simp_all
    with assms(1) have "k \<le> length ts" by linarith
    then have "length w = k" by (simp add: w_def)
    moreover have "rev ts = concat (replicate c (rev w)) @ drop (c * k) (rev ts)"
      using eq append_take_drop_id [of "c * k" "rev ts"] by (simp add: w_def)
    then have "ts = rev (drop (c * k) (rev ts)) @ concat (replicate c w)"
      by (metis rev_append rev_concat_replicate rev_rev_ident)
    ultimately show "ends_in_copies ts k c" unfolding ends_in_copies_def suffix_def by blast
  qed
  with take_copies_iff [of c k "rev ts"] assms show ?thesis by simp
qed

lemma py_get_from_end:
  assumes "1 \<le> n" "n \<le> int (length ts)"
  shows "py_get ts (- n) = Inr (rev ts ! nat (n - 1))"
proof -
  have "py_get ts (- n) = Inr (ts ! (length ts - nat n))"
    using assms by (simp add: py_get_def py_position_def)
  moreover have "rev ts ! nat (n - 1) = ts ! (length ts - nat n)"
    using assms by (subst rev_nth) (auto intro!: arg_cong [where f = "(!) ts"])
  ultimately show ?thesis by simp
qed

text \<open>The pairs of positions the two loops compare are those \<open>k\<close> apart in the reversed list.\<close>

lemma compared_positions:
  fixes k c :: int
  assumes k: "1 \<le> k" and c: "1 \<le> c"
  shows "(\<forall>n \<in> set [1..k]. \<forall>m \<in> set [1..c - 1]. f (nat (k * m + n - 1)) = f (nat (n - 1))) \<longleftrightarrow>
         (\<forall>i < nat c * nat k. f i = f (i mod nat k))"
proof (intro iffI allI ballI impI)
  fix i
  assume eq: "\<forall>n \<in> set [1..k]. \<forall>m \<in> set [1..c - 1]. f (nat (k * m + n - 1)) = f (nat (n - 1))"
    and i: "i < nat c * nat k"
  define m n where "m = int (i div nat k)" and "n = int (i mod nat k) + 1"
  have kpos: "0 < nat k" using k by simp
  then have "i mod nat k < nat k" by simp
  then have n: "n \<in> set [1..k]" by (simp add: n_def)
  have "i div nat k < nat c" using i by (rule less_mult_imp_div_less)
  then have "m = 0 \<or> m \<in> set [1..c - 1]" by (auto simp: m_def)
  then have "f (nat (k * m + n - 1)) = f (nat (n - 1))" using eq n by auto
  moreover have "k * m + (n - 1) = int (nat k * (i div nat k) + i mod nat k)"
    using k by (simp only: of_nat_add of_nat_mult m_def n_def) simp
  then have "k * m + n - 1 = int i" by (simp only: mult_div_mod_eq)
  ultimately show "f i = f (i mod nat k)" by (simp add: n_def)
next
  fix n m
  assume eq: "\<forall>i < nat c * nat k. f i = f (i mod nat k)"
    and n: "n \<in> set [1..k]" and m: "m \<in> set [1..c - 1]"
  have "k * m + n - 1 = int (nat k * nat m + nat (n - 1))" using n m k by simp
  then have ii: "nat (k * m + n - 1) = nat k * nat m + nat (n - 1)" by (simp only: nat_int)
  have "Suc (nat m) * nat k \<le> nat c * nat k" using m by (intro mult_le_mono1) auto
  moreover have small: "nat (n - 1) < nat k" using n by auto
  have "x < b \<Longrightarrow> b * a + x < Suc a * b" for a b x :: nat by (simp add: mult.commute)
  from this [OF small, of "nat m"] have "nat k * nat m + nat (n - 1) < Suc (nat m) * nat k" .
  ultimately have "nat k * nat m + nat (n - 1) < nat c * nat k" by linarith
  moreover have "(nat k * nat m + nat (n - 1)) mod nat k = nat (n - 1)"
    using \<open>nat (n - 1) < nat k\<close> by simp
  ultimately show "f (nat (k * m + n - 1)) = f (nat (n - 1))" using eq unfolding ii by metis
qed

lemma has_repeating_pattern_iff:
  assumes k: "1 \<le> k" and c: "1 \<le> c" and len: "k * c \<le> int (length ts)"
  shows "has_repeating_pattern ts k c = Inr (ends_in_copies ts (nat k) (nat c))"
proof -
  define R where "R i = rev ts ! i" for i
  have get: "py_get ts (- (k * m + n)) = Inr (R (nat (k * m + n - 1)))"
    if "n \<in> set [1..k]" "0 \<le> m" "m \<le> c - 1" for n m
  proof -
    have "k * m \<le> k * (c - 1)" "0 \<le> k * m" using that k by (simp_all add: mult_left_mono)
    moreover have "k * (c - 1) = k * c - k" by (simp add: algebra_simps)
    ultimately have "k * m + n \<le> int (length ts)" "1 \<le> k * m + n" using that(1) len by auto
    then show ?thesis using py_get_from_end [of "k * m + n" ts] by (simp add: R_def)
  qed
  have "has_repeating_pattern ts k c =
      Inr (\<forall>n \<in> set [1..k]. \<forall>m \<in> set [1..c - 1]. R (nat (k * m + n - 1)) = R (nat (n - 1)))"
    unfolding has_repeating_pattern_def
  proof (rule all_res_total)
    fix n assume n: "n \<in> set [1..k]"
    have "all_res (\<lambda>m. bindE (py_get ts (- (k * m + n))) (\<lambda>t. Inr (t = R (nat (n - 1))))) [1..c - 1] =
        Inr (\<forall>m \<in> set [1..c - 1]. R (nat (k * m + n - 1)) = R (nat (n - 1)))"
      by (rule all_res_total) (use get [OF n] in auto)
    with get [OF n, of 0] c show "bindE (py_get ts (- n)) (\<lambda>target.
        all_res (\<lambda>m. bindE (py_get ts (- (k * m + n))) (\<lambda>t. Inr (t = target))) [1..c - 1]) =
        Inr (\<forall>m \<in> set [1..c - 1]. R (nat (k * m + n - 1)) = R (nat (n - 1)))" by simp
  qed
  moreover have "nat c * nat k \<le> length ts"
    using len k c by (simp add: nat_mult_distrib [symmetric] mult.commute nat_le_iff)
  ultimately show ?thesis
    using ends_in_copies_rev [of "nat c" "nat k" ts] k c
    unfolding compared_positions [OF k c] by (simp add: R_def)
qed

lemma repetition_loop_iff:
  assumes "1 \<le> c" "1 \<le> lo"
  shows "repetition_loop ts c [lo..hi] =
           Inr (\<exists>k. lo \<le> k \<and> k \<le> hi \<and> k * c \<le> int (length ts) \<and> ends_in_copies ts (nat k) (nat c))"
  using assms(2)
proof (induction "nat (hi + 1 - lo)" arbitrary: lo)
  case 0
  then show ?case by simp
next
  case (Suc d)
  then have "lo \<le> hi" by linarith
  then have range: "[lo..hi] = lo # [lo + 1..hi]" by (rule upto_rec1)
  show ?case
  proof (cases "int (length ts) < lo * c")
    case True
    have "\<not> k * c \<le> int (length ts)" if "lo \<le> k" for k
      using mult_right_mono [OF that, of c] assms(1) True by linarith
    with True show ?thesis by (auto simp: range)
  next
    case False
    have rest: "repetition_loop ts c [lo + 1..hi] = Inr (\<exists>k. lo + 1 \<le> k \<and> k \<le> hi \<and>
        k * c \<le> int (length ts) \<and> ends_in_copies ts (nat k) (nat c))"
      using Suc.hyps(1) [of "lo + 1"] Suc.hyps(2) Suc.prems by simp
    have split: "(\<exists>k. lo \<le> k \<and> P k) \<longleftrightarrow> P lo \<or> (\<exists>k. lo + 1 \<le> k \<and> P k)" for P :: "int \<Rightarrow> bool"
      by (metis add1_zle_eq order_le_less order_refl)
    have "has_repeating_pattern ts lo c = Inr (ends_in_copies ts (nat lo) (nat c))"
      using False by (intro has_repeating_pattern_iff [OF Suc.prems assms(1)]) simp
    then show ?thesis
      unfolding range repetition_loop.simps if_not_P [OF False] rest split
      using False \<open>lo \<le> hi\<close> by (cases "ends_in_copies ts (nat lo) (nat c)") simp_all
  qed
qed

lemma ends_in_copies_length: "ends_in_copies ts k c \<Longrightarrow> c * k \<le> length ts"
  using length_concat_replicate suffix_length_le unfolding ends_in_copies_def by metis

lemma check_sequence_repetition_iff:
  "check_sequence_repetition ts params =
     Inr (2 \<le> min_count params \<and>
          (\<exists>k. max 1 (min_pattern_size params) \<le> k \<and> k \<le> max_pattern_size params \<and>
               ends_in_copies ts (nat k) (nat (min_count params))))"
proof -
  define lo c where "lo = max 1 (min_pattern_size params)" and "c = min_count params"
  have lo: "(if min_pattern_size params \<le> 0 then 1 else min_pattern_size params) = lo"
    by (simp add: lo_def max_def)
  show ?thesis
  proof (cases "max_pattern_size params \<le> 0 \<or> c < 2 \<or> max_pattern_size params < lo")
    case True
    then show ?thesis by (auto simp: check_sequence_repetition_def Let_def lo c_def [symmetric] lo_def)
  next
    case False
    have "k * c \<le> int (length ts)" if "lo \<le> k" "ends_in_copies ts (nat k) (nat c)" for k
    proof -
      have "k * c = int (nat c * nat k)" using that(1) False by (simp add: lo_def mult.commute)
      also have "\<dots> \<le> int (length ts)" using ends_in_copies_length [OF that(2)] by (simp only: of_nat_le_iff)
      finally show ?thesis .
    qed
    then have "(\<exists>k. lo \<le> k \<and> k \<le> max_pattern_size params \<and> k * c \<le> int (length ts) \<and>
        ends_in_copies ts (nat k) (nat c)) \<longleftrightarrow>
        (\<exists>k. lo \<le> k \<and> k \<le> max_pattern_size params \<and> ends_in_copies ts (nat k) (nat c))"
      by blast
    moreover have "1 \<le> c" "1 \<le> lo" using False by (simp_all add: lo_def)
    ultimately have "repetition_loop ts c [lo..max_pattern_size params] =
        Inr (\<exists>k. lo \<le> k \<and> k \<le> max_pattern_size params \<and> ends_in_copies ts (nat k) (nat c))"
      by (simp only: repetition_loop_iff)
    then show ?thesis
      unfolding check_sequence_repetition_def Let_def lo c_def [symmetric] lo_def [symmetric] if_not_P [OF False]
      using False by simp
  qed
qed

section \<open>Properties\<close>

text \<open>
  C31. The repetition test never raises and answers yes exactly when the output ends in
  \<open>min_count\<close> (at least two) copies of a word whose length lies between the configured bounds.
\<close>

theorem check_sequence_repetition_correct:
  "check_sequence_repetition ts params =
     Inr (2 \<le> min_count params \<and>
          (\<exists>k. max 1 (min_pattern_size params) \<le> k \<and> k \<le> max_pattern_size params \<and>
               ends_in_copies ts (nat k) (nat (min_count params))))"
  by (rule check_sequence_repetition_iff)

text \<open>
  The fast path of \<^verbatim>\<open>remove_all\<close> for one item agrees with the general one: on a list without
  duplicates the result is the list without the given items, in order.
\<close>

lemma remove_all_is_filter:
  assumes "distinct lst"
  shows "remove_all lst items = filter (\<lambda>x. x \<notin> set items) lst"
proof -
  consider "items = []" | y where "items = [y]" | "2 \<le> length items"
    by (cases items; cases "tl items") auto
  then show ?thesis
    using assms by cases (auto simp: remove_all_def distinct_remove1_removeAll removeAll_filter_not_eq
        intro!: filter_cong)
qed

definition repeats_too_much :: "request \<Rightarrow> sampling_params \<Rightarrow> bool" where
  "repeats_too_much r sp \<longleftrightarrow>
     (case repetition_detection sp of
        None \<Rightarrow> False
      | Some q \<Rightarrow> 2 \<le> min_count q \<and>
          (\<exists>k. max 1 (min_pattern_size q) \<le> k \<and> k \<le> max_pattern_size q \<and>
               ends_in_copies (output_token_ids r) (nat k) (nat (min_count q))))"

text \<open>
  C32. The stop check of a generating request with at least one output token cannot raise. It
  stops exactly when the minimum length is reached and the last token is the end token or a stop
  token, or a length limit is reached, or the output repeats; it then finishes the request with the
  reason of the first of these that holds. Otherwise the request is unchanged.
\<close>

theorem check_stop_correct:
  assumes "pooling_params r = None" and "sampling_params r = Some sp" and "output_token_ids r \<noteq> []"
  shows "case check_stop r max_model_len of Inl _ \<Rightarrow> False | Inr (b, r') \<Rightarrow>
    (let t = last (output_token_ids r);
         stops = (eos_token_id sp = Some t \<or> t \<in> set (case stop_token_ids sp of None \<Rightarrow> [] | Some ts \<Rightarrow> ts));
         full = (max_model_len \<le> num_tokens r \<or> max_tokens r \<le> num_output_tokens r)
     in (b \<longleftrightarrow> min_tokens sp \<le> num_output_tokens r \<and> (stops \<or> full \<or> repeats_too_much r sp)) \<and>
        (b \<longrightarrow> is_finished r' \<and>
           get_finished_reason r' = Some (if stops then FR_STOP else if full then FR_LENGTH else FR_REPETITION)) \<and>
        (\<not> b \<longrightarrow> r' = r) \<and>
        r'\<lparr>status := status r, stop_reason := stop_reason r\<rparr> = r)"
proof -
  define t eos stop full rep where "t = last (output_token_ids r)" and "eos \<longleftrightarrow> eos_token_id sp = Some t"
    and "stop \<longleftrightarrow> t \<in> set (case stop_token_ids sp of None \<Rightarrow> [] | Some ts \<Rightarrow> ts)"
    and "full \<longleftrightarrow> max_model_len \<le> num_tokens r \<or> max_tokens r \<le> num_output_tokens r"
    and "rep \<longleftrightarrow> repeats_too_much r sp"
  have get: "py_get (output_token_ids r) (- 1) = Inr t"
    unfolding t_def using assms(3) by (rule py_get_last)
  have none: "\<not> rep" if "repetition_detection sp = None"
    using that by (simp add: rep_def repeats_too_much_def)
  have some: "check_sequence_repetition (output_token_ids r) q = Inr rep"
    if "repetition_detection sp = Some q" for q
    unfolding rep_def repeats_too_much_def that option.case by (rule check_sequence_repetition_iff)
  have tail: "(case repetition_detection sp of None \<Rightarrow> Inr (False, r)
      | Some params \<Rightarrow> bindE (check_sequence_repetition (output_token_ids r) params) (\<lambda>b.
          if b then Inr (True, y) else Inr (False, r))) = Inr (if rep then (True, y) else (False, r))" for y
    using none some by (cases "repetition_detection sp") simp_all
  have run: "check_stop r max_model_len =
      (if num_output_tokens r < min_tokens sp then Inr (False, r)
       else if eos then Inr (True, r\<lparr>status := FINISHED_STOPPED\<rparr>)
       else if stop then Inr (True, r\<lparr>status := FINISHED_STOPPED, stop_reason := Some (StopToken t)\<rparr>)
       else if full then Inr (True, r\<lparr>status := FINISHED_LENGTH_CAPPED\<rparr>)
       else Inr (if rep then (True, r\<lparr>status := FINISHED_REPETITION,
                   stop_reason := Some (StopString ''repetition_detected'')\<rparr>) else (False, r)))"
    unfolding check_stop_def assms(2) option.case get bindE_Inr tail
      eos_def [symmetric] stop_def [symmetric] full_def [symmetric]
    using assms(1) by simp
  show ?thesis
    unfolding run t_def [symmetric] Let_def eos_def [symmetric] stop_def [symmetric] full_def [symmetric] rep_def [symmetric]
    by (cases "num_output_tokens r < min_tokens sp"; cases eos; cases stop; cases full; cases rep)
      (simp_all add: is_finished_def get_finished_reason_def status_is_finished_def)
qed

theorem check_stop_correct_witness:
  "case check_stop
      ((plain_request 0 ''a'' [1])\<lparr>output_token_ids := [7], all_token_ids := [1, 7], sampling_params :=
        Some \<lparr>sp_max_tokens = Some 9, min_tokens = 0, eos_token_id = Some 7, stop_token_ids = None,
              all_stop_token_ids = {7}, structured_outputs = False, repetition_detection = None,
              sp_skip_reading_prefix_cache = None\<rparr>\<rparr>) 100 of Inl _ \<Rightarrow> False | Inr (b, r') \<Rightarrow> b \<and> is_finished r'"
  using check_stop_correct
    [of "(plain_request 0 ''a'' [1])\<lparr>output_token_ids := [7], all_token_ids := [1, 7], sampling_params :=
        Some \<lparr>sp_max_tokens = Some 9, min_tokens = 0, eos_token_id = Some 7, stop_token_ids = None,
              all_stop_token_ids = {7}, structured_outputs = False, repetition_detection = None,
              sp_skip_reading_prefix_cache = None\<rparr>\<rparr>"
        "\<lparr>sp_max_tokens = Some 9, min_tokens = 0, eos_token_id = Some 7, stop_token_ids = None,
              all_stop_token_ids = {7}, structured_outputs = False, repetition_detection = None,
              sp_skip_reading_prefix_cache = None\<rparr>" 100]
  by (simp add: Let_def num_output_tokens_def split: sum.splits prod.splits)

end
