(* ===== verification/Heapq.thy ===== *)
theory Heapq
  imports Vllm_Prelude
begin

text \<open>
  The part of Python's \<^verbatim>\<open>heapq\<close> module that \<^verbatim>\<open>PriorityRequestQueue\<close> calls, on a list with a
  comparison \<open>lt\<close> (the \<^verbatim>\<open>__lt__\<close> of the elements): \<^verbatim>\<open>_siftdown\<close>, \<^verbatim>\<open>_siftup\<close>, \<^verbatim>\<open>heapify\<close>,
  \<^verbatim>\<open>heappush\<close> and \<^verbatim>\<open>heappop\<close>, each with the loop, the moving hole and the final write it has.

  In the locale \<open>before_order\<close>, where \<open>lt\<close> is a strict weak order, each of them keeps the elements
  and establishes the heap condition, and \<^verbatim>\<open>heappop\<close> returns a least element.
\<close>

section \<open>Definitions\<close>

definition heap_parent :: "nat \<Rightarrow> nat" where
  "heap_parent i = (i - 1) div 2"

lemma heap_parent_less: "0 < i \<Longrightarrow> heap_parent i < i"
  by (simp add: heap_parent_def)

lemma heap_parent_le: "heap_parent i \<le> i"
  by (simp add: heap_parent_def)

lemma heap_parent_iff: "0 < i \<Longrightarrow> heap_parent i = p \<longleftrightarrow> i = 2 * p + 1 \<or> i = 2 * p + 2"
  by (auto simp: heap_parent_def)

function siftdown_loop ::
    "('a \<Rightarrow> 'a \<Rightarrow> bool) \<Rightarrow> nat \<Rightarrow> 'a \<Rightarrow> 'a list \<Rightarrow> nat \<Rightarrow> 'a list" where
  "siftdown_loop lt startpos newitem heap pos =
     (if startpos < pos \<and> lt newitem (heap ! heap_parent pos)
      then siftdown_loop lt startpos newitem (heap[pos := heap ! heap_parent pos]) (heap_parent pos)
      else heap[pos := newitem])"
  by pat_completeness auto
termination
  by (relation "measure (\<lambda>(lt, s, x, h, pos). pos)") (simp_all add: heap_parent_less)

definition siftdown :: "('a \<Rightarrow> 'a \<Rightarrow> bool) \<Rightarrow> 'a list \<Rightarrow> nat \<Rightarrow> nat \<Rightarrow> 'a list" where
  "siftdown lt heap startpos pos = siftdown_loop lt startpos (heap ! pos) heap pos"

definition smaller_child :: "('a \<Rightarrow> 'a \<Rightarrow> bool) \<Rightarrow> 'a list \<Rightarrow> nat \<Rightarrow> nat" where
  "smaller_child lt heap pos =
     (let childpos = 2 * pos + 1; rightpos = childpos + 1
      in if rightpos < length heap \<and> \<not> lt (heap ! childpos) (heap ! rightpos) then rightpos else childpos)"

lemma smaller_child_range:
  "2 * pos + 1 < length heap \<Longrightarrow> pos < smaller_child lt heap pos \<and> smaller_child lt heap pos < length heap"
  by (auto simp: smaller_child_def Let_def)

text \<open>The first loop of \<^verbatim>\<open>_siftup\<close> returns the list and the final position of the hole.\<close>

function siftup_loop :: "('a \<Rightarrow> 'a \<Rightarrow> bool) \<Rightarrow> 'a list \<Rightarrow> nat \<Rightarrow> 'a list \<times> nat" where
  "siftup_loop lt heap pos =
     (if 2 * pos + 1 < length heap
      then siftup_loop lt (heap[pos := heap ! smaller_child lt heap pos]) (smaller_child lt heap pos)
      else (heap, pos))"
  by pat_completeness auto
termination
proof (relation "measure (\<lambda>(lt, h, pos). length h - pos)")
  fix lt :: "'a \<Rightarrow> 'a \<Rightarrow> bool" and heap :: "'a list" and pos
  assume "2 * pos + 1 < length heap"
  from smaller_child_range [OF this, of lt]
  show "((lt, heap[pos := heap ! smaller_child lt heap pos], smaller_child lt heap pos), lt, heap, pos)
      \<in> measure (\<lambda>(lt, h, pos). length h - pos)"
    by (simp add: diff_less_mono2)
qed simp

definition siftup :: "('a \<Rightarrow> 'a \<Rightarrow> bool) \<Rightarrow> 'a list \<Rightarrow> nat \<Rightarrow> 'a list" where
  "siftup lt heap pos =
     (let (h, p) = siftup_loop lt heap pos in siftdown lt (h[p := heap ! pos]) pos p)"

definition heapify :: "('a \<Rightarrow> 'a \<Rightarrow> bool) \<Rightarrow> 'a list \<Rightarrow> 'a list" where
  "heapify lt x = fold (\<lambda>i h. siftup lt h i) (rev [0..<length x div 2]) x"

definition heappush :: "('a \<Rightarrow> 'a \<Rightarrow> bool) \<Rightarrow> 'a list \<Rightarrow> 'a \<Rightarrow> 'a list" where
  "heappush lt heap item = siftdown lt (heap @ [item]) 0 (length heap)"

definition heappop :: "('a \<Rightarrow> 'a \<Rightarrow> bool) \<Rightarrow> 'a list \<Rightarrow> ('a \<times> 'a list) res" where
  "heappop lt heap =
     (if heap = [] then Inl IndexError
      else let lastelt = last heap; rest = butlast heap
           in if rest \<noteq> [] then Inr (rest ! 0, siftup lt (rest[0 := lastelt]) 0)
              else Inr (lastelt, rest))"

declare siftdown_loop.simps [simp del] siftup_loop.simps [simp del]

section \<open>The elements are kept\<close>

lemma mset_swap:
  assumes "i < length xs" "j < length xs" "i \<noteq> j"
  shows "mset (xs[i := xs ! j, j := x]) = mset (xs[i := x])"
proof -
  have "mset (xs[i := xs ! j, j := x]) = add_mset x (mset (xs[i := xs ! j]) - {#xs ! j#})"
    using assms by (simp add: mset_update)
  also have "\<dots> = add_mset x (mset xs - {#xs ! i#})"
    using assms by (simp add: mset_update)
  also have "\<dots> = mset (xs[i := x])" using assms by (simp add: mset_update)
  finally show ?thesis .
qed

lemma siftdown_loop_elements:
  "pos < length heap \<Longrightarrow>
   length (siftdown_loop lt s x heap pos) = length heap \<and>
   mset (siftdown_loop lt s x heap pos) = mset (heap[pos := x])"
proof (induction lt s x heap pos rule: siftdown_loop.induct)
  case (1 lt s x heap pos)
  show ?case
  proof (cases "s < pos \<and> lt x (heap ! heap_parent pos)")
    case True
    then have "heap_parent pos < length heap" "pos \<noteq> heap_parent pos"
      using "1.prems" heap_parent_less [of pos] by auto
    with True "1.IH" [OF True] "1.prems" mset_swap [of pos heap "heap_parent pos" x] show ?thesis
      by (simp add: siftdown_loop.simps [of lt s x heap pos])
  qed (subst (1 2) siftdown_loop.simps, auto)
qed

lemma siftup_loop_elements:
  "pos < length heap \<Longrightarrow>
   (case siftup_loop lt heap pos of (h, p) \<Rightarrow>
      length h = length heap \<and> pos \<le> p \<and> p < length heap \<and> length heap \<le> 2 * p + 1 \<and>
      mset (h[p := x]) = mset (heap[pos := x]))"
proof (induction lt heap pos rule: siftup_loop.induct)
  case (1 lt heap pos)
  show ?case
  proof (cases "2 * pos + 1 < length heap")
    case True
    note c = smaller_child_range [OF True, of lt]
    with True "1.IH" [OF True] "1.prems" mset_swap [of pos heap "smaller_child lt heap pos" x]
    show ?thesis
      by (simp add: siftup_loop.simps [of lt heap pos] split: prod.splits)
  qed (use "1.prems" in \<open>simp add: siftup_loop.simps [of lt heap pos]\<close>)
qed

lemma siftdown_elements:
  "pos < length heap \<Longrightarrow> length (siftdown lt heap s pos) = length heap \<and>
   mset (siftdown lt heap s pos) = mset heap"
  using siftdown_loop_elements [of pos heap lt s "heap ! pos"] by (simp add: siftdown_def)

lemma siftup_elements:
  "pos < length heap \<Longrightarrow> length (siftup lt heap pos) = length heap \<and> mset (siftup lt heap pos) = mset heap"
proof -
  assume pos: "pos < length heap"
  obtain h p where hp: "siftup_loop lt heap pos = (h, p)" by fastforce
  from siftup_loop_elements [OF pos, of "heap ! pos" lt]
  have "length h = length heap" "p < length heap" "mset (h[p := heap ! pos]) = mset heap" by (simp_all add: hp)
  with siftdown_elements [of p "h[p := heap ! pos]" lt pos] show ?thesis by (simp add: siftup_def hp)
qed

section \<open>The heap condition\<close>

text \<open>
  \<open>heap_from lt s xs\<close>: no element at a position whose parent is \<open>s\<close> or later is before its parent.
  \<open>below s p\<close>: position \<open>p\<close> is in the subtree of position \<open>s\<close>.
\<close>

definition heap_from :: "('a \<Rightarrow> 'a \<Rightarrow> bool) \<Rightarrow> nat \<Rightarrow> 'a list \<Rightarrow> bool" where
  "heap_from lt s xs \<longleftrightarrow>
     (\<forall>i. 0 < i \<longrightarrow> i < length xs \<longrightarrow> s \<le> heap_parent i \<longrightarrow> \<not> lt (xs ! i) (xs ! heap_parent i))"

abbreviation is_heap :: "('a \<Rightarrow> 'a \<Rightarrow> bool) \<Rightarrow> 'a list \<Rightarrow> bool" where
  "is_heap lt xs \<equiv> heap_from lt 0 xs"

inductive below :: "nat \<Rightarrow> nat \<Rightarrow> bool" for s where
  below_self: "below s s"
| below_child: "below s p \<Longrightarrow> 0 < c \<Longrightarrow> heap_parent c = p \<Longrightarrow> below s c"

lemma below_le: "below s p \<Longrightarrow> s \<le> p"
  by (induction rule: below.induct) (use heap_parent_le order_trans in blast)+

lemma below_parent: "below s p \<Longrightarrow> s < p \<Longrightarrow> below s (heap_parent p)"
  by (cases rule: below.cases) auto

lemma below_zero: "below 0 p"
proof (induction p rule: less_induct)
  case (less p)
  then show ?case
    by (cases "p = 0") (auto intro: below_self below_child [of 0 "heap_parent p" p] heap_parent_less)
qed

text \<open>
  What holds while the hole is at \<open>pos\<close>: the heap condition away from the edges in \<open>skip\<close>, and the
  element above the hole is not after the elements below it.
\<close>

definition hole_ok :: "('a \<Rightarrow> 'a \<Rightarrow> bool) \<Rightarrow> nat \<Rightarrow> 'a list \<Rightarrow> nat \<Rightarrow> bool \<Rightarrow> bool" where
  "hole_ok lt s xs pos children \<longleftrightarrow> below s pos \<and> pos < length xs \<and>
     (\<forall>i. 0 < i \<longrightarrow> i < length xs \<longrightarrow> s \<le> heap_parent i \<longrightarrow> i \<noteq> pos \<longrightarrow>
        (children \<or> heap_parent i \<noteq> pos) \<longrightarrow> \<not> lt (xs ! i) (xs ! heap_parent i)) \<and>
     (s < pos \<longrightarrow> (\<forall>i. 0 < i \<longrightarrow> i < length xs \<longrightarrow> heap_parent i = pos \<longrightarrow>
        \<not> lt (xs ! i) (xs ! heap_parent pos)))"

locale before_order =
  fixes lt :: "'a \<Rightarrow> 'a \<Rightarrow> bool"
  assumes lt_asym: "lt a b \<Longrightarrow> \<not> lt b a"
    and not_lt_trans: "\<not> lt b a \<Longrightarrow> \<not> lt c b \<Longrightarrow> \<not> lt c a"
begin

lemma not_lt_self: "\<not> lt a a"
  using lt_asym by blast

lemma hole_moves_up:
  assumes hole: "hole_ok lt s (heap[pos := x]) pos True" and go: "s < pos" "lt x (heap ! heap_parent pos)"
  shows "hole_ok lt s (heap[pos := heap ! heap_parent pos, heap_parent pos := x]) (heap_parent pos) True"
proof -
  let ?p = "heap_parent pos" and ?H = "heap[pos := x]"
  let ?H' = "heap[pos := heap ! ?p, ?p := x]"
  have len: "pos < length heap" and bel: "below s pos" using hole by (simp_all add: hole_ok_def)
  have belp: "below s ?p" using below_parent [OF bel go(1)] .
  then have p: "?p < pos" "?p < length heap" "s \<le> ?p"
    using len go below_le heap_parent_less [of pos] by simp_all
  have up: "\<not> lt (heap ! ?p) x" using go lt_asym by blast
  have edge: "\<not> lt (heap ! i) (?H ! heap_parent i)"
    if "0 < i" "i < length heap" "s \<le> heap_parent i" "i \<noteq> pos" for i
    using hole that by (auto simp: hole_ok_def)
  have kids: "\<not> lt (heap ! i) (heap ! ?p)" if "0 < i" "i < length heap" "heap_parent i = pos" for i
  proof -
    have "i \<noteq> pos" using that heap_parent_less [of i] by auto
    moreover have "\<not> lt (?H ! i) (?H ! ?p)" using hole that go by (simp add: hole_ok_def)
    ultimately show ?thesis using p by simp
  qed
  have "\<not> lt (?H' ! i) (?H' ! heap_parent i)"
    if i: "0 < i" "i < length heap" "s \<le> heap_parent i" "i \<noteq> ?p" for i
  proof -
    consider "i = pos" | "i \<noteq> pos" "heap_parent i = pos" | "i \<noteq> pos" "heap_parent i = ?p" "heap_parent i \<noteq> pos"
      | "i \<noteq> pos" "heap_parent i \<noteq> ?p" "heap_parent i \<noteq> pos" by blast
    then show ?thesis
    proof cases
      case 1 then show ?thesis using up p len by simp
    next
      case 2 then show ?thesis using kids i p len by simp
    next
      case 3
      then have "\<not> lt (heap ! i) x" using edge [OF i(1-3)] p up not_lt_trans by auto
      then show ?thesis using 3 i p len by simp
    next
      case 4 then show ?thesis using edge [OF i(1-3)] i p len by simp
    qed
  qed
  moreover have "\<not> lt (?H' ! i) (?H' ! heap_parent ?p)"
    if i: "0 < i" "i < length heap" "heap_parent i = ?p" and s: "s < ?p" for i
  proof -
    have pp: "0 < ?p" "s \<le> heap_parent ?p" "heap_parent ?p < ?p"
      using s below_le [OF below_parent [OF belp s]] heap_parent_less [of ?p] by simp_all
    have top: "\<not> lt (heap ! ?p) (heap ! heap_parent ?p)" using edge [of ?p] pp p by simp
    have "\<not> lt (heap ! i) (heap ! heap_parent ?p)" if "i \<noteq> pos"
      using edge [of i] i p that top not_lt_trans by auto
    moreover have "i \<noteq> ?p" using i heap_parent_less [of i] by auto
    ultimately show ?thesis using top pp p len i by (cases "i = pos") simp_all
  qed
  ultimately show ?thesis using belp p by (simp add: hole_ok_def)
qed

lemma siftdown_loop_heap:
  "hole_ok lt s (heap[pos := x]) pos True \<Longrightarrow> heap_from lt s (siftdown_loop lt s x heap pos)"
proof (induction pos arbitrary: heap rule: less_induct)
  case (less pos)
  show ?case
  proof (cases "s < pos \<and> lt x (heap ! heap_parent pos)")
    case True
    then have "heap_from lt s (siftdown_loop lt s x (heap[pos := heap ! heap_parent pos]) (heap_parent pos))"
      using hole_moves_up [OF less.prems] heap_parent_less [of pos] by (intro less.IH) auto
    then show ?thesis using True by (subst siftdown_loop.simps) simp
  next
    case False
    let ?H = "heap[pos := x]"
    have "\<not> lt (?H ! i) (?H ! heap_parent i)" if i: "0 < i" "i < length heap" "s \<le> heap_parent i" for i
    proof (cases "i = pos")
      case True
      then have "s < pos" "heap_parent pos < pos" using i heap_parent_less [of pos] by auto
      then show ?thesis using False True i by auto
    qed (use less.prems i in \<open>simp add: hole_ok_def\<close>)
    then show ?thesis using False by (subst siftdown_loop.simps) (auto simp: heap_from_def)
  qed
qed

lemma smaller_child_least:
  assumes "2 * pos + 1 < length heap" and "0 < i" "i < length heap" "heap_parent i = pos"
  shows "\<not> lt (heap ! i) (heap ! smaller_child lt heap pos)"
  using assms not_lt_self lt_asym
  by (auto simp: smaller_child_def Let_def heap_parent_iff)

lemma hole_moves_down:
  assumes hole: "hole_ok lt s (heap[pos := x]) pos False" and child: "2 * pos + 1 < length heap"
    and c: "c = smaller_child lt heap pos"
  shows "hole_ok lt s (heap[pos := heap ! c, c := x]) c False"
proof -
  let ?H = "heap[pos := x]" and ?H' = "heap[pos := heap ! c, c := x]"
  have bel: "below s pos" using hole by (simp add: hole_ok_def)
  have cr: "pos < c" "c < length heap" using smaller_child_range [OF child, of lt] by (simp_all add: c)
  then have pc: "0 < c" "heap_parent c = pos"
    by (auto simp: c smaller_child_def Let_def heap_parent_iff)
  have belc: "below s c" using below_child [OF bel pc] .
  have edge: "\<not> lt (heap ! i) (heap ! heap_parent i)"
    if "0 < i" "i < length heap" "s \<le> heap_parent i" "i \<noteq> pos" "heap_parent i \<noteq> pos" for i
    using hole that by (auto simp: hole_ok_def)
  have "\<not> lt (?H' ! i) (?H' ! heap_parent i)"
    if i: "0 < i" "i < length heap" "s \<le> heap_parent i" "i \<noteq> c" "heap_parent i \<noteq> c" for i
  proof -
    consider "i = pos" | "i \<noteq> pos" "heap_parent i = pos" | "i \<noteq> pos" "heap_parent i \<noteq> pos" by blast
    then show ?thesis
    proof cases
      case 1
      then have "s < pos" "heap_parent pos < pos" using i heap_parent_less [of pos] by auto
      moreover have "\<not> lt (?H ! c) (?H ! heap_parent pos)"
        using hole pc cr \<open>s < pos\<close> unfolding hole_ok_def length_list_update by blast
      ultimately show ?thesis using 1 i cr by simp
    next
      case 2
      then show ?thesis using smaller_child_least [OF child i(1,2)] i cr by (simp add: c [symmetric])
    next
      case 3
      then show ?thesis using edge i cr by simp
    qed
  qed
  moreover have "\<not> lt (?H' ! i) (?H' ! heap_parent c)" if i: "0 < i" "i < length heap" "heap_parent i = c" for i
  proof -
    have "i \<noteq> c" "i \<noteq> pos" "s \<le> c" using i cr heap_parent_less [of i] below_le [OF belc] by auto
    then show ?thesis using edge [of i] i pc cr by simp
  qed
  ultimately show ?thesis using belc cr by (simp add: hole_ok_def)
qed

lemma siftup_loop_hole:
  assumes "hole_ok lt s (heap[pos := x]) pos False"
  shows "case siftup_loop lt heap pos of (h, p) \<Rightarrow> hole_ok lt s (h[p := x]) p True"
  using assms
proof (induction "length heap - pos" arbitrary: heap pos rule: less_induct)
  case less
  show ?case
  proof (cases "2 * pos + 1 < length heap")
    case True
    let ?c = "smaller_child lt heap pos"
    have "length (heap[pos := heap ! ?c]) - ?c < length heap - pos"
      using smaller_child_range [OF True, of lt] True by (simp add: diff_less_mono2)
    from less.hyps [OF this hole_moves_down [OF less.prems True refl]] True
    show ?thesis by (subst siftup_loop.simps) simp
  next
    case False
    have "heap_parent i \<noteq> pos" if "0 < i" "i < length heap" for i
      using that False by (auto simp: heap_parent_iff)
    then show ?thesis using less.prems False by (subst siftup_loop.simps) (simp add: hole_ok_def)
  qed
qed

lemma siftup_heap:
  assumes "heap_from lt (Suc pos) heap" and "pos < length heap"
  shows "heap_from lt pos (siftup lt heap pos)"
proof -
  obtain h p where hp: "siftup_loop lt heap pos = (h, p)" by fastforce
  have "hole_ok lt pos (heap[pos := heap ! pos]) pos False"
    using assms by (simp add: hole_ok_def heap_from_def below_self)
  from siftup_loop_hole [OF this] have "hole_ok lt pos (h[p := heap ! pos]) p True" by (simp add: hp)
  moreover have "p < length h" using calculation by (simp add: hole_ok_def)
  ultimately show ?thesis
    using siftdown_loop_heap [of pos "h[p := heap ! pos]" p "heap ! pos"]
    by (simp add: siftup_def hp siftdown_def)
qed

lemma heapify_heap: "is_heap lt (heapify lt x) \<and> mset (heapify lt x) = mset x"
proof -
  have "heap_from lt 0 (fold (\<lambda>i h. siftup lt h i) (rev [0..<n]) h) \<and>
      mset (fold (\<lambda>i h. siftup lt h i) (rev [0..<n]) h) = mset h"
    if "heap_from lt n h" "n \<le> length h" for n h
    using that
  proof (induction n arbitrary: h)
    case (Suc n)
    then show ?case using siftup_heap [of n h] siftup_elements [of n h lt] by simp
  qed simp
  moreover have "heap_from lt (length x div 2) x"
    by (auto simp: heap_from_def heap_parent_def)
  ultimately show ?thesis by (simp add: heapify_def)
qed

lemma heappush_heap:
  assumes "is_heap lt heap"
  shows "is_heap lt (heappush lt heap item) \<and> mset (heappush lt heap item) = add_mset item (mset heap)"
proof -
  let ?n = "length heap" and ?h = "heap @ [item]"
  have "\<not> lt (?h ! i) (?h ! heap_parent i)" if "0 < i" "i < length ?h" "i \<noteq> ?n" for i
    using assms that heap_parent_less [of i] by (auto simp: heap_from_def nth_append)
  moreover have "heap_parent i \<noteq> ?n" if "0 < i" "i < length ?h" for i
    using that heap_parent_less [of i] by auto
  ultimately have "hole_ok lt 0 (?h[?n := item]) ?n True" by (simp add: hole_ok_def below_zero)
  from siftdown_loop_heap [OF this] siftdown_elements [of ?n ?h lt 0] show ?thesis
    by (simp add: heappush_def siftdown_def)
qed

lemma heap_root_least:
  assumes "is_heap lt xs" and "i < length xs"
  shows "\<not> lt (xs ! i) (xs ! 0)"
  using assms(2)
proof (induction i rule: less_induct)
  case (less i)
  show ?case
  proof (cases "i = 0")
    case False
    then have "\<not> lt (xs ! i) (xs ! heap_parent i)" using assms(1) less.prems by (simp add: heap_from_def)
    moreover have "\<not> lt (xs ! heap_parent i) (xs ! 0)" using less False heap_parent_less [of i] by simp
    ultimately show ?thesis using not_lt_trans by blast
  qed (simp add: not_lt_self)
qed

lemma heappop_heap:
  assumes "is_heap lt heap" and "heap \<noteq> []"
  shows "case heappop lt heap of Inl _ \<Rightarrow> False | Inr (x, h) \<Rightarrow>
    x = heap ! 0 \<and> is_heap lt h \<and> mset heap = add_mset x (mset h) \<and> (\<forall>y \<in># mset heap. \<not> lt y x)"
proof -
  obtain rest l where heap: "heap = rest @ [l]" using assms(2) by (cases heap rule: rev_cases) auto
  have least: "\<forall>y \<in># mset heap. \<not> lt y (heap ! 0)"
    using heap_root_least [OF assms(1)] by (auto simp: in_set_conv_nth)
  show ?thesis
  proof (cases rest)
    case Nil
    then show ?thesis using heap not_lt_self by (simp add: heappop_def heap_from_def)
  next
    case (Cons r rs)
    have "\<not> lt ((l # rs) ! i) ((l # rs) ! heap_parent i)"
      if i: "0 < i" "i < length (l # rs)" "Suc 0 \<le> heap_parent i" for i
    proof -
      have "heap_parent i < i" using i heap_parent_less by blast
      then have "heap ! i = (l # rs) ! i" "heap ! heap_parent i = (l # rs) ! heap_parent i"
        using i by (auto simp: heap Cons nth_append nth_Cons')
      moreover have "i < length heap" using i by (simp add: heap Cons)
      then have "\<not> lt (heap ! i) (heap ! heap_parent i)"
        using assms(1) i(1) unfolding heap_from_def by blast
      ultimately show ?thesis by simp
    qed
    then have "heap_from lt (Suc 0) (l # rs)" unfolding heap_from_def by blast
    then have "is_heap lt (siftup lt (l # rs) 0)" by (rule siftup_heap) simp
    then show ?thesis
      using least siftup_elements [of 0 "l # rs" lt] by (simp add: heappop_def heap Cons)
  qed
qed

end

end
