(* ===== verification/Request_Queue.thy ===== *)
theory Request_Queue
  imports Request_Model Heapq
begin

text \<open>
  \<^verbatim>\<open>vllm/v1/core/sched/request_queue.py\<close>: the first-come-first-served queue (a \<^verbatim>\<open>deque\<close>), the
  priority queue (a \<^verbatim>\<open>heapq\<close> heap) and \<^verbatim>\<open>create_request_queue\<close>.

  A queue holds references to request objects, so equality of elements is object identity;
  \<open>lt\<close> is \<^verbatim>\<open>Request.__lt__\<close> on the objects, \<open>ref_lt store\<close> when \<open>store\<close> gives the request behind a
  reference. The two classes are the constructors of \<open>request_queue\<close> and each method of the base
  class dispatches on them.

  The locale \<open>queue_laws\<close> is the contract the scheduler relies on; it is interpreted on both
  classes and on the dispatching methods. Shown: popping a queue until it is empty serves every
  request once, in iteration order; the heap behaves as a list kept sorted by
  (priority, arrival time, request id, object identity), whatever the history of operations.
\<close>

section \<open>The FCFS queue\<close>

datatype scheduling_policy = FCFS | PRIORITY

definition fcfs_add_request :: "'a \<Rightarrow> 'a list \<Rightarrow> 'a list" where
  "fcfs_add_request r q = q @ [r]"

fun fcfs_pop_request :: "'a list \<Rightarrow> ('a \<times> 'a list) res" where
  "fcfs_pop_request [] = Inl IndexError"
| "fcfs_pop_request (r # q) = Inr (r, q)"

definition fcfs_peek_request :: "'a list \<Rightarrow> 'a res" where
  "fcfs_peek_request q = (if q = [] then Inl IndexError else Inr (q ! 0))"

definition fcfs_prepend_request :: "'a \<Rightarrow> 'a list \<Rightarrow> 'a list" where
  "fcfs_prepend_request r q = r # q"

text \<open>\<^verbatim>\<open>deque.extendleft\<close> pushes one element after the other to the left end.\<close>

definition fcfs_prepend_requests :: "'a list \<Rightarrow> 'a list \<Rightarrow> 'a list" where
  "fcfs_prepend_requests rs q = fold (#) rs q"

definition fcfs_remove_request :: "'a \<Rightarrow> 'a list \<Rightarrow> 'a list res" where
  "fcfs_remove_request r q = (if r \<in> set q then Inr (remove1 r q) else Inl ValueError)"

definition fcfs_remove_requests :: "'a list \<Rightarrow> 'a list \<Rightarrow> 'a list" where
  "fcfs_remove_requests requests_to_remove q =
     (let filtered_requests = filter (\<lambda>req. req \<notin> set requests_to_remove) q
      in [] @ filtered_requests)"

section \<open>The priority queue\<close>

definition pq_add_request :: "('a \<Rightarrow> 'a \<Rightarrow> bool) \<Rightarrow> 'a \<Rightarrow> 'a list \<Rightarrow> 'a list" where
  "pq_add_request lt r h = heappush lt h r"

definition pq_pop_request :: "('a \<Rightarrow> 'a \<Rightarrow> bool) \<Rightarrow> 'a list \<Rightarrow> ('a \<times> 'a list) res" where
  "pq_pop_request lt h = (if h = [] then Inl IndexError else heappop lt h)"

definition pq_peek_request :: "'a list \<Rightarrow> 'a res" where
  "pq_peek_request h = (if h = [] then Inl IndexError else Inr (h ! 0))"

definition pq_prepend_request :: "('a \<Rightarrow> 'a \<Rightarrow> bool) \<Rightarrow> 'a \<Rightarrow> 'a list \<Rightarrow> 'a list" where
  "pq_prepend_request lt r h = pq_add_request lt r h"

definition pq_prepend_requests :: "('a \<Rightarrow> 'a \<Rightarrow> bool) \<Rightarrow> 'a list \<Rightarrow> 'a list \<Rightarrow> 'a list" where
  "pq_prepend_requests lt rs h = fold (pq_add_request lt) rs h"

definition pq_remove_request :: "('a \<Rightarrow> 'a \<Rightarrow> bool) \<Rightarrow> 'a \<Rightarrow> 'a list \<Rightarrow> 'a list res" where
  "pq_remove_request lt r h =
     (if r \<in> set h then Inr (heapify lt (remove1 r h)) else Inl ValueError)"

definition pq_remove_requests :: "('a \<Rightarrow> 'a \<Rightarrow> bool) \<Rightarrow> 'a list \<Rightarrow> 'a list \<Rightarrow> 'a list" where
  "pq_remove_requests lt requests_to_remove h =
     heapify lt (filter (\<lambda>r. r \<notin> set requests_to_remove) h)"

lemma heappop_length: "heappop lt h = Inr (x, h') \<Longrightarrow> length h' < length h"
  using siftup_elements [of 0 "(butlast h)[0 := last h]" lt]
  by (cases h rule: rev_cases) (auto simp: heappop_def Let_def split: if_splits)

text \<open>The generator of \<^verbatim>\<open>__iter__\<close> pops a copy of the heap until it is empty.\<close>

function pq_iter :: "('a \<Rightarrow> 'a \<Rightarrow> bool) \<Rightarrow> 'a list \<Rightarrow> 'a list" where
  "pq_iter lt heap_copy =
     (case heappop lt heap_copy of Inl _ \<Rightarrow> [] | Inr (r, h) \<Rightarrow> r # pq_iter lt h)"
  by pat_completeness auto
termination
  by (relation "measure (\<lambda>(lt, h). length h)") (auto intro: heappop_length)

declare pq_iter.simps [simp del]

section \<open>Queues of either class\<close>

datatype 'a request_queue = FCFSRequestQueue "'a list" | PriorityRequestQueue "'a list"

definition create_request_queue :: "scheduling_policy \<Rightarrow> 'a request_queue" where
  "create_request_queue policy =
     (case policy of PRIORITY \<Rightarrow> PriorityRequestQueue [] | FCFS \<Rightarrow> FCFSRequestQueue [])"

fun add_request :: "('a \<Rightarrow> 'a \<Rightarrow> bool) \<Rightarrow> 'a \<Rightarrow> 'a request_queue \<Rightarrow> 'a request_queue" where
  "add_request lt r (FCFSRequestQueue q) = FCFSRequestQueue (fcfs_add_request r q)"
| "add_request lt r (PriorityRequestQueue h) = PriorityRequestQueue (pq_add_request lt r h)"

fun pop_request :: "('a \<Rightarrow> 'a \<Rightarrow> bool) \<Rightarrow> 'a request_queue \<Rightarrow> ('a \<times> 'a request_queue) res" where
  "pop_request lt (FCFSRequestQueue q) =
     bindE (fcfs_pop_request q) (\<lambda>(r, q'). Inr (r, FCFSRequestQueue q'))"
| "pop_request lt (PriorityRequestQueue h) =
     bindE (pq_pop_request lt h) (\<lambda>(r, h'). Inr (r, PriorityRequestQueue h'))"

fun peek_request :: "'a request_queue \<Rightarrow> 'a res" where
  "peek_request (FCFSRequestQueue q) = fcfs_peek_request q"
| "peek_request (PriorityRequestQueue h) = pq_peek_request h"

fun prepend_request :: "('a \<Rightarrow> 'a \<Rightarrow> bool) \<Rightarrow> 'a \<Rightarrow> 'a request_queue \<Rightarrow> 'a request_queue" where
  "prepend_request lt r (FCFSRequestQueue q) = FCFSRequestQueue (fcfs_prepend_request r q)"
| "prepend_request lt r (PriorityRequestQueue h) = PriorityRequestQueue (pq_prepend_request lt r h)"

fun iter_requests :: "('a \<Rightarrow> 'a \<Rightarrow> bool) \<Rightarrow> 'a request_queue \<Rightarrow> 'a list" where
  "iter_requests lt (FCFSRequestQueue q) = q"
| "iter_requests lt (PriorityRequestQueue h) = pq_iter lt h"

fun prepend_requests ::
    "('a \<Rightarrow> 'a \<Rightarrow> bool) \<Rightarrow> 'a request_queue \<Rightarrow> 'a request_queue \<Rightarrow> 'a request_queue" where
  "prepend_requests lt other (FCFSRequestQueue q) =
     FCFSRequestQueue (fcfs_prepend_requests (iter_requests lt other) q)"
| "prepend_requests lt other (PriorityRequestQueue h) =
     PriorityRequestQueue (pq_prepend_requests lt (iter_requests lt other) h)"

fun remove_request :: "('a \<Rightarrow> 'a \<Rightarrow> bool) \<Rightarrow> 'a \<Rightarrow> 'a request_queue \<Rightarrow> 'a request_queue res" where
  "remove_request lt r (FCFSRequestQueue q) =
     bindE (fcfs_remove_request r q) (\<lambda>q'. Inr (FCFSRequestQueue q'))"
| "remove_request lt r (PriorityRequestQueue h) =
     bindE (pq_remove_request lt r h) (\<lambda>h'. Inr (PriorityRequestQueue h'))"

fun remove_requests :: "('a \<Rightarrow> 'a \<Rightarrow> bool) \<Rightarrow> 'a list \<Rightarrow> 'a request_queue \<Rightarrow> 'a request_queue" where
  "remove_requests lt rs (FCFSRequestQueue q) = FCFSRequestQueue (fcfs_remove_requests rs q)"
| "remove_requests lt rs (PriorityRequestQueue h) = PriorityRequestQueue (pq_remove_requests lt rs h)"

fun queue_len :: "'a request_queue \<Rightarrow> int" where
  "queue_len (FCFSRequestQueue q) = int (length q)"
| "queue_len (PriorityRequestQueue h) = int (length h)"

fun queue_nonempty :: "'a request_queue \<Rightarrow> bool" where
  "queue_nonempty (FCFSRequestQueue q) \<longleftrightarrow> 0 < length q"
| "queue_nonempty (PriorityRequestQueue h) \<longleftrightarrow> h \<noteq> []"

definition ref_lt :: "('a \<Rightarrow> request) \<Rightarrow> 'a \<Rightarrow> 'a \<Rightarrow> bool" where
  "ref_lt store a b = request_lt (store a) (store b)"

text \<open>Popping \<open>n\<close> times, as the scheduling loop does while it has budget.\<close>

fun pops :: "('q \<Rightarrow> ('a \<times> 'q) res) \<Rightarrow> nat \<Rightarrow> 'q \<Rightarrow> ('a list \<times> 'q) res" where
  "pops pop 0 q = Inr ([], q)"
| "pops pop (Suc n) q =
     bindE (pop q) (\<lambda>(r, q'). bindE (pops pop n q') (\<lambda>(rs, q''). Inr (r # rs, q'')))"

section \<open>The contract of a request queue\<close>

locale queue_laws =
  fixes ok :: "'q \<Rightarrow> bool"
    and itr :: "'q \<Rightarrow> 'a list"
    and len :: "'q \<Rightarrow> int"
    and add prepend :: "'a \<Rightarrow> 'q \<Rightarrow> 'q"
    and pop :: "'q \<Rightarrow> ('a \<times> 'q) res"
    and peek :: "'q \<Rightarrow> 'a res"
    and rem :: "'a \<Rightarrow> 'q \<Rightarrow> 'q res"
    and rems :: "'a list \<Rightarrow> 'q \<Rightarrow> 'q"
  assumes len_law: "ok q \<Longrightarrow> len q = int (length (itr q))"
    and add_law: "ok q \<Longrightarrow> ok (add r q) \<and> mset (itr (add r q)) = add_mset r (mset (itr q))"
    and prepend_law: "ok q \<Longrightarrow> ok (prepend r q) \<and> mset (itr (prepend r q)) = add_mset r (mset (itr q))"
    and pop_law: "ok q \<Longrightarrow> itr q = r # rs \<Longrightarrow> \<exists>q'. pop q = Inr (r, q') \<and> ok q' \<and> itr q' = rs"
    and pop_empty_law: "ok q \<Longrightarrow> itr q = [] \<Longrightarrow> pop q = Inl IndexError"
    and peek_law: "ok q \<Longrightarrow> peek q = (case itr q of [] \<Rightarrow> Inl IndexError | r # _ \<Rightarrow> Inr r)"
    and rem_law: "ok q \<Longrightarrow> r \<in> set (itr q) \<Longrightarrow>
      \<exists>q'. rem r q = Inr q' \<and> ok q' \<and> mset (itr q') = mset (itr q) - {#r#}"
    and rem_absent_law: "ok q \<Longrightarrow> r \<notin> set (itr q) \<Longrightarrow> rem r q = Inl ValueError"
    and rems_law: "ok q \<Longrightarrow> ok (rems rs q) \<and>
      mset (itr (rems rs q)) = filter_mset (\<lambda>r. r \<notin> set rs) (mset (itr q))"
begin

lemma pops_iter:
  "ok q \<Longrightarrow> n \<le> length (itr q) \<Longrightarrow>
   \<exists>q'. pops pop n q = Inr (take n (itr q), q') \<and> ok q' \<and> itr q' = drop n (itr q)"
proof (induction n arbitrary: q)
  case (Suc n)
  then obtain r rs where rs: "itr q = r # rs" by (cases "itr q") auto
  from pop_law [OF Suc.prems(1) rs] obtain q1 where q1: "pop q = Inr (r, q1)" "ok q1" "itr q1 = rs" by blast
  then show ?case using Suc.IH [of q1] Suc.prems rs by fastforce
qed simp

lemma drain:
  assumes "ok q"
  shows "\<exists>q'. pops pop (length (itr q)) q = Inr (itr q, q') \<and> ok q' \<and> len q' = 0 \<and> pop q' = Inl IndexError"
  using pops_iter [OF assms, of "length (itr q)"] len_law pop_empty_law by fastforce

end

section \<open>The classes fulfil the contract\<close>

lemma fcfs_prepend_requests_rev: "fcfs_prepend_requests rs q = rev rs @ q"
  unfolding fcfs_prepend_requests_def by (induction rs arbitrary: q) auto

interpretation fq: queue_laws "\<lambda>_. True" "\<lambda>q. q" "\<lambda>q. int (length q)" fcfs_add_request
  fcfs_prepend_request fcfs_pop_request fcfs_peek_request fcfs_remove_request fcfs_remove_requests
  by unfold_locales
    (auto simp: fcfs_add_request_def fcfs_prepend_request_def fcfs_peek_request_def
      fcfs_remove_request_def fcfs_remove_requests_def split: list.splits)

context before_order
begin

lemma pq_pop_request_iter:
  assumes "is_heap lt h" and "h \<noteq> []"
  obtains h' where "pq_pop_request lt h = Inr (h ! 0, h')" and "is_heap lt h'"
    and "mset h = add_mset (h ! 0) (mset h')" and "pq_iter lt h = h ! 0 # pq_iter lt h'"
    and "\<forall>y \<in># mset h. \<not> lt y (h ! 0)"
proof -
  obtain x h' where pop: "heappop lt h = Inr (x, h')"
    using heappop_heap [OF assms] by (cases "heappop lt h") auto
  have "x = h ! 0 \<and> is_heap lt h' \<and> mset h = add_mset x (mset h') \<and> (\<forall>y \<in># mset h. \<not> lt y x)"
    using heappop_heap [OF assms] unfolding pop sum.case prod.case .
  moreover have "pq_iter lt h = x # pq_iter lt h'" by (subst pq_iter.simps) (simp add: pop)
  moreover have "pq_pop_request lt h = Inr (x, h')" using pop assms(2) by (simp add: pq_pop_request_def)
  ultimately show ?thesis using that by blast
qed

lemma pq_iter_empty [simp]: "pq_iter lt [] = []"
  by (subst pq_iter.simps) (simp add: heappop_def)

lemma pq_iter_sorted:
  "is_heap lt h \<Longrightarrow> mset (pq_iter lt h) = mset h \<and> sorted_wrt (\<lambda>a b. \<not> lt b a) (pq_iter lt h)"
proof (induction "length h" arbitrary: h rule: less_induct)
  case less
  show ?case
  proof (cases "h = []")
    case False
    from pq_pop_request_iter [OF less.prems False] obtain h' where h':
      "is_heap lt h'" "mset h = add_mset (h ! 0) (mset h')" "pq_iter lt h = h ! 0 # pq_iter lt h'"
      "\<forall>y \<in># mset h. \<not> lt y (h ! 0)" by metis
    have "length h' < length h" using h'(2) by (metis size_add_mset size_mset lessI)
    from less.hyps [OF this h'(1)]
    have IH: "mset (pq_iter lt h') = mset h'" "sorted_wrt (\<lambda>a b. \<not> lt b a) (pq_iter lt h')" by simp_all
    moreover have "\<not> lt y (h ! 0)" if "y \<in> set (pq_iter lt h')" for y
      using that IH(1) h'(2,4) by (metis insert_iff set_mset_add_mset_insert set_mset_mset)
    ultimately show ?thesis using h'(2,3) by simp
  qed simp
qed

lemma set_pq_iter: "is_heap lt h \<Longrightarrow> set (pq_iter lt h) = set h"
  using pq_iter_sorted by (metis set_mset_mset)

lemma pq_iter_Nil_iff: "is_heap lt h \<Longrightarrow> pq_iter lt h = [] \<longleftrightarrow> h = []"
  using pq_iter_sorted by (metis mset_zero_iff)

lemma pq_add_request_law:
  "is_heap lt h \<Longrightarrow> is_heap lt (pq_add_request lt r h) \<and> mset (pq_add_request lt r h) = add_mset r (mset h)"
  unfolding pq_add_request_def by (rule heappush_heap)

lemma pq_prepend_requests_law:
  "is_heap lt h \<Longrightarrow> is_heap lt (pq_prepend_requests lt rs h) \<and>
   mset (pq_prepend_requests lt rs h) = mset rs + mset h"
  unfolding pq_prepend_requests_def
proof (induction rs arbitrary: h)
  case (Cons r rs)
  then show ?case using pq_add_request_law [OF Cons.prems, of r] by simp
qed simp

lemma pq_queue_laws:
  "queue_laws (is_heap lt) (pq_iter lt) (\<lambda>h. int (length h)) (pq_add_request lt) (pq_prepend_request lt)
     (pq_pop_request lt) pq_peek_request (pq_remove_request lt) (pq_remove_requests lt)"
proof unfold_locales
  fix h :: "'a list" and r rs
  assume h: "is_heap lt h"
  show "int (length h) = int (length (pq_iter lt h))" using pq_iter_sorted [OF h] by (metis size_mset)
  show add: "is_heap lt (pq_add_request lt r h) \<and>
      mset (pq_iter lt (pq_add_request lt r h)) = add_mset r (mset (pq_iter lt h))"
    using pq_add_request_law [OF h] pq_iter_sorted h by simp
  then show "is_heap lt (pq_prepend_request lt r h) \<and>
      mset (pq_iter lt (pq_prepend_request lt r h)) = add_mset r (mset (pq_iter lt h))"
    unfolding pq_prepend_request_def .
  show "pq_peek_request h = (case pq_iter lt h of [] \<Rightarrow> Inl IndexError | r # _ \<Rightarrow> Inr r)"
  proof (cases "h = []")
    case False
    obtain h' where "pq_iter lt h = h ! 0 # pq_iter lt h'" by (rule pq_pop_request_iter [OF h False])
    with False show ?thesis by (simp add: pq_peek_request_def)
  qed (simp add: pq_peek_request_def)
  show "pq_pop_request lt h = Inl IndexError" if "pq_iter lt h = []"
    using that h by (simp add: pq_iter_Nil_iff pq_pop_request_def)
  show "\<exists>h'. pq_pop_request lt h = Inr (r, h') \<and> is_heap lt h' \<and> pq_iter lt h' = rs"
    if "pq_iter lt h = r # rs"
  proof -
    have "h \<noteq> []" using that by auto
    then obtain h' where
      "pq_pop_request lt h = Inr (h ! 0, h')" "is_heap lt h'" "pq_iter lt h = h ! 0 # pq_iter lt h'"
      by (rule pq_pop_request_iter [OF h])
    with that show ?thesis by auto
  qed
  show "\<exists>h'. pq_remove_request lt r h = Inr h' \<and> is_heap lt h' \<and>
      mset (pq_iter lt h') = mset (pq_iter lt h) - {#r#}" if "r \<in> set (pq_iter lt h)"
    using that h heapify_heap [where x = "remove1 r h"] pq_iter_sorted set_pq_iter
    by (simp add: pq_remove_request_def)
  show "pq_remove_request lt r h = Inl ValueError" if "r \<notin> set (pq_iter lt h)"
    using that h set_pq_iter by (simp add: pq_remove_request_def)
  show "is_heap lt (pq_remove_requests lt rs h) \<and>
      mset (pq_iter lt (pq_remove_requests lt rs h)) = filter_mset (\<lambda>r. r \<notin> set rs) (mset (pq_iter lt h))"
    using h heapify_heap [where x = "filter (\<lambda>r. r \<notin> set rs) h"] pq_iter_sorted
    by (simp add: pq_remove_requests_def)
qed

end

sublocale before_order \<subseteq> pq: queue_laws "heap_from lt 0" "pq_iter lt" "\<lambda>h. int (length h)"
  "pq_add_request lt" "pq_prepend_request lt" "pq_pop_request lt" pq_peek_request
  "pq_remove_request lt" "pq_remove_requests lt"
  by (rule pq_queue_laws)

definition queue_ok :: "('a \<Rightarrow> 'a \<Rightarrow> bool) \<Rightarrow> 'a request_queue \<Rightarrow> bool" where
  "queue_ok lt q \<longleftrightarrow> (case q of FCFSRequestQueue _ \<Rightarrow> True | PriorityRequestQueue h \<Rightarrow> is_heap lt h)"

lemma queue_ok_simps [simp]:
  "queue_ok lt (FCFSRequestQueue q)"
  "queue_ok lt (PriorityRequestQueue h) \<longleftrightarrow> is_heap lt h"
  "queue_ok lt (create_request_queue policy)"
  by (simp_all add: queue_ok_def create_request_queue_def heap_from_def split: scheduling_policy.split)

context before_order
begin

lemma dispatch_queue_laws:
  "queue_laws (queue_ok lt) (iter_requests lt) queue_len (add_request lt) (prepend_request lt)
     (pop_request lt) peek_request (remove_request lt) (remove_requests lt)"
proof unfold_locales
  fix q :: "'a request_queue" and r rs
  assume ok: "queue_ok lt q"
  show "queue_len q = int (length (iter_requests lt q))"
    using ok pq.len_law by (cases q) simp_all
  show "queue_ok lt (add_request lt r q) \<and>
      mset (iter_requests lt (add_request lt r q)) = add_mset r (mset (iter_requests lt q))"
    using ok fq.add_law pq.add_law by (cases q) simp_all
  show "queue_ok lt (prepend_request lt r q) \<and>
      mset (iter_requests lt (prepend_request lt r q)) = add_mset r (mset (iter_requests lt q))"
    using ok fq.prepend_law pq.prepend_law by (cases q) simp_all
  show "peek_request q = (case iter_requests lt q of [] \<Rightarrow> Inl IndexError | r # _ \<Rightarrow> Inr r)"
    using ok fq.peek_law pq.peek_law by (cases q) simp_all
  show "pop_request lt q = Inl IndexError" if "iter_requests lt q = []"
    using ok that pq.pop_empty_law by (cases q) simp_all
  show "\<exists>q'. pop_request lt q = Inr (r, q') \<and> queue_ok lt q' \<and> iter_requests lt q' = rs"
    if it: "iter_requests lt q = r # rs"
  proof (cases q)
    case (PriorityRequestQueue h)
    then obtain h' where "pq_pop_request lt h = Inr (r, h')" "is_heap lt h'" "pq_iter lt h' = rs"
      using pq.pop_law [of h r rs] ok it by auto
    then show ?thesis by (intro exI [of _ "PriorityRequestQueue h'"]) (simp add: PriorityRequestQueue)
  qed (use it in simp)
  show "\<exists>q'. remove_request lt r q = Inr q' \<and> queue_ok lt q' \<and>
      mset (iter_requests lt q') = mset (iter_requests lt q) - {#r#}" if it: "r \<in> set (iter_requests lt q)"
  proof (cases q)
    case (PriorityRequestQueue h)
    then obtain h' where "pq_remove_request lt r h = Inr h'" "is_heap lt h'"
      "mset (pq_iter lt h') = mset (pq_iter lt h) - {#r#}" using pq.rem_law [of h r] ok it by auto
    then show ?thesis by (intro exI [of _ "PriorityRequestQueue h'"]) (simp add: PriorityRequestQueue)
  qed (use it in \<open>simp add: fcfs_remove_request_def\<close>)
  show "remove_request lt r q = Inl ValueError" if "r \<notin> set (iter_requests lt q)"
    using ok that pq.rem_absent_law by (cases q) (simp_all add: fcfs_remove_request_def)
  show "queue_ok lt (remove_requests lt rs q) \<and> mset (iter_requests lt (remove_requests lt rs q)) =
      filter_mset (\<lambda>r. r \<notin> set rs) (mset (iter_requests lt q))"
    using ok fq.rems_law [OF TrueI] pq.rems_law by (cases q) simp_all
qed

end

sublocale before_order \<subseteq> rq: queue_laws "queue_ok lt" "iter_requests lt" queue_len "add_request lt"
  "prepend_request lt" "pop_request lt" peek_request "remove_request lt" "remove_requests lt"
  by (rule dispatch_queue_laws)

lemma request_lt_negtrans: "\<not> request_lt b a \<Longrightarrow> \<not> request_lt c b \<Longrightarrow> \<not> request_lt c a"
  by (auto simp: request_lt_def split: if_splits)

interpretation req: before_order "ref_lt store" for store
  by unfold_locales (auto simp: ref_lt_def dest: request_lt_asym request_lt_negtrans)

section \<open>Sequences of operations\<close>

datatype 'a queue_op =
    AddOp 'a
  | PopOp
  | PrependOp 'a
  | PrependAllOp "'a request_queue"
  | RemoveOp 'a
  | RemoveAllOp "'a list"

fun queue_step ::
    "('a \<Rightarrow> 'a \<Rightarrow> bool) \<Rightarrow> 'a queue_op \<Rightarrow> 'a request_queue \<Rightarrow> ('a list \<times> 'a request_queue) res" where
  "queue_step lt (AddOp r) q = Inr ([], add_request lt r q)"
| "queue_step lt PopOp q = bindE (pop_request lt q) (\<lambda>(r, q'). Inr ([r], q'))"
| "queue_step lt (PrependOp r) q = Inr ([], prepend_request lt r q)"
| "queue_step lt (PrependAllOp other) q = Inr ([], prepend_requests lt other q)"
| "queue_step lt (RemoveOp r) q = bindE (remove_request lt r q) (\<lambda>q'. Inr ([], q'))"
| "queue_step lt (RemoveAllOp rs) q = Inr ([], remove_requests lt rs q)"

text \<open>The reference: a list kept sorted.\<close>

fun sorted_insert :: "('a \<Rightarrow> 'a \<Rightarrow> bool) \<Rightarrow> 'a \<Rightarrow> 'a list \<Rightarrow> 'a list" where
  "sorted_insert lt r [] = [r]"
| "sorted_insert lt r (x # xs) = (if lt r x then r # x # xs else x # sorted_insert lt r xs)"

fun sorted_step ::
    "('a \<Rightarrow> 'a \<Rightarrow> bool) \<Rightarrow> 'a queue_op \<Rightarrow> 'a list \<Rightarrow> ('a list \<times> 'a list) res" where
  "sorted_step lt (AddOp r) xs = Inr ([], sorted_insert lt r xs)"
| "sorted_step lt PopOp xs = (case xs of [] \<Rightarrow> Inl IndexError | x # ys \<Rightarrow> Inr ([x], ys))"
| "sorted_step lt (PrependOp r) xs = Inr ([], sorted_insert lt r xs)"
| "sorted_step lt (PrependAllOp other) xs = Inr ([], fold (sorted_insert lt) (iter_requests lt other) xs)"
| "sorted_step lt (RemoveOp r) xs = (if r \<in> set xs then Inr ([], remove1 r xs) else Inl ValueError)"
| "sorted_step lt (RemoveAllOp rs) xs = Inr ([], filter (\<lambda>x. x \<notin> set rs) xs)"

fun run_steps :: "('o \<Rightarrow> 's \<Rightarrow> ('a list \<times> 's) res) \<Rightarrow> 'o list \<Rightarrow> 's \<Rightarrow> ('a list \<times> 's) res" where
  "run_steps step [] s = Inr ([], s)"
| "run_steps step (op # ops) s =
     bindE (step op s) (\<lambda>(out, s1). bindE (run_steps step ops s1) (\<lambda>(outs, s2). Inr (out @ outs, s2)))"

text \<open>The requests an operation puts into a queue and the request it takes out by name.\<close>

fun added_by :: "('a \<Rightarrow> 'a \<Rightarrow> bool) \<Rightarrow> 'a queue_op \<Rightarrow> 'a multiset" where
  "added_by lt (AddOp r) = {#r#}"
| "added_by lt (PrependOp r) = {#r#}"
| "added_by lt (PrependAllOp other) = mset (iter_requests lt other)"
| "added_by lt _ = {#}"

fun removed_by :: "'a queue_op \<Rightarrow> 'a multiset" where
  "removed_by (RemoveOp r) = {#r#}"
| "removed_by _ = {#}"

fun removes_many :: "'a queue_op \<Rightarrow> bool" where
  "removes_many (RemoveAllOp _) = True"
| "removes_many _ = False"

lemma mset_sorted_insert [simp]: "mset (sorted_insert lt r xs) = add_mset r (mset xs)"
  by (induction xs) auto

lemma set_sorted_insert [simp]: "set (sorted_insert lt r xs) = insert r (set xs)"
  by (induction xs) auto

context before_order
begin

lemma sorted_insert_sorted:
  "sorted_wrt (\<lambda>a b. \<not> lt b a) xs \<Longrightarrow> sorted_wrt (\<lambda>a b. \<not> lt b a) (sorted_insert lt r xs)"
proof (induction xs)
  case (Cons a xs)
  have "\<not> lt x r" if "lt r a" "x \<in> set xs" for x
    using that Cons.prems not_lt_trans [of a r x] lt_asym [of r a] by simp
  moreover have "\<not> lt a r" if "lt r a" using that by (rule lt_asym)
  ultimately show ?case using Cons by simp
qed simp

lemma prepend_requests_ok:
  assumes "queue_ok lt q"
  shows "queue_ok lt (prepend_requests lt other q) \<and>
    mset (iter_requests lt (prepend_requests lt other q)) =
    mset (iter_requests lt other) + mset (iter_requests lt q)"
  using assms pq_prepend_requests_law pq_iter_sorted
  by (cases q) (simp_all add: fcfs_prepend_requests_rev)

lemma pop_request_cases:
  assumes "queue_ok lt q"
  obtains "iter_requests lt q = []" "pop_request lt q = Inl IndexError"
  | r q' where "iter_requests lt q = r # iter_requests lt q'" "pop_request lt q = Inr (r, q')" "queue_ok lt q'"
  using rq.pop_law [OF assms] rq.pop_empty_law [OF assms] by (cases "iter_requests lt q") auto

lemma remove_request_cases:
  assumes "queue_ok lt q"
  obtains "r \<notin> set (iter_requests lt q)" "remove_request lt r q = Inl ValueError"
  | q' where "r \<in> set (iter_requests lt q)" "remove_request lt r q = Inr q'" "queue_ok lt q'"
      "mset (iter_requests lt q') = mset (iter_requests lt q) - {#r#}"
  using rq.rem_law [OF assms] rq.rem_absent_law [OF assms] by (cases "r \<in> set (iter_requests lt q)") auto

lemma queue_step_ok:
  assumes ok: "queue_ok lt q" and step: "queue_step lt op q = Inr (out, q')"
  shows "queue_ok lt q'"
proof (cases op)
  case PopOp
  from ok show ?thesis by (cases rule: pop_request_cases) (use step PopOp in simp_all)
next
  case (RemoveOp r)
  from ok show ?thesis
    by (cases rule: remove_request_cases [where r = r]) (use step RemoveOp in simp_all)
qed (use ok step rq.add_law rq.prepend_law rq.rems_law prepend_requests_ok in auto)

lemma run_queue_ok:
  "queue_ok lt q \<Longrightarrow> run_steps (queue_step lt) ops q = Inr (out, q') \<Longrightarrow> queue_ok lt q'"
proof (induction ops arbitrary: q out)
  case (Cons op ops)
  from Cons.prems(2) obtain o1 q1 o2 where
    "queue_step lt op q = Inr (o1, q1)" "run_steps (queue_step lt) ops q1 = Inr (o2, q')"
    by (auto simp: bindE_eq_Inr)
  with Cons.IH queue_step_ok [OF Cons.prems(1)] show ?case by blast
qed simp

lemma sorted_unique:
  assumes tot: "\<And>a b. a \<noteq> b \<Longrightarrow> lt a b \<or> lt b a"
    and "sorted_wrt (\<lambda>a b. \<not> lt b a) xs" "sorted_wrt (\<lambda>a b. \<not> lt b a) ys" "mset xs = mset ys"
  shows "xs = ys"
  using assms(2-4)
proof (induction xs arbitrary: ys)
  case (Cons x xs)
  then obtain y ys' where ys: "ys = y # ys'" by (cases ys) auto
  have "x \<in> set ys" "y \<in> set (x # xs)"
    using arg_cong [OF Cons.prems(3), of set_mset] by (auto simp: ys)
  then have "x = y \<or> \<not> lt x y" "x = y \<or> \<not> lt y x" using Cons.prems(1,2) by (auto simp: ys)
  then have "x = y" using tot [of x y] by blast
  with Cons.IH [of ys'] Cons.prems show ?case by (simp add: ys)
qed simp

lemma sorted_wrt_remove1: "sorted_wrt P xs \<Longrightarrow> sorted_wrt P (remove1 r xs)"
  by (induction xs) (use set_remove1_subset in fastforce)+

lemma iter_sorted: "is_heap lt h \<Longrightarrow> sorted_wrt (\<lambda>a b. \<not> lt b a) (pq_iter lt h)"
  using pq_iter_sorted by blast

lemma fold_sorted_insert:
  "sorted_wrt (\<lambda>a b. \<not> lt b a) xs \<Longrightarrow>
   sorted_wrt (\<lambda>a b. \<not> lt b a) (fold (sorted_insert lt) rs xs) \<and>
   mset (fold (sorted_insert lt) rs xs) = mset rs + mset xs"
proof (induction rs arbitrary: xs)
  case (Cons r rs)
  from Cons.IH [OF sorted_insert_sorted [OF Cons.prems, of r]] show ?case by simp
qed simp

lemma priority_step_refines:
  assumes tot: "\<And>a b. a \<noteq> b \<Longrightarrow> lt a b \<or> lt b a" and h: "is_heap lt h"
  shows "map_sum id (\<lambda>(out, q). (out, iter_requests lt q)) (queue_step lt op (PriorityRequestQueue h)) =
    sorted_step lt op (pq_iter lt h)"
proof -
  note sorted = iter_sorted [OF h]
  have okh: "queue_ok lt (PriorityRequestQueue h)" using h by simp
  show ?thesis
  proof (cases op)
    case (AddOp r)
    have "pq_iter lt (pq_add_request lt r h) = sorted_insert lt r (pq_iter lt h)"
      using pq.add_law [OF h, of r] sorted_insert_sorted [OF sorted, of r]
      by (intro sorted_unique [OF tot]) (auto intro: iter_sorted)
    with AddOp show ?thesis by simp
  next
    case PopOp
    from okh show ?thesis by (cases rule: pop_request_cases) (use PopOp in simp_all)
  next
    case (PrependOp r)
    have "pq_iter lt (pq_prepend_request lt r h) = sorted_insert lt r (pq_iter lt h)"
      using pq.prepend_law [OF h, of r] sorted_insert_sorted [OF sorted, of r]
      by (intro sorted_unique [OF tot]) (auto intro: iter_sorted)
    with PrependOp show ?thesis by simp
  next
    case (PrependAllOp other)
    let ?h = "pq_prepend_requests lt (iter_requests lt other) h"
    have "is_heap lt ?h" "mset (pq_iter lt ?h) = mset (iter_requests lt other) + mset (pq_iter lt h)"
      using prepend_requests_ok [OF okh, of other] by simp_all
    then have "pq_iter lt ?h = fold (sorted_insert lt) (iter_requests lt other) (pq_iter lt h)"
      using fold_sorted_insert [OF sorted, of "iter_requests lt other"]
      by (intro sorted_unique [OF tot]) (auto intro: iter_sorted)
    with PrependAllOp show ?thesis by simp
  next
    case (RemoveOp r)
    show ?thesis
    proof (cases "r \<in> set (pq_iter lt h)")
      case True
      from pq.rem_law [OF h True] obtain h' where h': "pq_remove_request lt r h = Inr h'" "is_heap lt h'"
        "mset (pq_iter lt h') = mset (pq_iter lt h) - {#r#}" by blast
      have "pq_iter lt h' = remove1 r (pq_iter lt h)"
        using h' sorted by (intro sorted_unique [OF tot]) (auto intro: iter_sorted sorted_wrt_remove1)
      with RemoveOp True h' show ?thesis by simp
    next
      case False
      with RemoveOp pq.rem_absent_law [OF h False] show ?thesis by simp
    qed
  next
    case (RemoveAllOp rs)
    have "pq_iter lt (pq_remove_requests lt rs h) = filter (\<lambda>x. x \<notin> set rs) (pq_iter lt h)"
      using pq.rems_law [OF h, of rs] sorted
      by (intro sorted_unique [OF tot]) (auto intro: iter_sorted sorted_wrt_filter)
    with RemoveAllOp show ?thesis by simp
  qed
qed

lemma queue_step_class:
  assumes "queue_step lt op (PriorityRequestQueue h) = Inr (out, q)"
  obtains h' where "q = PriorityRequestQueue h'"
  using assms by (cases op) (auto simp: bindE_eq_Inr)

lemma priority_run_refines:
  assumes tot: "\<And>a b. a \<noteq> b \<Longrightarrow> lt a b \<or> lt b a" and h: "is_heap lt h"
  shows "map_sum id (\<lambda>(out, q). (out, iter_requests lt q))
      (run_steps (queue_step lt) ops (PriorityRequestQueue h)) =
    run_steps (sorted_step lt) ops (pq_iter lt h)"
  using h
proof (induction ops arbitrary: h)
  case (Cons op ops)
  note step = priority_step_refines [OF tot Cons.prems, of op]
  show ?case
  proof (cases "queue_step lt op (PriorityRequestQueue h)")
    case (Inl e)
    with step show ?thesis by (simp flip: step)
  next
    case (Inr outq)
    obtain out q where outq: "outq = (out, q)" by (cases outq)
    from Inr obtain h' where q: "q = PriorityRequestQueue h'" unfolding outq by (rule queue_step_class)
    have "queue_ok lt q"
      using Cons.prems by (intro queue_step_ok [OF _ Inr [unfolded outq]]) simp
    then have IH: "run_steps (sorted_step lt) ops (pq_iter lt h') =
        map_sum id (\<lambda>(out, q). (out, iter_requests lt q)) (run_steps (queue_step lt) ops q)"
      using Cons.IH [of h'] by (simp add: q id_def)
    have "sorted_step lt op (pq_iter lt h) = Inr (out, pq_iter lt h')"
      using step by (simp add: Inr outq q)
    then show ?thesis
      by (cases "run_steps (queue_step lt) ops q") (auto simp: Inr outq q IH)
  qed
qed simp

lemma queue_step_conserves:
  assumes ok: "queue_ok lt q" and step: "queue_step lt op q = Inr (out, q')" and "\<not> removes_many op"
  shows "mset out + mset (iter_requests lt q') + removed_by op = mset (iter_requests lt q) + added_by lt op"
proof (cases op)
  case PopOp
  from ok show ?thesis by (cases rule: pop_request_cases) (use step PopOp in simp_all)
next
  case (RemoveOp r)
  from ok show ?thesis
    by (cases rule: remove_request_cases [where r = r]) (use step RemoveOp in simp_all)
qed (use assms rq.add_law [OF ok] rq.prepend_law [OF ok] prepend_requests_ok [OF ok] in auto)

lemma run_queue_conserves:
  assumes "queue_ok lt q" and "run_steps (queue_step lt) ops q = Inr (out, q')" and "\<not> list_ex removes_many ops"
  shows "mset out + mset (iter_requests lt q') + sum_list (map removed_by ops) =
    mset (iter_requests lt q) + sum_list (map (added_by lt) ops)"
  using assms
proof (induction ops arbitrary: q out)
  case (Cons op ops)
  from Cons.prems(2) obtain o1 q1 o2 where run: "queue_step lt op q = Inr (o1, q1)"
    "run_steps (queue_step lt) ops q1 = Inr (o2, q')" "out = o1 @ o2"
    by (auto simp: bindE_eq_Inr)
  have "mset o1 + mset (iter_requests lt q1) + removed_by op = mset (iter_requests lt q) + added_by lt op"
    using queue_step_conserves [OF Cons.prems(1) run(1)] Cons.prems(3) by simp
  moreover have "mset o2 + mset (iter_requests lt q') + sum_list (map removed_by ops) =
      mset (iter_requests lt q1) + sum_list (map (added_by lt) ops)"
    using Cons.IH [OF queue_step_ok [OF Cons.prems(1) run(1)] run(2)] Cons.prems(3) by simp
  ultimately show ?case by (simp add: run(3)) (metis add.assoc add.commute)
qed simp

end

section \<open>Properties\<close>

text \<open>
  C10: Whatever sequence of operations is run on a fresh priority queue, it serves the same requests
  in the same order, raises the same exceptions and iterates in the same order as a plain list kept
  sorted by \<^verbatim>\<open>Request.__lt__\<close>; the layout of the heap never shows.
\<close>

theorem priority_queue_refines_sorted_list:
  assumes "inj (\<lambda>a. obj_id (store a))"
  shows "map_sum id (\<lambda>(served, q). (served, iter_requests (ref_lt store) q))
      (run_steps (queue_step (ref_lt store)) ops (create_request_queue PRIORITY)) =
    run_steps (sorted_step (ref_lt store)) ops []"
proof -
  have "ref_lt store a b \<or> ref_lt store b a" if "a \<noteq> b" for a b
    using that assms by (auto simp: ref_lt_def inj_def intro!: request_lt_total)
  from req.priority_run_refines [OF this, of "[]" ops] show ?thesis
    by (simp add: create_request_queue_def heap_from_def)
qed

theorem priority_queue_refines_sorted_list_witness:
  "map_sum id (\<lambda>(served, q). (served, iter_requests (ref_lt (\<lambda>n. plain_request n ''a'' [])) q))
      (run_steps (queue_step (ref_lt (\<lambda>n. plain_request n ''a'' [])))
        [AddOp 7, AddOp 3, AddOp 5, PopOp, RemoveOp 7] (create_request_queue PRIORITY)) =
    Inr ([3], [5])"
  using priority_queue_refines_sorted_list [of "\<lambda>n. plain_request n ''a'' []" "[AddOp 7, AddOp 3, AddOp 5, PopOp, RemoveOp 7]"]
  by (simp add: inj_def ref_lt_def request_lt_def)

text \<open>
  C30: No request is lost or served twice. After any sequence of operations on a queue of either
  policy (removals of whole sets aside), what was served, what was removed by name and what is in
  the queue are together what was added; and popping the queue as often as its length says serves
  exactly its requests, in iteration order, after which it is empty and a further pop raises
  \<^verbatim>\<open>IndexError\<close>.
\<close>

theorem queue_serves_every_request:
  assumes "run_steps (queue_step (ref_lt store)) ops (create_request_queue policy) = Inr (served, q)"
    and "\<not> list_ex removes_many ops"
  shows "mset served + mset (iter_requests (ref_lt store) q) + sum_list (map removed_by ops) =
      sum_list (map (added_by (ref_lt store)) ops) \<and>
    (\<exists>q'. pops (pop_request (ref_lt store)) (nat (queue_len q)) q = Inr (iter_requests (ref_lt store) q, q') \<and>
       queue_len q' = 0 \<and> pop_request (ref_lt store) q' = Inl IndexError)"
proof -
  have ok: "queue_ok (ref_lt store) q" by (rule req.run_queue_ok [OF _ assms(1)]) simp
  have empty: "iter_requests (ref_lt store) (create_request_queue policy) = []"
    by (simp add: create_request_queue_def split: scheduling_policy.split)
  from req.run_queue_conserves [OF _ assms] empty req.rq.drain [OF ok] req.rq.len_law [OF ok]
  show ?thesis by auto
qed

theorem queue_serves_every_request_witness:
  "\<exists>q'. pops (pop_request (ref_lt (\<lambda>n. plain_request n ''a'' []))) 2 (FCFSRequestQueue [7, 3]) = Inr ([7, 3], q') \<and>
     queue_len q' = 0"
  using queue_serves_every_request [of "\<lambda>n. plain_request n ''a'' []" "[AddOp 7, AddOp 3]" FCFS "[]" "FCFSRequestQueue [7, 3]"]
  by (auto simp: create_request_queue_def fcfs_add_request_def)

end
