(* ===== verification/Encoder_Cache.thy ===== *)
theory Encoder_Cache
  imports Request_Model "HOL-Library.AList"
begin

text \<open>
  \<^verbatim>\<open>vllm/v1/core/encoder_cache_manager.py\<close>: the reference-counted cache of multi-modal encoder
  outputs, the manager that encoder-decoder models use instead, and the encoder budget.

  A set of request ids is a \<open>set\<close>, the ordered dictionary \<^verbatim>\<open>freeable\<close> an association list in
  insertion order. \<open>order\<close> is the order in which Python iterates over a set of input ids.
  Two inputs with the same content hash have the same number of embeddings: \<open>sized sz r\<close> says that
  the inputs of \<open>r\<close> have the sizes \<open>sz\<close> gives to their hashes.

  Shown: \<open>enc_inv\<close> (slots add up, the entries without a reference are exactly the freeable ones) is
  kept by every operation; \<^verbatim>\<open>can_allocate\<close> succeeds exactly when free and reclaimable slots suffice,
  evicts the oldest unreferenced entries only and never fails; \<^verbatim>\<open>free\<close> makes evictable exactly the
  entries that only the freed request referred to.
\<close>

section \<open>The manager\<close>

record encoder_cache_manager =
  cache_size :: int
  num_free_slots :: int
  num_freeable_slots :: int
  cached :: "string \<rightharpoonup> string set"
  freeable :: "(string \<times> int) list"
  freed :: "string list"

definition init_encoder_cache :: "int \<Rightarrow> encoder_cache_manager" where
  "init_encoder_cache slots =
     \<lparr>cache_size = slots, num_free_slots = slots, num_freeable_slots = slots, cached = Map.empty,
      freeable = [], freed = []\<rparr>"

definition encoder_cache_reset :: "encoder_cache_manager \<Rightarrow> encoder_cache_manager" where
  "encoder_cache_reset m =
     m\<lparr>cached := Map.empty, freeable := [], freed := [], num_free_slots := cache_size m,
       num_freeable_slots := cache_size m\<rparr>"

definition check_and_update_cache ::
    "encoder_cache_manager \<Rightarrow> request \<Rightarrow> int \<Rightarrow> (bool \<times> encoder_cache_manager) res" where
  "check_and_update_cache m r input_id =
     bindE (py_get (mm_features r) input_id) (\<lambda>f.
       let mm_hash = mm_identifier f in
       case cached m mm_hash of
         None \<Rightarrow> Inr (False, m)
       | Some refs \<Rightarrow>
           bindE (if refs = {}
                  then (case map_of (freeable m) mm_hash of
                          None \<Rightarrow> Inl KeyError
                        | Some n \<Rightarrow> Inr (m\<lparr>freeable := AList.delete mm_hash (freeable m),
                                         num_freeable_slots := num_freeable_slots m - n\<rparr>))
                  else Inr m) (\<lambda>m1.
             Inr (True, m1\<lparr>cached := (cached m1)(mm_hash \<mapsto> insert (request_id r) refs)\<rparr>)))"

function evict_loop :: "int \<Rightarrow> encoder_cache_manager \<Rightarrow> encoder_cache_manager res" where
  "evict_loop num_embeds m =
     (if num_free_slots m < num_embeds
      then (case freeable m of
              [] \<Rightarrow> Inl KeyError
            | (mm_hash, num_free_embeds) # rest \<Rightarrow>
                if cached m mm_hash = None then Inl KeyError
                else evict_loop num_embeds
                  (m\<lparr>freeable := rest, cached := (cached m)(mm_hash := None), freed := freed m @ [mm_hash],
                     num_free_slots := num_free_slots m + num_free_embeds\<rparr>))
      else Inr m)"
  by pat_completeness auto
termination
  by (relation "measure (\<lambda>(n, m). length (freeable m))") auto

declare evict_loop.simps [simp del]

definition can_allocate ::
    "encoder_cache_manager \<Rightarrow> request \<Rightarrow> int \<Rightarrow> int \<Rightarrow> int \<Rightarrow> (bool \<times> encoder_cache_manager) res" where
  "can_allocate m r input_id encoder_compute_budget num_embeds_to_schedule =
     bindE (get_num_encoder_embeds r input_id) (\<lambda>n.
       if encoder_compute_budget < n then Inr (False, m)
       else let num_embeds = n + num_embeds_to_schedule in
         if num_embeds \<le> num_free_slots m then Inr (True, m)
         else if num_freeable_slots m < num_embeds then Inr (False, m)
         else bindE (evict_loop num_embeds m) (\<lambda>m1. Inr (True, m1)))"

definition encoder_allocate ::
    "encoder_cache_manager \<Rightarrow> request \<Rightarrow> int \<Rightarrow> encoder_cache_manager res" where
  "encoder_allocate m r input_id =
     bindE (py_get (mm_features r) input_id) (\<lambda>f.
       let mm_hash = mm_identifier f;
           refs = (case cached m mm_hash of None \<Rightarrow> {} | Some s \<Rightarrow> s)
       in bindE (get_num_encoder_embeds r input_id) (\<lambda>n.
         assertE (n \<le> num_free_slots m)
         (assertE (n \<le> num_freeable_slots m)
         (Inr (m\<lparr>cached := (cached m)(mm_hash \<mapsto> insert (request_id r) refs),
                 num_free_slots := num_free_slots m - n,
                 num_freeable_slots := num_freeable_slots m - n\<rparr>)))))"

definition get_cached_input_ids :: "encoder_cache_manager \<Rightarrow> request \<Rightarrow> int list" where
  "get_cached_input_ids m r =
     filter (\<lambda>i. cached m (mm_identifier (mm_features r ! nat i)) \<noteq> None) [0..int (length (mm_features r)) - 1]"

definition free_encoder_input ::
    "encoder_cache_manager \<Rightarrow> request \<Rightarrow> int \<Rightarrow> encoder_cache_manager res" where
  "free_encoder_input m r input_id =
     bindE (py_get (mm_features r) input_id) (\<lambda>f.
       let mm_hash = mm_identifier f in
       case cached m mm_hash of
         None \<Rightarrow> Inr m
       | Some refs \<Rightarrow>
           if refs = {} then Inr m
           else let refs' = refs - {request_id r};
                    m1 = m\<lparr>cached := (cached m)(mm_hash \<mapsto> refs')\<rparr>
                in if refs' = {}
                   then bindE (get_num_encoder_embeds r input_id) (\<lambda>n.
                     Inr (m1\<lparr>freeable := AList.update mm_hash n (freeable m1),
                             num_freeable_slots := num_freeable_slots m1 + n\<rparr>))
                   else Inr m1)"

definition encoder_free ::
    "(int list \<Rightarrow> int list) \<Rightarrow> encoder_cache_manager \<Rightarrow> request \<Rightarrow> encoder_cache_manager res" where
  "encoder_free order m r =
     fold_res (\<lambda>input_id m'. free_encoder_input m' r input_id) (order (get_cached_input_ids m r)) m"

definition get_freed_mm_hashes :: "encoder_cache_manager \<Rightarrow> string list \<times> encoder_cache_manager" where
  "get_freed_mm_hashes m = (freed m, m\<lparr>freed := []\<rparr>)"

text \<open>The budget: the scheduler configuration as four arguments, the mapping as its values.\<close>

definition compute_mm_encoder_budget ::
    "bool \<Rightarrow> int \<Rightarrow> int \<Rightarrow> int \<Rightarrow> int list \<Rightarrow> (int \<times> int) res" where
  "compute_mm_encoder_budget disable_chunked_mm_input max_num_batched_tokens
       max_num_encoder_input_tokens cfg_encoder_cache_size mm_max_toks_per_item =
     (if mm_max_toks_per_item = [] then Inr (0, 0)
      else let max_tokens_per_mm_item = Max (set mm_max_toks_per_item)
        in if disable_chunked_mm_input \<and> max_num_batched_tokens < max_tokens_per_mm_item
           then Inl ValueError
           else Inr (max max_num_encoder_input_tokens max_tokens_per_mm_item,
                     max cfg_encoder_cache_size max_tokens_per_mm_item))"

section \<open>The manager of encoder-decoder models\<close>

record encdec_cache_manager =
  ed_cache_size :: int
  ed_num_free_slots :: int
  ed_allocated :: "string list"
  ed_to_free :: "string list"

definition init_encdec_cache :: "int \<Rightarrow> encdec_cache_manager" where
  "init_encdec_cache slots =
     \<lparr>ed_cache_size = slots, ed_num_free_slots = slots, ed_allocated = [], ed_to_free = []\<rparr>"

definition encdec_reset :: "encdec_cache_manager \<Rightarrow> encdec_cache_manager" where
  "encdec_reset m = m\<lparr>ed_num_free_slots := ed_cache_size m, ed_allocated := [], ed_to_free := []\<rparr>"

definition encdec_check_and_update_cache ::
    "encdec_cache_manager \<Rightarrow> request \<Rightarrow> int \<Rightarrow> (bool \<times> encdec_cache_manager) res" where
  "encdec_check_and_update_cache m r input_id = Inr (False, m)"

definition encdec_can_allocate ::
    "encdec_cache_manager \<Rightarrow> request \<Rightarrow> int \<Rightarrow> int \<Rightarrow> int \<Rightarrow> (bool \<times> encdec_cache_manager) res" where
  "encdec_can_allocate m r input_id encoder_compute_budget num_embeds_to_schedule =
     bindE (get_num_encoder_embeds r input_id) (\<lambda>n.
       if encoder_compute_budget < n then Inr (False, m)
       else Inr (n + num_embeds_to_schedule \<le> ed_num_free_slots m, m))"

definition encdec_allocate :: "encdec_cache_manager \<Rightarrow> request \<Rightarrow> int \<Rightarrow> encdec_cache_manager res" where
  "encdec_allocate m r input_id =
     bindE (get_num_encoder_embeds r input_id) (\<lambda>n.
     bindE (py_get (mm_features r) input_id) (\<lambda>f.
       Inr (m\<lparr>ed_num_free_slots := ed_num_free_slots m - n,
              ed_allocated := ed_allocated m @ [mm_identifier f]\<rparr>)))"

definition encdec_free_encoder_input ::
    "encdec_cache_manager \<Rightarrow> request \<Rightarrow> int \<Rightarrow> encdec_cache_manager res" where
  "encdec_free_encoder_input m r input_id =
     bindE (get_num_encoder_embeds r input_id) (\<lambda>n.
       Inr (m\<lparr>ed_num_free_slots := ed_num_free_slots m + n\<rparr>))"

definition encdec_free :: "encdec_cache_manager \<Rightarrow> request \<Rightarrow> encdec_cache_manager res" where
  "encdec_free m r =
     fold_res (\<lambda>input_id m'. encdec_free_encoder_input m' r input_id) [0..int (length (mm_features r)) - 1] m"

definition encdec_get_cached_input_ids :: "encdec_cache_manager \<Rightarrow> request \<Rightarrow> int list" where
  "encdec_get_cached_input_ids m r = [0..int (length (mm_features r)) - 1]"

definition encdec_get_freed_mm_hashes :: "encdec_cache_manager \<Rightarrow> string list \<times> encdec_cache_manager" where
  "encdec_get_freed_mm_hashes m =
     (ed_to_free m, m\<lparr>ed_to_free := ed_allocated m, ed_allocated := []\<rparr>)"

section \<open>The invariant\<close>

definition sized :: "(string \<Rightarrow> int) \<Rightarrow> request \<Rightarrow> bool" where
  "sized sz r \<longleftrightarrow> (\<forall>f \<in> set (mm_features r). get_num_embeds (mm_position f) = sz (mm_identifier f))"

definition input_hash :: "request \<Rightarrow> int \<Rightarrow> string" where
  "input_hash r i = mm_identifier (mm_features r ! nat i)"

definition input_ok :: "request \<Rightarrow> int \<Rightarrow> bool" where
  "input_ok r i \<longleftrightarrow> 0 \<le> i \<and> i < int (length (mm_features r))"

definition enc_inv :: "(string \<Rightarrow> int) \<Rightarrow> encoder_cache_manager \<Rightarrow> bool" where
  "enc_inv sz m \<longleftrightarrow>
     (\<forall>h. 0 \<le> sz h) \<and> finite (dom (cached m)) \<and> distinct (map fst (freeable m)) \<and>
     (\<forall>h. cached m h = Some {} \<longleftrightarrow> h \<in> fst ` set (freeable m)) \<and>
     (\<forall>(h, n) \<in> set (freeable m). n = sz h) \<and>
     num_freeable_slots m = num_free_slots m + sum_list (map snd (freeable m)) \<and>
     cache_size m = num_free_slots m + (\<Sum>h \<in> dom (cached m). sz h) \<and> 0 \<le> num_free_slots m"

lemma sized_get_num_encoder_embeds:
  assumes "sized sz r" and "input_ok r i"
  shows "get_num_encoder_embeds r i = Inr (sz (input_hash r i))"
proof -
  have "mm_features r ! nat i \<in> set (mm_features r)"
    using assms(2) by (simp add: input_ok_def nat_less_iff)
  with assms show ?thesis
    by (simp add: get_num_encoder_embeds_def input_ok_def input_hash_def py_get_nonneg sized_def)
qed

lemma input_ok_py_get: "input_ok r i \<Longrightarrow> py_get (mm_features r) i = Inr (mm_features r ! nat i)"
  by (simp add: input_ok_def py_get_nonneg)

lemmas input_simps = input_ok_py_get sized_get_num_encoder_embeds

lemma enc_inv_init: "(\<And>h. 0 \<le> sz h) \<Longrightarrow> 0 \<le> n \<Longrightarrow> enc_inv sz (init_encoder_cache n)"
  by (simp add: enc_inv_def init_encoder_cache_def)

lemma enc_inv_size_nonneg: "enc_inv sz m \<Longrightarrow> 0 \<le> cache_size m"
  by (auto simp: enc_inv_def intro!: add_nonneg_nonneg sum_nonneg)

lemma enc_inv_reset: "enc_inv sz m \<Longrightarrow> enc_inv sz (encoder_cache_reset m)"
  using enc_inv_size_nonneg [of sz m] by (simp add: enc_inv_def encoder_cache_reset_def)

lemma enc_inv_freed [simp]: "enc_inv sz (m\<lparr>freed := xs\<rparr>) = enc_inv sz m"
  by (simp add: enc_inv_def)

lemma enc_inv_freeable_nonneg:
  assumes "enc_inv sz m"
  shows "0 \<le> sum_list (map snd (freeable m))"
  using assms by (intro sum_list_nonneg) (auto simp: enc_inv_def)

lemma enc_inv_free_le: "enc_inv sz m \<Longrightarrow> num_free_slots m \<le> num_freeable_slots m"
  using enc_inv_freeable_nonneg [of sz m] by (simp add: enc_inv_def)

lemma freeable_iff: "enc_inv sz m \<Longrightarrow> h \<in> fst ` set (freeable m) \<longleftrightarrow> cached m h = Some {}"
  by (simp add: enc_inv_def)

lemma map_of_freeable: "enc_inv sz m \<Longrightarrow> cached m h = Some {} \<Longrightarrow> map_of (freeable m) h = Some (sz h)"
  by (auto simp: enc_inv_def map_of_eq_Some_iff)

lemma sum_delete:
  "distinct (map fst al) \<Longrightarrow> map_of al h = Some n \<Longrightarrow>
   sum_list (map snd (AList.delete h al)) = sum_list (map snd al) - (n :: int)"
proof (induction al)
  case (Cons p al)
  obtain k v where p: "p = (k, v)" by (cases p)
  show ?case
  proof (cases "k = h")
    case True
    with Cons.prems have "h \<notin> fst ` set al" by (auto simp: p image_iff)
    with True Cons.prems show ?thesis by (simp add: p)
  next
    case False
    with Cons show ?thesis by (simp add: p)
  qed
qed simp

lemma update_fresh: "h \<notin> fst ` set al \<Longrightarrow> AList.update h n al = al @ [(h, n)]"
  by (induction al) auto

section \<open>Every operation keeps it\<close>

text \<open>Adding a reference, with the entry no longer freeable.\<close>

lemma check_and_update_cache_spec:
  assumes inv: "enc_inv sz m" and i: "input_ok r i"
  shows "case cached m (input_hash r i) of
      None \<Rightarrow> check_and_update_cache m r i = Inr (False, m)
    | Some refs \<Rightarrow> (\<exists>m'. check_and_update_cache m r i = Inr (True, m') \<and> enc_inv sz m' \<and>
        num_free_slots m' = num_free_slots m \<and> freed m' = freed m \<and> cache_size m' = cache_size m \<and>
        cached m' = (cached m)(input_hash r i \<mapsto> insert (request_id r) refs))"
proof (cases "cached m (input_hash r i)")
  case None
  then show ?thesis
    by (simp add: check_and_update_cache_def input_ok_py_get [OF i] input_hash_def)
next
  case (Some refs)
  let ?h = "input_hash r i"
  define m1 where "m1 = (if refs = {} then m\<lparr>freeable := AList.delete ?h (freeable m),
      num_freeable_slots := num_freeable_slots m - sz ?h\<rparr> else m)"
  define m' where "m' = m1\<lparr>cached := (cached m1)(?h \<mapsto> insert (request_id r) refs)\<rparr>"
  have run: "check_and_update_cache m r i = Inr (True, m')"
    using Some map_of_freeable [OF inv, of ?h]
    by (simp add: check_and_update_cache_def input_ok_py_get [OF i] input_hash_def m'_def m1_def Let_def)
  have dom: "dom (cached m') = dom (cached m)" using Some by (auto simp: m'_def m1_def)
  have "enc_inv sz m'"
  proof (cases "refs = {}")
    case True
    have "sum_list (map snd (AList.delete ?h (freeable m))) = sum_list (map snd (freeable m)) - sz ?h"
      using inv True Some by (intro sum_delete map_of_freeable) (simp_all add: enc_inv_def)
    moreover have keys: "fst ` set (AList.delete ?h (freeable m)) = fst ` set (freeable m) - {?h}"
      by (metis delete_keys set_map set_removeAll)
    moreover have "set (AList.delete ?h (freeable m)) \<subseteq> set (freeable m)" by (auto simp: AList.delete_eq)
    then have "\<forall>(h, n) \<in> set (AList.delete ?h (freeable m)). n = sz h"
      using inv unfolding enc_inv_def by blast
    moreover have "distinct (map fst (AList.delete ?h (freeable m)))"
      using inv by (intro distinct_delete) (simp add: enc_inv_def)
    ultimately show ?thesis
      using inv True dom by (simp add: enc_inv_def m'_def m1_def)
  next
    case False
    then have "?h \<notin> fst ` set (freeable m)" using Some freeable_iff [OF inv, of ?h] by simp
    with inv False dom show ?thesis by (simp add: enc_inv_def m'_def m1_def)
  qed
  with run show ?thesis by (simp add: Some m'_def m1_def)
qed

lemma evict_oldest_inv:
  assumes inv: "enc_inv sz m" and fr: "freeable m = (h, n) # rest"
  shows "cached m h = Some {}" and "n = sz h"
    and "enc_inv sz (m\<lparr>freeable := rest, cached := (cached m)(h := None), freed := freed m @ [h],
           num_free_slots := num_free_slots m + n\<rparr>)"
proof -
  show h: "cached m h = Some {}" and n: "n = sz h" using inv fr by (auto simp: enc_inv_def)
  have notin: "h \<notin> fst ` set rest" using inv fr by (simp add: enc_inv_def)
  have "(\<Sum>h' \<in> dom (cached m). sz h') = sz h + (\<Sum>h' \<in> dom (cached m) - {h}. sz h')"
    using inv h by (intro sum.remove) (auto simp: enc_inv_def)
  with inv fr notin n show "enc_inv sz (m\<lparr>freeable := rest, cached := (cached m)(h := None),
      freed := freed m @ [h], num_free_slots := num_free_slots m + n\<rparr>)"
    by (auto simp: enc_inv_def)
qed

text \<open>The eviction loop drops the shortest prefix of the freeable entries that makes enough room.\<close>

definition evict_first :: "nat \<Rightarrow> encoder_cache_manager \<Rightarrow> encoder_cache_manager" where
  "evict_first k m =
     m\<lparr>freeable := drop k (freeable m), cached := cached m |` (- (fst ` set (take k (freeable m)))),
       freed := freed m @ map fst (take k (freeable m)),
       num_free_slots := num_free_slots m + sum_list (map snd (take k (freeable m)))\<rparr>"

lemma evict_first_0 [simp]: "evict_first 0 m = m"
  by (simp add: evict_first_def restrict_map_def)

lemma evict_first_Suc:
  assumes "freeable m = (h, n) # rest"
  shows "evict_first (Suc k) m =
    evict_first k (m\<lparr>freeable := rest, cached := (cached m)(h := None), freed := freed m @ [h],
      num_free_slots := num_free_slots m + n\<rparr>)"
  using assms by (simp add: evict_first_def restrict_map_def fun_eq_iff)

lemma evict_loop_spec:
  assumes "enc_inv sz m" and "n \<le> num_freeable_slots m"
  shows "\<exists>k. evict_loop n m = Inr (evict_first k m) \<and> enc_inv sz (evict_first k m) \<and>
    n \<le> num_free_slots (evict_first k m) \<and> k \<le> length (freeable m) \<and>
    (\<forall>j < k. num_free_slots (evict_first j m) < n)"
  using assms
proof (induction "freeable m" arbitrary: m)
  case Nil
  then have "n \<le> num_free_slots m" by (simp add: enc_inv_def)
  with Nil show ?case by (intro exI [of _ 0]) (simp add: evict_loop.simps)
next
  case (Cons p rest)
  obtain h k where p: "p = (h, k)" by (cases p)
  note fr = Cons.hyps(2) [unfolded p, symmetric]
  show ?case
  proof (cases "n \<le> num_free_slots m")
    case True
    with Cons.prems show ?thesis by (intro exI [of _ 0]) (simp add: evict_loop.simps)
  next
    case False
    let ?m1 = "m\<lparr>freeable := rest, cached := (cached m)(h := None), freed := freed m @ [h],
      num_free_slots := num_free_slots m + k\<rparr>"
    note one = evict_oldest_inv [OF Cons.prems(1) fr]
    have run: "evict_loop n m = evict_loop n ?m1"
      using False one(1) by (subst evict_loop.simps) (simp add: fr)
    from Cons.hyps(1) [of ?m1, OF _ one(3)] Cons.prems(2)
    obtain j where j: "evict_loop n ?m1 = Inr (evict_first j ?m1)" "enc_inv sz (evict_first j ?m1)"
      "n \<le> num_free_slots (evict_first j ?m1)" "j \<le> length rest"
      "\<forall>i < j. num_free_slots (evict_first i ?m1) < n" by auto
    have "num_free_slots (evict_first i m) < n" if "i < Suc j" for i
      using that j(5) False evict_first_Suc [OF fr] by (cases i) simp_all
    with run j show ?thesis
      by (intro exI [of _ "Suc j"]) (simp add: evict_first_Suc [OF fr] fr)
  qed
qed

lemma can_allocate_spec:
  assumes inv: "enc_inv sz m" and i: "input_ok r i" and "sized sz r"
  defines "n \<equiv> sz (input_hash r i)"
  shows "\<exists>k. can_allocate m r i budget scheduled =
      Inr (n \<le> budget \<and> n + scheduled \<le> num_freeable_slots m, evict_first k m) \<and>
    enc_inv sz (evict_first k m) \<and> k \<le> length (freeable m) \<and>
    (n \<le> budget \<and> n + scheduled \<le> num_freeable_slots m \<longrightarrow>
       n + scheduled \<le> num_free_slots (evict_first k m)) \<and>
    (\<forall>j < k. num_free_slots (evict_first j m) < n + scheduled) \<and>
    (\<not> (n \<le> budget \<and> n + scheduled \<le> num_freeable_slots m) \<longrightarrow> k = 0)"
proof -
  have get: "get_num_encoder_embeds r i = Inr n"
    unfolding n_def using assms by (simp add: input_simps)
  consider "budget < n" | "n \<le> budget" "n + scheduled \<le> num_free_slots m"
    | "n \<le> budget" "num_free_slots m < n + scheduled" "num_freeable_slots m < n + scheduled"
    | "n \<le> budget" "num_free_slots m < n + scheduled" "n + scheduled \<le> num_freeable_slots m" by linarith
  then show ?thesis
  proof cases
    case 4
    from evict_loop_spec [OF inv 4(3)] obtain k where
      "evict_loop (n + scheduled) m = Inr (evict_first k m)" "enc_inv sz (evict_first k m)"
      "n + scheduled \<le> num_free_slots (evict_first k m)" "k \<le> length (freeable m)"
      "\<forall>j < k. num_free_slots (evict_first j m) < n + scheduled" by blast
    with 4 show ?thesis
      by (intro exI [of _ k]) (simp add: can_allocate_def get Let_def)
  qed (use inv enc_inv_free_le [OF inv] in
      \<open>intro exI [of _ 0]; simp add: can_allocate_def get Let_def\<close>)+
qed

lemma encoder_allocate_spec:
  assumes inv: "enc_inv sz m" and i: "input_ok r i" and "sized sz r"
    and fresh: "cached m (input_hash r i) = None" and room: "sz (input_hash r i) \<le> num_free_slots m"
  shows "\<exists>m'. encoder_allocate m r i = Inr m' \<and> enc_inv sz m' \<and>
    num_free_slots m' = num_free_slots m - sz (input_hash r i) \<and> freed m' = freed m \<and>
    cache_size m' = cache_size m \<and> freeable m' = freeable m \<and>
    cached m' = (cached m)(input_hash r i \<mapsto> {request_id r})"
proof -
  let ?h = "input_hash r i"
  define m' where "m' = m\<lparr>cached := (cached m)(?h \<mapsto> {request_id r}),
      num_free_slots := num_free_slots m - sz ?h, num_freeable_slots := num_freeable_slots m - sz ?h\<rparr>"
  have "?h \<notin> dom (cached m)" using fresh by auto
  then have "(\<Sum>h \<in> dom (cached m'). sz h) = sz ?h + (\<Sum>h \<in> dom (cached m). sz h)"
    using inv by (simp add: m'_def enc_inv_def)
  moreover have "?h \<notin> fst ` set (freeable m)" using fresh freeable_iff [OF inv, of ?h] by simp
  ultimately have "enc_inv sz m'" using inv room by (simp add: enc_inv_def m'_def)
  moreover have "encoder_allocate m r i = Inr m'"
    using fresh room enc_inv_free_le [OF inv] assms
    by (simp add: encoder_allocate_def input_simps m'_def Let_def flip: input_hash_def)
  ultimately show ?thesis by (simp add: m'_def)
qed

lemma free_encoder_input_spec:
  assumes inv: "enc_inv sz m" and i: "input_ok r i" and "sized sz r"
  shows "\<exists>m'. free_encoder_input m r i = Inr m' \<and> enc_inv sz m' \<and>
    num_free_slots m' = num_free_slots m \<and> freed m' = freed m \<and> cache_size m' = cache_size m \<and>
    cached m' = (case cached m (input_hash r i) of None \<Rightarrow> cached m
      | Some refs \<Rightarrow> (cached m)(input_hash r i \<mapsto> refs - {request_id r})) \<and>
    (\<exists>new. freeable m' = freeable m @ new)"
proof (cases "cached m (input_hash r i)")
  case None
  with assms show ?thesis by (simp add: free_encoder_input_def input_simps flip: input_hash_def)
next
  case (Some refs)
  let ?h = "input_hash r i" and ?refs = "refs - {request_id r}"
  define m1 where "m1 = m\<lparr>cached := (cached m)(?h \<mapsto> ?refs)\<rparr>"
  define m' where "m' = (if ?refs = {} then m1\<lparr>freeable := AList.update ?h (sz ?h) (freeable m),
      num_freeable_slots := num_freeable_slots m + sz ?h\<rparr> else m1)"
  show ?thesis
  proof (cases "refs = {}")
    case True
    with assms Some show ?thesis
      by (intro exI [of _ m]) (auto simp: free_encoder_input_def input_simps simp flip: input_hash_def)
  next
    case False
    then have notin: "?h \<notin> fst ` set (freeable m)" using Some freeable_iff [OF inv, of ?h] by simp
    have dom: "dom (cached m') = dom (cached m)" using Some by (auto simp: m'_def m1_def)
    have "enc_inv sz m'"
      using inv dom notin by (auto simp: enc_inv_def m'_def m1_def update_fresh)
    moreover have "free_encoder_input m r i = Inr m'"
      using False Some assms
      by (simp add: free_encoder_input_def input_simps m'_def m1_def Let_def flip: input_hash_def)
    moreover have "\<exists>new. freeable m' = freeable m @ new"
      using notin by (simp add: m'_def m1_def update_fresh)
    ultimately show ?thesis by (simp add: Some m'_def m1_def)
  qed
qed

definition drop_refs :: "string \<Rightarrow> string set \<Rightarrow> (string \<rightharpoonup> string set) \<Rightarrow> (string \<rightharpoonup> string set)" where
  "drop_refs rid hs c = (\<lambda>h. map_option (\<lambda>refs. if h \<in> hs then refs - {rid} else refs) (c h))"

lemma drop_refs_empty [simp]: "drop_refs rid {} c = c"
  by (simp add: drop_refs_def option.map_ident fun_eq_iff)

lemma drop_refs_insert:
  "(case drop_refs rid hs c h of None \<Rightarrow> drop_refs rid hs c
    | Some refs \<Rightarrow> (drop_refs rid hs c)(h \<mapsto> refs - {rid})) = drop_refs rid (insert h hs) c"
proof (rule ext)
  fix x
  show "(case drop_refs rid hs c h of None \<Rightarrow> drop_refs rid hs c
      | Some refs \<Rightarrow> (drop_refs rid hs c)(h \<mapsto> refs - {rid})) x = drop_refs rid (insert h hs) c x"
    by (cases "c h"; cases "x = h") (auto simp: drop_refs_def)
qed

lemma encoder_free_spec:
  assumes inv: "enc_inv sz m" and r: "sized sz r"
    and order: "set (order (get_cached_input_ids m r)) = set (get_cached_input_ids m r)"
  shows "\<exists>m'. encoder_free order m r = Inr m' \<and> enc_inv sz m' \<and>
    num_free_slots m' = num_free_slots m \<and> freed m' = freed m \<and> cache_size m' = cache_size m \<and>
    cached m' = drop_refs (request_id r) (input_hash r ` set (get_cached_input_ids m r)) (cached m) \<and>
    (\<exists>new. freeable m' = freeable m @ new)"
proof -
  let ?I = "\<lambda>bs m'. enc_inv sz m' \<and> num_free_slots m' = num_free_slots m \<and> freed m' = freed m \<and>
    cache_size m' = cache_size m \<and> cached m' = drop_refs (request_id r) (input_hash r ` set bs) (cached m) \<and>
    (\<exists>new. freeable m' = freeable m @ new)"
  have "\<exists>m'. fold_res (\<lambda>i m'. free_encoder_input m' r i) (order (get_cached_input_ids m r)) m = Inr m' \<and>
      ?I (order (get_cached_input_ids m r)) m'"
  proof (rule fold_res_invariant)
    fix bs i rest m1
    assume split: "order (get_cached_input_ids m r) = bs @ i # rest" and m1: "?I bs m1"
    have "i \<in> set (get_cached_input_ids m r)" unfolding order [symmetric] by (simp add: split)
    then have "input_ok r i" by (auto simp: get_cached_input_ids_def input_ok_def)
    moreover have c: "cached m1 = drop_refs (request_id r) (input_hash r ` set bs) (cached m)"
      using m1 by simp
    ultimately show "\<exists>m'. free_encoder_input m1 r i = Inr m' \<and> ?I (bs @ [i]) m'"
      using free_encoder_input_spec [OF conjunct1 [OF m1] _ r, of i, unfolded c drop_refs_insert] m1
      by auto
  qed (use inv in simp)
  then show ?thesis by (simp add: encoder_free_def order)
qed

section \<open>Reachable states\<close>

text \<open>
  The operations as the scheduler calls them: \<^verbatim>\<open>allocate\<close> is called for an input that is not cached
  and for which \<^verbatim>\<open>can_allocate\<close> has found or made room.
\<close>

inductive encoder_step :: "(string \<Rightarrow> int) \<Rightarrow> encoder_cache_manager \<Rightarrow> encoder_cache_manager \<Rightarrow> bool"
  for sz where
  step_check: "sized sz r \<Longrightarrow> input_ok r i \<Longrightarrow> check_and_update_cache m r i = Inr (b, m') \<Longrightarrow> encoder_step sz m m'"
| step_can: "sized sz r \<Longrightarrow> input_ok r i \<Longrightarrow> can_allocate m r i budget n = Inr (b, m') \<Longrightarrow> encoder_step sz m m'"
| step_allocate: "sized sz r \<Longrightarrow> input_ok r i \<Longrightarrow> cached m (input_hash r i) = None \<Longrightarrow>
    sz (input_hash r i) \<le> num_free_slots m \<Longrightarrow> encoder_allocate m r i = Inr m' \<Longrightarrow> encoder_step sz m m'"
| step_free_input: "sized sz r \<Longrightarrow> input_ok r i \<Longrightarrow> free_encoder_input m r i = Inr m' \<Longrightarrow> encoder_step sz m m'"
| step_free: "sized sz r \<Longrightarrow> set (order (get_cached_input_ids m r)) = set (get_cached_input_ids m r) \<Longrightarrow>
    encoder_free order m r = Inr m' \<Longrightarrow> encoder_step sz m m'"
| step_take_freed: "encoder_step sz m (snd (get_freed_mm_hashes m))"
| step_reset: "encoder_step sz m (encoder_cache_reset m)"

inductive reachable_encoder :: "(string \<Rightarrow> int) \<Rightarrow> int \<Rightarrow> encoder_cache_manager \<Rightarrow> bool" for sz n where
  reach_init: "reachable_encoder sz n (init_encoder_cache n)"
| reach_step: "reachable_encoder sz n m \<Longrightarrow> encoder_step sz m m' \<Longrightarrow> reachable_encoder sz n m'"

lemma evict_first_keeps [simp]: "cache_size (evict_first k m) = cache_size m"
  by (simp add: evict_first_def)

lemma encoder_step_inv:
  assumes "encoder_step sz m m'" and inv: "enc_inv sz m"
  shows "enc_inv sz m' \<and> cache_size m' = cache_size m"
  using assms(1)
proof cases
  case (step_check r i b)
  with check_and_update_cache_spec [OF inv, of r i] inv show ?thesis
    by (auto split: option.splits)
next
  case (step_can r i budget n b)
  with can_allocate_spec [OF inv, of r i budget n] show ?thesis by auto
next
  case (step_allocate r i)
  with encoder_allocate_spec [OF inv, of r i] show ?thesis by auto
next
  case (step_free_input r i)
  with free_encoder_input_spec [OF inv, of r i] show ?thesis by auto
next
  case (step_free r order)
  with encoder_free_spec [OF inv, of r order] show ?thesis by auto
next
  case step_take_freed
  with inv show ?thesis by (simp add: get_freed_mm_hashes_def)
next
  case step_reset
  with enc_inv_reset [OF inv] show ?thesis by (simp add: encoder_cache_reset_def)
qed

lemma reachable_encoder_inv:
  assumes "reachable_encoder sz n m" and "\<And>h. 0 \<le> sz h" and "0 \<le> n"
  shows "enc_inv sz m \<and> cache_size m = n"
  using assms(1)
proof induction
  case reach_init
  with assms(2,3) show ?case by (simp add: enc_inv_init) (simp add: init_encoder_cache_def)
next
  case (reach_step m m')
  with encoder_step_inv show ?case by blast
qed

lemma freeable_le_cached:
  assumes "enc_inv sz m"
  shows "sum_list (map snd (freeable m)) \<le> (\<Sum>h \<in> dom (cached m). sz h)"
proof -
  have "\<forall>(h, n) \<in> set (freeable m). n = sz h" using assms by (simp add: enc_inv_def)
  then have "map snd (freeable m) = map sz (map fst (freeable m))" by (simp add: case_prod_beta)
  then have "sum_list (map snd (freeable m)) = sum_list (map sz (map fst (freeable m)))" by (rule arg_cong)
  also have "\<dots> = (\<Sum>h \<in> fst ` set (freeable m). sz h)"
    using assms by (subst sum_list_distinct_conv_sum_set) (simp_all add: enc_inv_def)
  also have "\<dots> \<le> (\<Sum>h \<in> dom (cached m). sz h)"
  proof (rule sum_mono2)
    show "finite (dom (cached m))" using assms by (simp add: enc_inv_def)
    have "cached m h = Some {}" if "h \<in> fst ` set (freeable m)" for h
      using freeable_iff [OF assms] that by blast
    then show "fst ` set (freeable m) \<subseteq> dom (cached m)" by blast
  qed (use assms in \<open>simp add: enc_inv_def\<close>)
  finally show ?thesis .
qed

section \<open>Properties\<close>

text \<open>
  C13. In every state the scheduler can bring the encoder cache to, the embeddings of the cached
  entries and the free slots add up to the cache size, free slots are never negative, reclaimable
  slots are between the free slots and the cache size, and the reclaimable entries are exactly the
  cached entries no request refers to.
\<close>

theorem encoder_cache_accounts_for_every_slot:
  assumes "reachable_encoder sz n m" and "\<And>h. 0 \<le> sz h" and "0 \<le> n"
  shows "(\<Sum>h \<in> dom (cached m). sz h) + num_free_slots m = n \<and> 0 \<le> num_free_slots m \<and>
    num_free_slots m \<le> num_freeable_slots m \<and> num_freeable_slots m \<le> n \<and>
    (\<forall>h. cached m h = Some {} \<longleftrightarrow> h \<in> fst ` set (freeable m))"
proof -
  from reachable_encoder_inv [OF assms] have inv: "enc_inv sz m" "cache_size m = n" by simp_all
  with freeable_le_cached [OF inv(1)] enc_inv_free_le [OF inv(1)] show ?thesis
    by (simp add: enc_inv_def)
qed

theorem encoder_cache_accounts_for_every_slot_witness:
  "num_free_slots (init_encoder_cache 9) \<le> num_freeable_slots (init_encoder_cache 9) \<and>
   num_freeable_slots (init_encoder_cache 9) \<le> 9"
  using encoder_cache_accounts_for_every_slot [OF reach_init, of "\<lambda>_. 3" 9] by simp

text \<open>
  C14. In every reachable state \<^verbatim>\<open>can_allocate\<close> returns without an exception. It answers yes exactly
  when the input fits the compute budget and the free and reclaimable slots together; then the free
  slots suffice afterwards. It evicts the oldest unreferenced entries, no more of them than needed,
  reports them as freed, and keeps every entry that a request refers to. When it answers no it
  changes nothing.
\<close>

theorem can_allocate_correct:
  assumes "reachable_encoder sz n m" and "\<And>h. 0 \<le> sz h" and "0 \<le> n" and "sized sz r" and "input_ok r i"
  shows "let need = sz (input_hash r i) + scheduled;
             yes = (sz (input_hash r i) \<le> budget \<and> need \<le> num_freeable_slots m)
    in case can_allocate m r i budget scheduled of
         Inl _ \<Rightarrow> False
       | Inr (b, m') \<Rightarrow> b = yes \<and> (b \<longrightarrow> need \<le> num_free_slots m') \<and> (\<not> b \<longrightarrow> m' = m) \<and>
           (\<forall>h refs. cached m h = Some refs \<longrightarrow> refs \<noteq> {} \<longrightarrow> cached m' h = Some refs) \<and>
           (\<exists>k \<le> length (freeable m). freed m' = freed m @ map fst (take k (freeable m)) \<and>
              freeable m' = drop k (freeable m) \<and>
              (\<forall>j < k. num_free_slots m + sum_list (map snd (take j (freeable m))) < need))"
proof -
  from reachable_encoder_inv [OF assms(1-3)] have inv: "enc_inv sz m" by simp
  let ?need = "sz (input_hash r i) + scheduled"
  let ?yes = "sz (input_hash r i) \<le> budget \<and> ?need \<le> num_freeable_slots m"
  from can_allocate_spec [OF inv assms(5,4), of budget scheduled] obtain k where
    k: "can_allocate m r i budget scheduled = Inr (?yes, evict_first k m)" "k \<le> length (freeable m)"
      "?yes \<longrightarrow> ?need \<le> num_free_slots (evict_first k m)"
      "\<forall>j < k. num_free_slots (evict_first j m) < ?need" "\<not> ?yes \<longrightarrow> k = 0" by blast
  have "h \<notin> fst ` set (take k (freeable m))" if "cached m h = Some refs" "refs \<noteq> {}" for h refs
    using that freeable_iff [OF inv, of h] set_take_subset [of k "freeable m"] by auto
  then have "\<forall>h refs. cached m h = Some refs \<longrightarrow> refs \<noteq> {} \<longrightarrow> cached (evict_first k m) h = Some refs"
    by (simp add: evict_first_def restrict_map_def)
  moreover have "\<exists>k' \<le> length (freeable m). freed (evict_first k m) = freed m @ map fst (take k' (freeable m)) \<and>
      freeable (evict_first k m) = drop k' (freeable m) \<and>
      (\<forall>j < k'. num_free_slots m + sum_list (map snd (take j (freeable m))) < ?need)"
    using k(2,4) by (intro exI [of _ k]) (simp add: evict_first_def)
  moreover have "\<not> ?yes \<longrightarrow> evict_first k m = m" using k(5) by simp
  ultimately show ?thesis
    using k(3) unfolding k(1) Let_def sum.case prod.case by blast
qed

theorem can_allocate_correct_witness:
  "case can_allocate (init_encoder_cache 9)
      ((plain_request 0 ''a'' [1, 2, 3])\<lparr>mm_features :=
        [\<lparr>mm_identifier = ''h'', mm_position = \<lparr>offset = 0, pr_length = 3, is_embed = None\<rparr>\<rparr>]\<rparr>) 0 5 1 of
     Inl _ \<Rightarrow> False | Inr (b, m') \<Rightarrow> b \<and> 4 \<le> num_free_slots m'"
  using can_allocate_correct [OF reach_init, of "\<lambda>_. 3" 9
      "(plain_request 0 ''a'' [1, 2, 3])\<lparr>mm_features :=
        [\<lparr>mm_identifier = ''h'', mm_position = \<lparr>offset = 0, pr_length = 3, is_embed = None\<rparr>\<rparr>]\<rparr>" 0 1 5]
  by (simp add: sized_def input_ok_def get_num_embeds_def embeds_cumsum_def Let_def init_encoder_cache_def
      split: sum.splits prod.splits)

text \<open>The entries that only this request refers to.\<close>

definition last_references :: "encoder_cache_manager \<Rightarrow> request \<Rightarrow> string set" where
  "last_references m r = {h \<in> mm_identifier ` set (mm_features r). cached m h = Some {request_id r}}"

lemma cached_inputs:
  "input_hash r ` set (get_cached_input_ids m r) = {h \<in> mm_identifier ` set (mm_features r). cached m h \<noteq> None}"
proof (intro equalityI subsetI)
  fix h assume "h \<in> {h \<in> mm_identifier ` set (mm_features r). cached m h \<noteq> None}"
  then obtain k where "k < length (mm_features r)" "h = mm_identifier (mm_features r ! k)" "cached m h \<noteq> None"
    by (auto simp: in_set_conv_nth)
  then show "h \<in> input_hash r ` set (get_cached_input_ids m r)"
    by (intro image_eqI [of _ _ "int k"]) (simp_all add: input_hash_def get_cached_input_ids_def)
qed (auto simp: get_cached_input_ids_def input_hash_def nat_less_iff)

lemma freeable_slots:
  assumes "enc_inv sz m"
  shows "num_freeable_slots m = num_free_slots m + (\<Sum>h \<in> fst ` set (freeable m). sz h)"
proof -
  have "map snd (freeable m) = map sz (map fst (freeable m))" using assms by (auto simp: enc_inv_def)
  then have "sum_list (map snd (freeable m)) = (\<Sum>h \<in> set (map fst (freeable m)). sz h)"
    using assms by (simp only: sum_list_distinct_conv_sum_set enc_inv_def)
  then show ?thesis using assms by (simp add: enc_inv_def)
qed

lemma freed_entries:
  assumes inv: "enc_inv sz m" "enc_inv sz m'"
    and cached: "cached m' = drop_refs (request_id r) (input_hash r ` set (get_cached_input_ids m r)) (cached m)"
    and new: "freeable m' = freeable m @ new"
  shows "fst ` set new = last_references m r" and "distinct (map fst new)"
    and "fst ` set (freeable m) \<inter> last_references m r = {}"
proof -
  have keys: "h \<in> fst ` set (freeable m) \<longleftrightarrow> cached m h = Some {}" "h \<in> fst ` set (freeable m') \<longleftrightarrow> cached m' h = Some {}" for h
    using inv by (simp_all add: enc_inv_def)
  have split: "cached m' h = Some {} \<longleftrightarrow> cached m h = Some {} \<or> h \<in> last_references m r" for h
    unfolding cached drop_refs_def cached_inputs last_references_def by auto
  have dist: "distinct (map fst (freeable m) @ map fst new)" using inv(2) by (simp add: enc_inv_def new)
  then show "distinct (map fst new)" by simp
  show old: "fst ` set (freeable m) \<inter> last_references m r = {}"
    unfolding disjoint_iff keys(1) by (simp add: last_references_def)
  have "fst ` set (freeable m) \<union> fst ` set new = fst ` set (freeable m) \<union> last_references m r"
  proof (rule set_eqI)
    fix h
    show "h \<in> fst ` set (freeable m) \<union> fst ` set new \<longleftrightarrow> h \<in> fst ` set (freeable m) \<union> last_references m r"
      using keys [of h] split [of h] unfolding new set_append image_Un Un_iff by blast
  qed
  moreover have "fst ` set (freeable m) \<inter> fst ` set new = {}" using dist by simp
  ultimately show "fst ` set new = last_references m r" using old by blast
qed

text \<open>
  C33. On every reachable cache, freeing a request whose inputs have the sizes of their hashes never fails
  and releases exactly what it held. It loses its references to all
  its inputs, all other references are as before, and no entry leaves the cache. The entries that only
  it referred to, and no others, join the entries that can be evicted, behind those that were there, and
  the reclaimable slots grow by exactly their embeddings, while no slot becomes free yet.
\<close>

theorem encoder_free_releases_last_references:
  assumes "reachable_encoder sz n m" and "\<And>h. 0 \<le> sz h" and "0 \<le> n" and "sized sz r"
    and "set (order (get_cached_input_ids m r)) = set (get_cached_input_ids m r)"
  shows "\<exists>m' new. encoder_free order m r = Inr m' \<and>
    cached m' = (\<lambda>h. map_option (\<lambda>refs. if h \<in> mm_identifier ` set (mm_features r)
                                        then refs - {request_id r} else refs) (cached m h)) \<and>
    freeable m' = freeable m @ new \<and> distinct (map fst new) \<and> fst ` set new = last_references m r \<and>
    (\<forall>(h, k) \<in> set new. k = sz h) \<and>
    num_freeable_slots m' = num_freeable_slots m + (\<Sum>h \<in> last_references m r. sz h) \<and>
    num_free_slots m' = num_free_slots m \<and> freed m' = freed m"
proof -
  from reachable_encoder_inv [OF assms(1-3)] have inv: "enc_inv sz m" by simp
  from encoder_free_spec [OF inv assms(4), where order = order, OF assms(5)] obtain m' new where
    m': "encoder_free order m r = Inr m'" "enc_inv sz m'" "num_free_slots m' = num_free_slots m" "freed m' = freed m"
      "cached m' = drop_refs (request_id r) (input_hash r ` set (get_cached_input_ids m r)) (cached m)"
      "freeable m' = freeable m @ new" by blast
  note entries = freed_entries [OF inv m'(2,5,6)]
  have "cached m' h = map_option (\<lambda>refs. if h \<in> mm_identifier ` set (mm_features r)
      then refs - {request_id r} else refs) (cached m h)" for h
    unfolding m'(5) drop_refs_def cached_inputs by (cases "cached m h") auto
  then have "cached m' = (\<lambda>h. map_option (\<lambda>refs. if h \<in> mm_identifier ` set (mm_features r)
      then refs - {request_id r} else refs) (cached m h))" by (rule ext)
  moreover have "(\<Sum>h \<in> fst ` set (freeable m'). sz h) =
      (\<Sum>h \<in> fst ` set (freeable m). sz h) + (\<Sum>h \<in> last_references m r. sz h)"
    using entries(1,3) by (simp add: m'(6) image_Un sum.union_disjoint flip: entries(1))
  then have "num_freeable_slots m' = num_freeable_slots m + (\<Sum>h \<in> last_references m r. sz h)"
    using freeable_slots [OF inv] freeable_slots [OF m'(2)] m'(3) by simp
  moreover have "\<forall>(h, k) \<in> set new. k = sz h" using m'(2) by (simp add: enc_inv_def m'(6))
  ultimately show ?thesis using m'(1,3,4,6) entries(1,2) by blast
qed

theorem encoder_free_releases_last_references_witness:
  "\<exists>m m'. encoder_allocate (init_encoder_cache 9) ((plain_request 0 ''a'' [1, 2, 3])\<lparr>mm_features :=
        [\<lparr>mm_identifier = ''h'', mm_position = \<lparr>offset = 0, pr_length = 3, is_embed = None\<rparr>\<rparr>]\<rparr>) 0 = Inr m \<and>
     num_freeable_slots m = 6 \<and>
     encoder_free id m ((plain_request 0 ''a'' [1, 2, 3])\<lparr>mm_features :=
        [\<lparr>mm_identifier = ''h'', mm_position = \<lparr>offset = 0, pr_length = 3, is_embed = None\<rparr>\<rparr>]\<rparr>) = Inr m' \<and>
     cached m' ''h'' = Some {} \<and> freeable m' = [(''h'', 3)] \<and> num_freeable_slots m' = 9 \<and> num_free_slots m' = 6"
proof -
  let ?r = "(plain_request 0 ''a'' [1, 2, 3])\<lparr>mm_features :=
      [\<lparr>mm_identifier = ''h'', mm_position = \<lparr>offset = 0, pr_length = 3, is_embed = None\<rparr>\<rparr>]\<rparr>"
  obtain m where m: "encoder_allocate (init_encoder_cache 9) ?r 0 = Inr m" "cached m = [''h'' \<mapsto> {''a''}]"
      "freeable m = []" "num_freeable_slots m = 6" "num_free_slots m = 6"
    by (simp add: encoder_allocate_def init_encoder_cache_def get_num_encoder_embeds_def py_get_nonneg
        get_num_embeds_def embeds_cumsum_def Let_def assertE_def)
  have size: "sized (\<lambda>_. 3) ?r" by (simp add: sized_def get_num_embeds_def embeds_cumsum_def Let_def)
  have reach: "reachable_encoder (\<lambda>_. 3) 9 m"
    by (rule reach_step [OF reach_init step_allocate [OF size _ _ _ m(1)]])
      (simp_all add: input_ok_def init_encoder_cache_def)
  have last: "last_references m ?r = {''h''}" by (auto simp: last_references_def m(2))
  from encoder_free_releases_last_references [OF reach _ _ size, of id] obtain m' new where
      m': "encoder_free id m ?r = Inr m'" "cached m' ''h'' = Some {}" "freeable m' = new" "num_freeable_slots m' = 9"
        "num_free_slots m' = 6"
      and new: "distinct (map fst new)" "fst ` set new = {''h''}" "\<forall>(h, k) \<in> set new. k = (3 :: int)"
    unfolding last by (auto simp: m)
  obtain k where "new = [(''h'', k)]"
  proof (cases new)
    case (Cons x xs)
    then show thesis using new that by (cases x; cases xs) auto
  qed (use new in simp)
  with m m' new(3) show ?thesis by auto
qed

end
