(* ===== verification/Encoder_Schedule.thy ===== *)
theory Encoder_Schedule
  imports Encoder_Cache
begin

text \<open>
  The scheduler's use of the encoder cache, from \<^verbatim>\<open>vllm/v1/core/sched/scheduler.py\<close>:
  \<^verbatim>\<open>_try_schedule_encoder_inputs\<close>, the allocation loops that follow it in \<^verbatim>\<open>schedule\<close>, and
  \<^verbatim>\<open>_free_encoder_inputs\<close>.

  \<^verbatim>\<open>self.encoder_cache_manager\<close> is a manager of one of the two classes; \<open>encoder_methods\<close> is the table
  of its methods. \<open>has_cache_item\<close> stands for the encoder-cache connector, which is not part of
  these sources, and may be absent.

  The locale \<open>encoder_cache_contract\<close> states what the scheduler relies on and is interpreted on both
  managers. Shown: the inputs that are scheduled together always find room, so that the assertions
  of \<^verbatim>\<open>allocate\<close> hold; the scheduled token range never reaches an input that is neither cached nor
  scheduled.
\<close>

section \<open>Definitions\<close>

record 'm encoder_methods =
  m_check_and_update_cache :: "'m \<Rightarrow> request \<Rightarrow> int \<Rightarrow> (bool \<times> 'm) res"
  m_can_allocate :: "'m \<Rightarrow> request \<Rightarrow> int \<Rightarrow> int \<Rightarrow> int \<Rightarrow> (bool \<times> 'm) res"
  m_allocate :: "'m \<Rightarrow> request \<Rightarrow> int \<Rightarrow> 'm res"
  m_get_cached_input_ids :: "'m \<Rightarrow> request \<Rightarrow> int list"
  m_free_encoder_input :: "'m \<Rightarrow> request \<Rightarrow> int \<Rightarrow> 'm res"

definition mm_methods :: "encoder_cache_manager encoder_methods" where
  "mm_methods =
     \<lparr>m_check_and_update_cache = check_and_update_cache, m_can_allocate = can_allocate,
      m_allocate = encoder_allocate, m_get_cached_input_ids = get_cached_input_ids,
      m_free_encoder_input = free_encoder_input\<rparr>"

definition encdec_methods :: "encdec_cache_manager encoder_methods" where
  "encdec_methods =
     \<lparr>m_check_and_update_cache = encdec_check_and_update_cache, m_can_allocate = encdec_can_allocate,
      m_allocate = encdec_allocate, m_get_cached_input_ids = encdec_get_cached_input_ids,
      m_free_encoder_input = encdec_free_encoder_input\<rparr>"

record encoder_config =
  is_encoder_decoder :: bool
  disable_chunked_mm_input :: bool
  has_cache_item :: "(string \<Rightarrow> bool) option"

text \<open>The local variables of the loop.\<close>

record 'm encoder_loop_state =
  es_cache :: 'm
  encoder_inputs_to_schedule :: "int list"
  es_num_new_tokens :: int
  es_budget :: int
  external_load_encoder_input :: "int list"
  mm_hashes_to_schedule :: "string list"
  num_embeds_to_schedule :: int

text \<open>
  The body of the loop for an input that is not in the cache, and the whole body. A body returns
  whether the loop goes on: \<open>False\<close> is a \<^verbatim>\<open>break\<close>.
\<close>

definition schedule_missing_input ::
    "'m encoder_methods \<Rightarrow> encoder_config \<Rightarrow> request \<Rightarrow> int \<Rightarrow> int \<Rightarrow> int \<Rightarrow> mm_feature_spec \<Rightarrow>
     'm encoder_loop_state \<Rightarrow> (bool \<times> 'm encoder_loop_state) res" where
  "schedule_missing_input M cfg r computed shift i f st =
     (let start_pos = offset (mm_position f);
          num_encoder_tokens = pr_length (mm_position f);
          num_encoder_embeds = get_num_embeds (mm_position f);
          new = es_num_new_tokens st
      in if disable_chunked_mm_input cfg \<and> computed < start_pos \<and>
            computed + new < start_pos + num_encoder_tokens
         then Inr (False, st\<lparr>es_num_new_tokens := max 0 (start_pos - (computed + shift))\<rparr>)
         else bindE (m_can_allocate M (es_cache st) r i (es_budget st) (num_embeds_to_schedule st)) (\<lambda>(ok, c).
           let st1 = st\<lparr>es_cache := c\<rparr> in
           if \<not> ok
           then Inr (False, st1\<lparr>es_num_new_tokens :=
                  (if computed + shift < start_pos then start_pos - (computed + shift) else 0)\<rparr>)
           else bindE (get_embeds_indices_in_range (mm_position f) (max 0 (computed - start_pos))
                        (min num_encoder_tokens (computed + new - start_pos))) (\<lambda>(embeds_start, embeds_end).
             if embeds_end - embeds_start = 0 then Inr (True, st1)
             else if (case has_cache_item cfg of None \<Rightarrow> False | Some has \<Rightarrow> has (mm_identifier f))
             then Inr (True, st1\<lparr>mm_hashes_to_schedule := mm_hashes_to_schedule st @ [mm_identifier f],
                    external_load_encoder_input := external_load_encoder_input st @ [i],
                    num_embeds_to_schedule := num_embeds_to_schedule st + num_encoder_embeds\<rparr>)
             else Inr (True, st1\<lparr>num_embeds_to_schedule := num_embeds_to_schedule st + num_encoder_embeds,
                    es_budget := es_budget st - num_encoder_embeds,
                    mm_hashes_to_schedule := mm_hashes_to_schedule st @ [mm_identifier f],
                    encoder_inputs_to_schedule := encoder_inputs_to_schedule st @ [i]\<rparr>))))"

definition encoder_input_step ::
    "'m encoder_methods \<Rightarrow> encoder_config \<Rightarrow> request \<Rightarrow> int \<Rightarrow> int \<Rightarrow> int \<Rightarrow> mm_feature_spec \<Rightarrow>
     'm encoder_loop_state \<Rightarrow> (bool \<times> 'm encoder_loop_state) res" where
  "encoder_input_step M cfg r computed shift i f st =
     (let start_pos = offset (mm_position f); num_encoder_tokens = pr_length (mm_position f)
      in if computed + es_num_new_tokens st + shift \<le> start_pos then Inr (False, st)
         else if is_encoder_decoder cfg \<and> 0 < computed then assertE (start_pos = 0) (Inr (True, st))
         else if start_pos + num_encoder_tokens \<le> computed then Inr (True, st)
         else if \<not> is_encoder_decoder cfg
         then (if mm_identifier f \<in> set (mm_hashes_to_schedule st) then Inr (True, st)
               else bindE (m_check_and_update_cache M (es_cache st) r i) (\<lambda>(hit, c).
                 if hit then Inr (True, st\<lparr>es_cache := c\<rparr>)
                 else schedule_missing_input M cfg r computed shift i f (st\<lparr>es_cache := c\<rparr>)))
         else schedule_missing_input M cfg r computed shift i f st)"

fun encoder_loop ::
    "'m encoder_methods \<Rightarrow> encoder_config \<Rightarrow> request \<Rightarrow> int \<Rightarrow> int \<Rightarrow> (int \<times> mm_feature_spec) list \<Rightarrow>
     'm encoder_loop_state \<Rightarrow> 'm encoder_loop_state res" where
  "encoder_loop M cfg r computed shift [] st = Inr st"
| "encoder_loop M cfg r computed shift ((i, f) # rest) st =
     bindE (encoder_input_step M cfg r computed shift i f st) (\<lambda>(go, st').
       if go then encoder_loop M cfg r computed shift rest st' else Inr st')"

definition init_loop_state :: "'m \<Rightarrow> int \<Rightarrow> int \<Rightarrow> 'm encoder_loop_state" where
  "init_loop_state c new budget =
     \<lparr>es_cache = c, encoder_inputs_to_schedule = [], es_num_new_tokens = new, es_budget = budget,
      external_load_encoder_input = [], mm_hashes_to_schedule = [], num_embeds_to_schedule = 0\<rparr>"

lemma init_loop_state_simps [simp]:
  "es_cache (init_loop_state c new budget) = c"
  "es_num_new_tokens (init_loop_state c new budget) = new"
  "es_budget (init_loop_state c new budget) = budget"
  "encoder_inputs_to_schedule (init_loop_state c new budget) = []"
  "external_load_encoder_input (init_loop_state c new budget) = []"
  "mm_hashes_to_schedule (init_loop_state c new budget) = []"
  "num_embeds_to_schedule (init_loop_state c new budget) = 0"
  by (simp_all add: init_loop_state_def)

text \<open>
  The result is the final state of the loop; the method returns its fields
  \<open>encoder_inputs_to_schedule\<close>, \<open>es_num_new_tokens\<close>, \<open>es_budget\<close> and \<open>external_load_encoder_input\<close>.
\<close>

definition try_schedule_encoder_inputs ::
    "'m encoder_methods \<Rightarrow> encoder_config \<Rightarrow> 'm \<Rightarrow> request \<Rightarrow> int \<Rightarrow> int \<Rightarrow> int \<Rightarrow> int \<Rightarrow>
     'm encoder_loop_state res" where
  "try_schedule_encoder_inputs M cfg c r computed new budget shift =
     (if new = 0 \<or> \<not> has_encoder_inputs r then Inr (init_loop_state c new budget)
      else assertE (0 < length (mm_features r))
        (encoder_loop M cfg r computed shift (zip [0..int (length (mm_features r)) - 1] (mm_features r))
          (init_loop_state c new budget)))"

text \<open>
  The two loops in \<^verbatim>\<open>schedule\<close> that allocate what was scheduled. \<open>after_alloc\<close> is
  \<^verbatim>\<open>update_state_after_alloc\<close> of the encoder-cache connector, if there is one, on the connector's
  own state.
\<close>

definition allocate_input ::
    "'m encoder_methods \<Rightarrow> ('e \<Rightarrow> request \<Rightarrow> int \<Rightarrow> 'e) option \<Rightarrow> request \<Rightarrow> int \<Rightarrow> 'm \<times> 'e \<Rightarrow> ('m \<times> 'e) res" where
  "allocate_input M after_alloc r i = (\<lambda>(c, ec).
     bindE (m_allocate M c r i) (\<lambda>c'.
       Inr (c', case after_alloc of None \<Rightarrow> ec | Some f \<Rightarrow> f ec r i)))"

definition allocate_scheduled ::
    "'m encoder_methods \<Rightarrow> ('e \<Rightarrow> request \<Rightarrow> int \<Rightarrow> 'e) option \<Rightarrow> request \<Rightarrow> 'm encoder_loop_state \<Rightarrow> 'e \<Rightarrow>
     ('m \<times> 'e) res" where
  "allocate_scheduled M after_alloc r st ec =
     bindE (fold_res (allocate_input M after_alloc r) (encoder_inputs_to_schedule st) (es_cache st, ec)) (\<lambda>s.
       fold_res (allocate_input M after_alloc r) (external_load_encoder_input st) s)"

definition free_encoder_inputs ::
    "'m encoder_methods \<Rightarrow> bool \<Rightarrow> (int list \<Rightarrow> int list) \<Rightarrow> 'm \<Rightarrow> request \<Rightarrow> 'm res" where
  "free_encoder_inputs M is_ed order c r =
     (let ids = m_get_cached_input_ids M c r
      in if ids = [] then Inr c
         else fold_res (\<lambda>i c'. bindE (py_get (mm_features r) i) (\<lambda>f.
                let start_pos = offset (mm_position f); n = pr_length (mm_position f)
                in if is_ed \<and> 0 < num_computed_tokens r then m_free_encoder_input M c' r i
                   else if start_pos + n \<le> num_computed_tokens r then m_free_encoder_input M c' r i
                   else Inr c')) (order ids) c)"

section \<open>What the scheduler relies on\<close>

text \<open>The connector does not influence the cache.\<close>

lemma allocate_inputs_caches:
  "fold_res (\<lambda>i c. m_allocate M c r i) ids c = Inr c' \<Longrightarrow>
   \<exists>ec'. fold_res (allocate_input M after_alloc r) ids (c, ec) = Inr (c', ec')"
  by (induction ids arbitrary: c ec) (auto simp: allocate_input_def bindE_eq_Inr)

locale encoder_cache_contract =
  fixes M :: "'m encoder_methods"
    and sz :: "string \<Rightarrow> int"
    and inv :: "'m \<Rightarrow> bool"
    and room :: "'m \<Rightarrow> int"
    and known :: "'m \<Rightarrow> string \<Rightarrow> bool"
    and holds :: "'m \<Rightarrow> string \<Rightarrow> string \<Rightarrow> bool"
  assumes room_law: "inv c \<Longrightarrow> 0 \<le> room c"
    and size_law: "inv c \<Longrightarrow> 0 \<le> sz h"
    and check_law: "inv c \<Longrightarrow> sized sz r \<Longrightarrow> input_ok r i \<Longrightarrow>
      \<exists>hit c'. m_check_and_update_cache M c r i = Inr (hit, c') \<and> inv c' \<and> room c' = room c \<and>
        (\<forall>h. known c' h \<longleftrightarrow> known c h) \<and> (\<forall>q h. holds c q h \<longrightarrow> holds c' q h) \<and>
        (if hit then holds c' (request_id r) (input_hash r i) else \<not> known c' (input_hash r i))"
    and can_law: "inv c \<Longrightarrow> sized sz r \<Longrightarrow> input_ok r i \<Longrightarrow>
      \<exists>ok c'. m_can_allocate M c r i budget n = Inr (ok, c') \<and> inv c' \<and> room c \<le> room c' \<and>
        (\<forall>h. known c' h \<longrightarrow> known c h) \<and> (\<forall>q h. holds c q h \<longrightarrow> holds c' q h) \<and>
        (ok \<longrightarrow> sz (input_hash r i) \<le> budget \<and> sz (input_hash r i) + n \<le> room c')"
    and allocate_law: "inv c \<Longrightarrow> sized sz r \<Longrightarrow> input_ok r i \<Longrightarrow> \<not> known c (input_hash r i) \<Longrightarrow>
      sz (input_hash r i) \<le> room c \<Longrightarrow>
      \<exists>c'. m_allocate M c r i = Inr c' \<and> inv c' \<and> room c' = room c - sz (input_hash r i) \<and>
        (\<forall>h. known c' h \<longrightarrow> known c h \<or> h = input_hash r i)"
begin

definition scheduled_ok :: "bool \<Rightarrow> request \<Rightarrow> 'm encoder_loop_state \<Rightarrow> bool" where
  "scheduled_ok ed r st \<longleftrightarrow>
     (let ids = encoder_inputs_to_schedule st @ external_load_encoder_input st in
      inv (es_cache st) \<and> (\<forall>i \<in> set ids. input_ok r i) \<and>
      num_embeds_to_schedule st = (\<Sum>i\<leftarrow>ids. sz (input_hash r i)) \<and>
      num_embeds_to_schedule st \<le> room (es_cache st) \<and>
      set (mm_hashes_to_schedule st) = input_hash r ` set ids \<and>
      (if ed then \<forall>c h. \<not> known c h
       else distinct (map (input_hash r) ids) \<and> (\<forall>i \<in> set ids. \<not> known (es_cache st) (input_hash r i))) \<and>
      0 \<le> es_num_new_tokens st \<and> 0 \<le> es_budget st)"

lemma allocate_all:
  assumes "inv c" and "sized sz r" and "\<forall>i \<in> set ids. input_ok r i"
    and "(\<Sum>i\<leftarrow>ids. sz (input_hash r i)) \<le> room c"
    and "if ed then \<forall>c h. \<not> known c h
         else distinct (map (input_hash r) ids) \<and> (\<forall>i \<in> set ids. \<not> known c (input_hash r i))"
  shows "\<exists>c'. fold_res (\<lambda>i c. m_allocate M c r i) ids c = Inr c' \<and> inv c' \<and>
    room c' = room c - (\<Sum>i\<leftarrow>ids. sz (input_hash r i))"
  using assms
proof (induction ids arbitrary: c)
  case (Cons i ids)
  have "0 \<le> (\<Sum>i\<leftarrow>ids. sz (input_hash r i))"
    using size_law [OF Cons.prems(1)] by (intro sum_list_nonneg) auto
  then have "sz (input_hash r i) \<le> room c" using Cons.prems(4) by simp
  moreover have "\<not> known c (input_hash r i)" using Cons.prems(5) by (auto split: if_splits)
  ultimately obtain c1 where c1: "m_allocate M c r i = Inr c1" "inv c1"
    "room c1 = room c - sz (input_hash r i)" "\<forall>h. known c1 h \<longrightarrow> known c h \<or> h = input_hash r i"
    using allocate_law [OF Cons.prems(1,2)] Cons.prems(3) by fastforce
  have "if ed then \<forall>c h. \<not> known c h
      else distinct (map (input_hash r) ids) \<and> (\<forall>i \<in> set ids. \<not> known c1 (input_hash r i))"
  proof (cases ed)
    case False
    then have "input_hash r j \<noteq> input_hash r i" if "j \<in> set ids" for j
      using Cons.prems(5) that by (auto simp: image_iff)
    with False Cons.prems(5) c1(4) show ?thesis by auto
  qed (use Cons.prems(5) in simp)
  from Cons.IH [OF c1(2) Cons.prems(2) _ _ this] Cons.prems(3,4) c1 show ?case by auto
qed simp

lemma allocate_scheduled_ok:
  assumes "scheduled_ok ed r st" and "sized sz r"
  shows "\<exists>c' ec'. allocate_scheduled M after_alloc r st ec = Inr (c', ec') \<and> inv c' \<and>
    room c' = room (es_cache st) - num_embeds_to_schedule st"
proof -
  let ?ids = "encoder_inputs_to_schedule st @ external_load_encoder_input st"
  have "\<exists>c'. fold_res (\<lambda>i c. m_allocate M c r i) ?ids (es_cache st) = Inr c' \<and> inv c' \<and>
      room c' = room (es_cache st) - (\<Sum>i\<leftarrow>?ids. sz (input_hash r i))"
  proof (rule allocate_all [where ed = ed])
    note S = assms(1) [unfolded scheduled_ok_def Let_def]
    show "inv (es_cache st)" "sized sz r" "\<forall>i \<in> set ?ids. input_ok r i" using S assms(2) by blast+
    show "(\<Sum>i\<leftarrow>?ids. sz (input_hash r i)) \<le> room (es_cache st)" using S by metis
    show "if ed then \<forall>c h. \<not> known c h else distinct (map (input_hash r) ?ids) \<and>
        (\<forall>i \<in> set ?ids. \<not> known (es_cache st) (input_hash r i))" using S by blast
  qed
  moreover have "num_embeds_to_schedule st = (\<Sum>i\<leftarrow>?ids. sz (input_hash r i))"
    using assms(1) unfolding scheduled_ok_def Let_def by blast
  moreover have "allocate_scheduled M after_alloc r st ec =
      fold_res (allocate_input M after_alloc r) ?ids (es_cache st, ec)"
    by (simp add: allocate_scheduled_def fold_res_append)
  ultimately show ?thesis
    using allocate_inputs_caches [where after_alloc = after_alloc and ec = ec] by fastforce
qed

end

text \<open>A mask has one entry per placeholder token.\<close>

definition mask_ok :: "mm_feature_spec \<Rightarrow> bool" where
  "mask_ok f \<longleftrightarrow> (\<forall>mask. is_embed (mm_position f) = Some mask \<longrightarrow>
     int (length mask) = pr_length (mm_position f))"

definition no_embeds_in_range :: "mm_feature_spec \<Rightarrow> int \<Rightarrow> int \<Rightarrow> bool" where
  "no_embeds_in_range f computed new \<longleftrightarrow>
     (case get_embeds_indices_in_range (mm_position f) (max 0 (computed - offset (mm_position f)))
        (min (pr_length (mm_position f)) (computed + new - offset (mm_position f))) of
        Inl _ \<Rightarrow> False | Inr (a, b) \<Rightarrow> a = b)"

lemma get_embeds_indices_total:
  assumes "mask_ok f" and "a \<le> pr_length (mm_position f)" and "b \<le> pr_length (mm_position f)"
  shows "\<exists>x y. get_embeds_indices_in_range (mm_position f) a b = Inr (x, y)"
proof (cases "is_embed (mm_position f)")
  case (Some mask)
  then have len: "int (length (cumsum_from 0 mask)) = pr_length (mm_position f)"
    using assms(1) by (simp add: mask_ok_def)
  have "\<exists>x. (if 0 < n then py_get (cumsum_from 0 mask) (n - 1) else Inr 0) = Inr x"
    if "n \<le> pr_length (mm_position f)" for n
    using that len by (auto simp: py_get_nonneg)
  from this [OF assms(2)] this [OF assms(3)] show ?thesis
    by (auto simp: get_embeds_indices_in_range_def embeds_cumsum_def Some)
qed (simp add: get_embeds_indices_in_range_def embeds_cumsum_def)

context encoder_cache_contract
begin

text \<open>What a body promises: the invariant, and that the input is dealt with when the loop goes on.\<close>

definition step_result ::
    "bool \<Rightarrow> request \<Rightarrow> int \<Rightarrow> int \<Rightarrow> mm_feature_spec \<Rightarrow> 'm encoder_loop_state \<Rightarrow> bool \<Rightarrow> 'm encoder_loop_state \<Rightarrow> bool" where
  "step_result ed r computed shift f st go st' \<longleftrightarrow>
     scheduled_ok ed r st' \<and> es_num_new_tokens st' \<le> es_num_new_tokens st \<and> es_budget st' \<le> es_budget st \<and>
     set (mm_hashes_to_schedule st) \<subseteq> set (mm_hashes_to_schedule st') \<and>
     (\<forall>q h. holds (es_cache st) q h \<longrightarrow> holds (es_cache st') q h) \<and>
     (if go then es_num_new_tokens st' = es_num_new_tokens st \<and>
        (offset (mm_position f) + pr_length (mm_position f) \<le> computed \<or>
         mm_identifier f \<in> set (mm_hashes_to_schedule st') \<or>
         holds (es_cache st') (request_id r) (mm_identifier f) \<or> ed \<and> 0 < computed \<or>
         no_embeds_in_range f computed (es_num_new_tokens st))
      else es_num_new_tokens st' = 0 \<or> computed + es_num_new_tokens st' + shift \<le> offset (mm_position f))"

lemma scheduled_ok_cache:
  assumes "scheduled_ok ed r st" and "inv c" and "room (es_cache st) \<le> room c"
    and "\<forall>h. known c h \<longrightarrow> known (es_cache st) h"
  shows "scheduled_ok ed r (st\<lparr>es_cache := c\<rparr>)"
proof (cases ed)
  case True
  with assms show ?thesis by (simp add: scheduled_ok_def Let_def)
next
  case False
  with assms show ?thesis by (simp add: scheduled_ok_def Let_def) blast
qed

lemma scheduled_ok_new:
  "scheduled_ok ed r st \<Longrightarrow> 0 \<le> k \<Longrightarrow> scheduled_ok ed r (st\<lparr>es_num_new_tokens := k\<rparr>)"
  by (cases ed) (simp_all add: scheduled_ok_def Let_def)

lemma scheduled_ok_add:
  assumes ok: "scheduled_ok ed r st" and i: "input_ok r i"
    and fresh: "ed \<or> \<not> known (es_cache st) (input_hash r i)"
      "ed \<or> input_hash r i \<notin> set (mm_hashes_to_schedule st)"
    and room: "sz (input_hash r i) + num_embeds_to_schedule st \<le> room (es_cache st)"
    and budget: "sz (input_hash r i) \<le> es_budget st"
  shows "scheduled_ok ed r (st\<lparr>mm_hashes_to_schedule := mm_hashes_to_schedule st @ [input_hash r i],
      external_load_encoder_input := external_load_encoder_input st @ [i],
      num_embeds_to_schedule := num_embeds_to_schedule st + sz (input_hash r i)\<rparr>)" (is ?ext)
    and "scheduled_ok ed r (st\<lparr>num_embeds_to_schedule := num_embeds_to_schedule st + sz (input_hash r i),
      es_budget := es_budget st - sz (input_hash r i),
      mm_hashes_to_schedule := mm_hashes_to_schedule st @ [input_hash r i],
      encoder_inputs_to_schedule := encoder_inputs_to_schedule st @ [i]\<rparr>)" (is ?here)
proof -
  have "?ext \<and> ?here"
  proof (cases ed)
    case True
    with ok i room budget show ?thesis by (simp add: scheduled_ok_def Let_def)
  next
    case False
    then have "input_hash r i \<notin> input_hash r ` set (encoder_inputs_to_schedule st @ external_load_encoder_input st)"
      using fresh(2) ok by (simp add: scheduled_ok_def Let_def)
    with False ok i fresh(1) room budget show ?thesis
      by (simp add: scheduled_ok_def Let_def) blast
  qed
  then show ?ext ?here by blast+
qed

lemma schedule_missing_input_ok:
  assumes ok: "scheduled_ok ed r st" and r: "sized sz r" and i: "input_ok r i"
    and f: "f = mm_features r ! nat i" "mask_ok f"
    and new: "\<not> computed + es_num_new_tokens st + shift \<le> offset (mm_position f)"
      "\<not> offset (mm_position f) + pr_length (mm_position f) \<le> computed"
    and nonneg: "0 \<le> pr_length (mm_position f)"
    and fresh: "ed \<or> \<not> known (es_cache st) (input_hash r i)"
      "ed \<or> mm_identifier f \<notin> set (mm_hashes_to_schedule st)"
  shows "\<exists>go st'. schedule_missing_input M cfg r computed shift i f st = Inr (go, st') \<and>
    step_result ed r computed shift f st go st'"
proof -
  let ?start = "offset (mm_position f)" and ?len = "pr_length (mm_position f)" and ?new = "es_num_new_tokens st"
  have h: "mm_identifier f = input_hash r i" by (simp add: f(1) input_hash_def)
  have inv: "inv (es_cache st)" and pos: "0 \<le> ?new" using ok by (simp_all add: scheduled_ok_def Let_def)
  have n: "get_num_embeds (mm_position f) = sz (input_hash r i)"
    using r i by (simp add: sized_def input_ok_def f(1) input_hash_def nat_less_iff)
  from can_law [OF inv r i, of "es_budget st" "num_embeds_to_schedule st"] obtain okb c where
    can: "m_can_allocate M (es_cache st) r i (es_budget st) (num_embeds_to_schedule st) = Inr (okb, c)"
      "inv c" "room (es_cache st) \<le> room c" "\<forall>h. known c h \<longrightarrow> known (es_cache st) h"
      "\<forall>q h. holds (es_cache st) q h \<longrightarrow> holds c q h"
      "okb \<longrightarrow> sz (input_hash r i) \<le> es_budget st \<and>
         sz (input_hash r i) + num_embeds_to_schedule st \<le> room c" by blast
  let ?st1 = "st\<lparr>es_cache := c\<rparr>"
  have ok1: "scheduled_ok ed r ?st1" by (rule scheduled_ok_cache [OF ok can(2-4)])
  obtain x y where xy: "get_embeds_indices_in_range (mm_position f) (max 0 (computed - ?start))
      (min ?len (computed + ?new - ?start)) = Inr (x, y)"
    using get_embeds_indices_total [OF f(2)] nonneg new(2) by (metis diff_le_eq le_max_iff_disj linorder_le_cases max.bounded_iff min.cobounded1 add.commute)
  consider "disable_chunked_mm_input cfg \<and> computed < ?start \<and> computed + ?new < ?start + ?len"
    | "\<not> (disable_chunked_mm_input cfg \<and> computed < ?start \<and> computed + ?new < ?start + ?len)" "\<not> okb"
    | "\<not> (disable_chunked_mm_input cfg \<and> computed < ?start \<and> computed + ?new < ?start + ?len)" okb by blast
  then show ?thesis
  proof cases
    case 1
    then have "schedule_missing_input M cfg r computed shift i f st =
        Inr (False, st\<lparr>es_num_new_tokens := max 0 (?start - (computed + shift))\<rparr>)"
      by (simp add: schedule_missing_input_def Let_def)
    moreover have "step_result ed r computed shift f st False (st\<lparr>es_num_new_tokens := max 0 (?start - (computed + shift))\<rparr>)"
      using scheduled_ok_new [OF ok] new(1) pos by (auto simp: step_result_def)
    ultimately show ?thesis by blast
  next
    case 2
    let ?st' = "?st1\<lparr>es_num_new_tokens := (if computed + shift < ?start then ?start - (computed + shift) else 0)\<rparr>"
    from 2 have "schedule_missing_input M cfg r computed shift i f st = Inr (False, ?st')"
      by (auto simp add: schedule_missing_input_def Let_def can(1))
    moreover have "step_result ed r computed shift f st False ?st'"
      using scheduled_ok_new [OF ok1] new(1) pos can(5) by (simp add: step_result_def)
    ultimately show ?thesis by blast
  next
    case 3
    then have room: "sz (input_hash r i) \<le> es_budget ?st1"
      "sz (input_hash r i) + num_embeds_to_schedule ?st1 \<le> room (es_cache ?st1)"
      using can(6) by simp_all
    have fr: "ed \<or> \<not> known (es_cache ?st1) (input_hash r i)"
      "ed \<or> input_hash r i \<notin> set (mm_hashes_to_schedule ?st1)" using fresh can(4) h by auto
    note add = scheduled_ok_add [OF ok1 i fr room(2,1)]
    have z: "0 \<le> sz (input_hash r i)" using size_law [OF inv] .
    show ?thesis
    proof (cases "x = y")
      case True
      have "schedule_missing_input M cfg r computed shift i f st = Inr (True, ?st1)"
        unfolding schedule_missing_input_def Let_def can(1) bindE_Inr prod.case xy if_not_P [OF 3(1)]
        using 3(2) True by simp
      moreover have "no_embeds_in_range f computed ?new"
        using xy True by (simp add: no_embeds_in_range_def)
      then have "step_result ed r computed shift f st True ?st1"
        using ok1 can(5) by (simp add: step_result_def)
      ultimately show ?thesis by blast
    next
      case False
      then have "y - x \<noteq> 0" by simp
      then show ?thesis
        unfolding schedule_missing_input_def Let_def can(1) bindE_Inr prod.case xy if_not_P [OF 3(1)] h n
        using 3(2) add can(5) z
        by (cases "case has_cache_item cfg of None \<Rightarrow> False | Some has \<Rightarrow> has (input_hash r i)")
          (rule exI [of _ True], simp add: step_result_def h subset_insertI)+
    qed
  qed
qed

lemma encoder_input_step_ok:
  assumes ok: "scheduled_ok ed r st" and r: "sized sz r" and i: "input_ok r i"
    and f: "f = mm_features r ! nat i" "mask_ok f" and nonneg: "0 \<le> pr_length (mm_position f)"
    and ed: "ed = is_encoder_decoder cfg" "ed \<longrightarrow> offset (mm_position f) = 0"
  shows "\<exists>go st'. encoder_input_step M cfg r computed shift i f st = Inr (go, st') \<and>
    step_result ed r computed shift f st go st'"
proof -
  let ?start = "offset (mm_position f)" and ?len = "pr_length (mm_position f)"
  have h: "mm_identifier f = input_hash r i" by (simp add: f(1) input_hash_def)
  have inv: "inv (es_cache st)" using ok by (simp add: scheduled_ok_def Let_def)
  consider "computed + es_num_new_tokens st + shift \<le> ?start"
    | "\<not> computed + es_num_new_tokens st + shift \<le> ?start" "ed \<and> 0 < computed"
    | "\<not> computed + es_num_new_tokens st + shift \<le> ?start" "\<not> (ed \<and> 0 < computed)" "?start + ?len \<le> computed"
    | "\<not> computed + es_num_new_tokens st + shift \<le> ?start" "\<not> (ed \<and> 0 < computed)" "\<not> ?start + ?len \<le> computed"
      ed
    | "\<not> computed + es_num_new_tokens st + shift \<le> ?start" "\<not> ?start + ?len \<le> computed"
      "\<not> ed" "mm_identifier f \<in> set (mm_hashes_to_schedule st)"
    | "\<not> computed + es_num_new_tokens st + shift \<le> ?start" "\<not> ?start + ?len \<le> computed"
      "\<not> ed" "mm_identifier f \<notin> set (mm_hashes_to_schedule st)" by blast
  then show ?thesis
  proof cases
    case 4
    from schedule_missing_input_ok [OF ok r i f 4(1,3) nonneg, of cfg] 4 ed show ?thesis
      by (simp add: encoder_input_step_def Let_def)
  next
    case 6
    from check_law [OF inv r i] obtain hit c where c: "m_check_and_update_cache M (es_cache st) r i = Inr (hit, c)"
      "inv c" "room c = room (es_cache st)" "\<forall>h. known c h \<longleftrightarrow> known (es_cache st) h"
      "\<forall>q h. holds (es_cache st) q h \<longrightarrow> holds c q h"
      "if hit then holds c (request_id r) (input_hash r i) else \<not> known c (input_hash r i)" by blast
    have ok1: "scheduled_ok ed r (st\<lparr>es_cache := c\<rparr>)"
      using scheduled_ok_cache [OF ok c(2)] c(3,4) by simp
    have run: "encoder_input_step M cfg r computed shift i f st =
        (if hit then Inr (True, st\<lparr>es_cache := c\<rparr>)
         else schedule_missing_input M cfg r computed shift i f (st\<lparr>es_cache := c\<rparr>))"
      using 6 ed by (simp add: encoder_input_step_def Let_def c(1))
    show ?thesis
    proof (cases hit)
      case True
      then have "step_result ed r computed shift f st True (st\<lparr>es_cache := c\<rparr>)"
        using ok1 c(5,6) by (simp add: step_result_def h)
      with run True show ?thesis by auto
    next
      case False
      then have "\<exists>go st'. schedule_missing_input M cfg r computed shift i f (st\<lparr>es_cache := c\<rparr>) = Inr (go, st') \<and>
          step_result ed r computed shift f (st\<lparr>es_cache := c\<rparr>) go st'"
        using 6 c(6) by (intro schedule_missing_input_ok [OF ok1 r i f _ _ nonneg]) simp_all
      moreover have "step_result ed r computed shift f st go st'"
        if "step_result ed r computed shift f (st\<lparr>es_cache := c\<rparr>) go st'" for go st'
        using that c(5) by (cases go) (simp_all add: step_result_def)
      ultimately show ?thesis using run False by auto
    qed
  qed (use ok ed in \<open>auto simp: encoder_input_step_def Let_def step_result_def\<close>)
qed

definition input_covered ::
    "bool \<Rightarrow> request \<Rightarrow> int \<Rightarrow> int \<Rightarrow> int \<Rightarrow> 'm encoder_loop_state \<Rightarrow> mm_feature_spec \<Rightarrow> bool" where
  "input_covered ed r computed shift new st f \<longleftrightarrow> es_num_new_tokens st = 0 \<or>
     computed + es_num_new_tokens st + shift \<le> offset (mm_position f) \<or>
     offset (mm_position f) + pr_length (mm_position f) \<le> computed \<or>
     mm_identifier f \<in> set (mm_hashes_to_schedule st) \<or>
     holds (es_cache st) (request_id r) (mm_identifier f) \<or> ed \<and> 0 < computed \<or>
     no_embeds_in_range f computed new"

lemma encoder_loop_ok:
  assumes "scheduled_ok ed r st" and r: "sized sz r" and ed: "ed = is_encoder_decoder cfg"
    and "\<forall>(i, f) \<in> set xs. input_ok r i \<and> f = mm_features r ! nat i \<and> mask_ok f \<and>
      0 \<le> pr_length (mm_position f) \<and> (ed \<longrightarrow> offset (mm_position f) = 0)"
    and "sorted (map (\<lambda>(i, f). offset (mm_position f)) xs)"
  shows "\<exists>st'. encoder_loop M cfg r computed shift xs st = Inr st' \<and> scheduled_ok ed r st' \<and>
    es_num_new_tokens st' \<le> es_num_new_tokens st \<and> es_budget st' \<le> es_budget st \<and>
    set (mm_hashes_to_schedule st) \<subseteq> set (mm_hashes_to_schedule st') \<and>
    (\<forall>q h. holds (es_cache st) q h \<longrightarrow> holds (es_cache st') q h) \<and>
    (\<forall>(i, f) \<in> set xs. input_covered ed r computed shift (es_num_new_tokens st) st' f)"
  using assms(1,4,5)
proof (induction xs arbitrary: st)
  case (Cons x xs)
  obtain i f where x: "x = (i, f)" by (cases x)
  have i: "input_ok r i" "f = mm_features r ! nat i" "mask_ok f" "0 \<le> pr_length (mm_position f)"
    "ed \<longrightarrow> offset (mm_position f) = 0" using Cons.prems(2) unfolding x by auto
  from encoder_input_step_ok [OF Cons.prems(1) r i(1-4) ed i(5)] obtain go st1 where
    st1: "encoder_input_step M cfg r computed shift i f st = Inr (go, st1)"
      "step_result ed r computed shift f st go st1" by blast
  show ?case
  proof (cases go)
    case True
    have "scheduled_ok ed r st1" using st1(2) by (simp add: step_result_def)
    from Cons.IH [OF this] Cons.prems obtain st' where st':
      "encoder_loop M cfg r computed shift xs st1 = Inr st'" "scheduled_ok ed r st'"
      "es_num_new_tokens st' \<le> es_num_new_tokens st1" "es_budget st' \<le> es_budget st1"
      "set (mm_hashes_to_schedule st1) \<subseteq> set (mm_hashes_to_schedule st')"
      "\<forall>q h. holds (es_cache st1) q h \<longrightarrow> holds (es_cache st') q h"
      "\<forall>(i, f) \<in> set xs. input_covered ed r computed shift (es_num_new_tokens st1) st' f"
      by (auto simp: x)
    have run: "encoder_loop M cfg r computed shift (x # xs) st = Inr st'"
      using st1(1) st'(1) True by (simp add: x)
    show ?thesis
      using st1(2) True st'(2-7) unfolding run step_result_def
      by (intro exI [of _ st']) (auto simp: x input_covered_def)
  next
    case False
    then have run: "encoder_loop M cfg r computed shift (x # xs) st = Inr st1"
      using st1(1) by (simp add: x)
    have "offset (mm_position f) \<le> offset (mm_position f')" if "(i', f') \<in> set (x # xs)" for i' f'
      using Cons.prems(3) that by (auto simp: x)
    then show ?thesis
      using st1(2) False unfolding run step_result_def input_covered_def by (intro exI [of _ st1]) force
  qed
qed simp

lemma try_schedule_ok:
  assumes "inv c" and r: "sized sz r" and "0 \<le> new" and "0 \<le> budget"
    and "is_encoder_decoder cfg \<longrightarrow> (\<forall>c h. \<not> known c h) \<and> (\<forall>f \<in> set (mm_features r). offset (mm_position f) = 0)"
    and "\<forall>f \<in> set (mm_features r). mask_ok f \<and> 0 \<le> pr_length (mm_position f)"
    and "sorted (map (\<lambda>f. offset (mm_position f)) (mm_features r))"
  shows "\<exists>st. try_schedule_encoder_inputs M cfg c r computed new budget shift = Inr st \<and>
    scheduled_ok (is_encoder_decoder cfg) r st \<and> es_num_new_tokens st \<le> new \<and> es_budget st \<le> budget \<and>
    (\<forall>f \<in> set (mm_features r). input_covered (is_encoder_decoder cfg) r computed shift new st f)"
proof -
  let ?ed = "is_encoder_decoder cfg" and ?st = "init_loop_state c new budget"
  let ?xs = "zip [0..int (length (mm_features r)) - 1] (mm_features r)"
  have ok: "scheduled_ok ?ed r ?st"
    using assms(1,3,4,5) room_law [OF assms(1)] by (cases ?ed) (simp_all add: scheduled_ok_def)
  show ?thesis
  proof (cases "new = 0 \<or> \<not> has_encoder_inputs r")
    case True
    then have "new = 0 \<or> mm_features r = []"
      by (auto simp: has_encoder_inputs_def num_encoder_inputs_def)
    with True ok show ?thesis
      by (intro exI [of _ ?st]) (auto simp: try_schedule_encoder_inputs_def input_covered_def)
  next
    case False
    have len: "length [0..int (length (mm_features r)) - 1] = length (mm_features r)" by simp
    then have fs: "map snd ?xs = mm_features r" by (rule map_snd_zip)
    have at: "input_ok r i \<and> f = mm_features r ! nat i" if "(i, f) \<in> set ?xs" for i f
    proof -
      from that obtain k where "k < length (mm_features r)" "i = [0..int (length (mm_features r)) - 1] ! k"
        "f = mm_features r ! k" by (auto simp: in_set_zip)
      then show ?thesis by (simp add: input_ok_def)
    qed
    have srt: "sorted (map (\<lambda>(i, f). offset (mm_position f)) ?xs)"
    proof -
      have "map (\<lambda>(i, f). offset (mm_position f)) ?xs = map ((\<lambda>f. offset (mm_position f)) \<circ> snd) ?xs"
        by (rule map_cong) auto
      also have "\<dots> = map (\<lambda>f. offset (mm_position f)) (map snd ?xs)" by (rule map_map [symmetric])
      finally show ?thesis using assms(7) by (simp only: fs)
    qed
    have pre: "\<forall>(i, f) \<in> set ?xs. input_ok r i \<and> f = mm_features r ! nat i \<and> mask_ok f \<and>
        0 \<le> pr_length (mm_position f) \<and> (?ed \<longrightarrow> offset (mm_position f) = 0)"
    proof (clarify, intro conjI impI)
      fix i f
      assume mem: "(i, f) \<in> set ?xs"
      then have f: "f \<in> set (mm_features r)" by (rule set_zip_rightD)
      show "input_ok r i" "f = mm_features r ! nat i" using at [OF mem] by blast+
      show "mask_ok f" "0 \<le> pr_length (mm_position f)" using assms(6) f by blast+
      show "offset (mm_position f) = 0" if "?ed" using assms(5) f that by blast
    qed
    from encoder_loop_ok [OF ok r refl pre srt, of computed shift, unfolded init_loop_state_simps]
    obtain st where st: "encoder_loop M cfg r computed shift ?xs ?st = Inr st"
      "scheduled_ok ?ed r st" "es_num_new_tokens st \<le> new" "es_budget st \<le> budget"
      "\<forall>(i, f) \<in> set ?xs. input_covered ?ed r computed shift new st f"
      by blast
    have cover: "input_covered ?ed r computed shift new st f" if "f \<in> set (mm_features r)" for f
    proof -
      have "f \<in> set (map snd ?xs)" using that by (simp only: fs)
      then obtain i where "(i, f) \<in> set ?xs" unfolding set_map by (metis imageE prod.collapse)
      from bspec [OF st(5) this] show ?thesis by simp
    qed
    have "try_schedule_encoder_inputs M cfg c r computed new budget shift = Inr st"
      using False st(1) by (simp add: try_schedule_encoder_inputs_def has_encoder_inputs_def num_encoder_inputs_def)
    with st(2-4) cover show ?thesis by blast
  qed
qed

end

section \<open>Both managers fulfil the contract\<close>

abbreviation refers :: "encoder_cache_manager \<Rightarrow> string \<Rightarrow> string \<Rightarrow> bool" where
  "refers c q h \<equiv> (\<exists>refs. cached c h = Some refs \<and> q \<in> refs)"

lemma evict_first_refers:
  assumes "enc_inv sz c" and "cached c h = Some refs" and "q \<in> refs"
  shows "cached (evict_first k c) h = Some refs"
proof -
  have "h \<notin> fst ` set (freeable c)" using assms freeable_iff [OF assms(1), of h] by auto
  then have "h \<notin> fst ` set (take k (freeable c))" using set_take_subset [of k "freeable c"] by blast
  with assms(2) show ?thesis by (simp add: evict_first_def)
qed

lemma mm_contract:
  "encoder_cache_contract mm_methods sz (enc_inv sz) num_free_slots (\<lambda>c h. cached c h \<noteq> None) refers"
proof unfold_locales
  fix c r i h and budget n :: int
  assume inv: "enc_inv sz c"
  show "0 \<le> num_free_slots c" "0 \<le> sz h" using inv by (simp_all add: enc_inv_def)
  assume r: "sized sz r" and i: "input_ok r i"
  show "\<exists>hit c'. m_check_and_update_cache mm_methods c r i = Inr (hit, c') \<and> enc_inv sz c' \<and>
      num_free_slots c' = num_free_slots c \<and> (\<forall>h. (cached c' h \<noteq> None) = (cached c h \<noteq> None)) \<and>
      (\<forall>q h. refers c q h \<longrightarrow> refers c' q h) \<and>
      (if hit then refers c' (request_id r) (input_hash r i) else \<not> cached c' (input_hash r i) \<noteq> None)"
  proof (cases "cached c (input_hash r i)")
    case None
    with check_and_update_cache_spec [OF inv i] inv show ?thesis by (auto simp: mm_methods_def)
  next
    case (Some refs)
    with check_and_update_cache_spec [OF inv i] obtain c' where
      "check_and_update_cache c r i = Inr (True, c')" "enc_inv sz c'" "num_free_slots c' = num_free_slots c"
      "cached c' = (cached c)(input_hash r i \<mapsto> insert (request_id r) refs)" by auto
    with Some show ?thesis by (intro exI [of _ True] exI [of _ c']) (simp add: mm_methods_def)
  qed
  show "\<exists>ok c'. m_can_allocate mm_methods c r i budget n = Inr (ok, c') \<and> enc_inv sz c' \<and>
      num_free_slots c \<le> num_free_slots c' \<and> (\<forall>h. cached c' h \<noteq> None \<longrightarrow> cached c h \<noteq> None) \<and>
      (\<forall>q h. refers c q h \<longrightarrow> refers c' q h) \<and>
      (ok \<longrightarrow> sz (input_hash r i) \<le> budget \<and> sz (input_hash r i) + n \<le> num_free_slots c')"
  proof -
    from can_allocate_spec [OF inv i r, of budget n] obtain b k where k:
      "m_can_allocate mm_methods c r i budget n = Inr (b, evict_first k c)" "enc_inv sz (evict_first k c)"
      "b \<longrightarrow> sz (input_hash r i) \<le> budget \<and> sz (input_hash r i) + n \<le> num_free_slots (evict_first k c)"
      by (auto simp: mm_methods_def)
    have "0 \<le> sum_list (map snd (take k (freeable c)))"
      using inv by (intro sum_list_nonneg) (auto simp: enc_inv_def dest!: in_set_takeD)
    then have "num_free_slots c \<le> num_free_slots (evict_first k c)" by (simp add: evict_first_def)
    moreover have "\<forall>h. cached (evict_first k c) h \<noteq> None \<longrightarrow> cached c h \<noteq> None"
      by (simp add: evict_first_def restrict_map_def)
    moreover have "\<forall>q h. refers c q h \<longrightarrow> refers (evict_first k c) q h"
      using evict_first_refers [OF inv] by blast
    ultimately show ?thesis using k by blast
  qed
  assume "\<not> cached c (input_hash r i) \<noteq> None" and "sz (input_hash r i) \<le> num_free_slots c"
  with encoder_allocate_spec [OF inv i r] show "\<exists>c'. m_allocate mm_methods c r i = Inr c' \<and> enc_inv sz c' \<and>
      num_free_slots c' = num_free_slots c - sz (input_hash r i) \<and>
      (\<forall>h. cached c' h \<noteq> None \<longrightarrow> cached c h \<noteq> None \<or> h = input_hash r i)" by (fastforce simp: mm_methods_def)
qed

interpretation mmc: encoder_cache_contract mm_methods sz "enc_inv sz" num_free_slots
  "\<lambda>c h. cached c h \<noteq> None" refers for sz
  by (rule mm_contract)

definition encdec_inv :: "(string \<Rightarrow> int) \<Rightarrow> encdec_cache_manager \<Rightarrow> bool" where
  "encdec_inv sz c \<longleftrightarrow> (\<forall>h. 0 \<le> sz h) \<and> 0 \<le> ed_num_free_slots c"

interpretation edc: encoder_cache_contract encdec_methods sz "encdec_inv sz" ed_num_free_slots
  "\<lambda>_ _. False" "\<lambda>_ _ _. False" for sz
  by unfold_locales
    (auto simp: encdec_inv_def encdec_methods_def encdec_check_and_update_cache_def encdec_can_allocate_def
      encdec_allocate_def input_simps)

section \<open>Properties\<close>

text \<open>
  C11. What \<^verbatim>\<open>_try_schedule_encoder_inputs\<close> schedules together can be allocated together: on any
  reachable encoder cache it returns without an exception, and the \<^verbatim>\<open>allocate\<close> calls that follow find
  their assertions true, one after the other, and use up exactly the embeddings counted. It never
  raises the number of tokens or the budget it was given and leaves neither negative.
\<close>

theorem scheduled_encoder_inputs_fit:
  assumes "reachable_encoder sz n c" and "\<And>h. 0 \<le> sz h" and "0 \<le> n" and "sized sz r"
    and "0 \<le> new" and "0 \<le> budget" and "\<not> is_encoder_decoder cfg"
    and "\<forall>f \<in> set (mm_features r). mask_ok f \<and> 0 \<le> pr_length (mm_position f)"
    and "sorted (map (\<lambda>f. offset (mm_position f)) (mm_features r))"
  shows "\<exists>st c' ec'. try_schedule_encoder_inputs mm_methods cfg c r computed new budget shift = Inr st \<and>
    allocate_scheduled mm_methods after_alloc r st ec = Inr (c', ec') \<and>
    num_free_slots c' = num_free_slots (es_cache st) - num_embeds_to_schedule st \<and> 0 \<le> num_free_slots c' \<and>
    0 \<le> es_num_new_tokens st \<and> es_num_new_tokens st \<le> new \<and> 0 \<le> es_budget st \<and> es_budget st \<le> budget"
proof -
  from reachable_encoder_inv [OF assms(1-3)] have inv: "enc_inv sz c" by simp
  from mmc.try_schedule_ok [OF inv assms(4-6) _ assms(8,9), of cfg computed shift] assms(7)
  obtain st where st: "try_schedule_encoder_inputs mm_methods cfg c r computed new budget shift = Inr st"
    "mmc.scheduled_ok sz False r st" "es_num_new_tokens st \<le> new" "es_budget st \<le> budget" by auto
  from mmc.allocate_scheduled_ok [OF st(2) assms(4), where after_alloc = after_alloc and ec = ec] obtain c' ec' where c':
    "allocate_scheduled mm_methods after_alloc r st ec = Inr (c', ec')" "enc_inv sz c'"
    "num_free_slots c' = num_free_slots (es_cache st) - num_embeds_to_schedule st" by blast
  moreover have "0 \<le> num_free_slots c'" using c'(2) by (simp add: enc_inv_def)
  moreover have "0 \<le> es_num_new_tokens st" "0 \<le> es_budget st"
    using st(2) unfolding mmc.scheduled_ok_def Let_def by blast+
  ultimately show ?thesis using st by blast
qed

theorem scheduled_encoder_inputs_fit_witness:
  "\<exists>st c' ec'. try_schedule_encoder_inputs mm_methods
      \<lparr>is_encoder_decoder = False, disable_chunked_mm_input = False, has_cache_item = None\<rparr>
      (init_encoder_cache 9)
      ((plain_request 0 ''a'' [1, 2, 3])\<lparr>mm_features :=
        [\<lparr>mm_identifier = ''h'', mm_position = \<lparr>offset = 0, pr_length = 3, is_embed = None\<rparr>\<rparr>]\<rparr>) 0 3 5 0 = Inr st \<and>
    allocate_scheduled mm_methods (Some (\<lambda>told r i. told @ [i]))
      ((plain_request 0 ''a'' [1, 2, 3])\<lparr>mm_features :=
        [\<lparr>mm_identifier = ''h'', mm_position = \<lparr>offset = 0, pr_length = 3, is_embed = None\<rparr>\<rparr>]\<rparr>) st [] = Inr (c', ec') \<and>
    0 \<le> num_free_slots c'"
  using scheduled_encoder_inputs_fit [OF reach_init, of "\<lambda>_. 3" 9
      "(plain_request 0 ''a'' [1, 2, 3])\<lparr>mm_features :=
        [\<lparr>mm_identifier = ''h'', mm_position = \<lparr>offset = 0, pr_length = 3, is_embed = None\<rparr>\<rparr>]\<rparr>" 3 5
      "\<lparr>is_encoder_decoder = False, disable_chunked_mm_input = False, has_cache_item = None\<rparr>" 0 0
      "Some (\<lambda>told r i. told @ [i])" "[]"]
  by (auto simp: sized_def get_num_embeds_def embeds_cumsum_def mask_ok_def)

text \<open>
  C12. The decoder never reaches an encoder input that is not available. If any tokens remain to be
  scheduled, every input of the request that starts before the end of the (shifted) token range and
  is not yet computed is scheduled in this step, or is in the cache with a reference held by the
  request, or has no embedding in the range.
\<close>

theorem scheduled_range_has_encoder_inputs:
  assumes "reachable_encoder sz n c" and "\<And>h. 0 \<le> sz h" and "0 \<le> n" and "sized sz r"
    and "0 \<le> new" and "0 \<le> budget" and "\<not> is_encoder_decoder cfg"
    and "\<forall>f \<in> set (mm_features r). mask_ok f \<and> 0 \<le> pr_length (mm_position f)"
    and "sorted (map (\<lambda>f. offset (mm_position f)) (mm_features r))"
  shows "case try_schedule_encoder_inputs mm_methods cfg c r computed new budget shift of
      Inl _ \<Rightarrow> False
    | Inr st \<Rightarrow> \<forall>f \<in> set (mm_features r). 0 < es_num_new_tokens st \<longrightarrow>
        offset (mm_position f) < computed + es_num_new_tokens st + shift \<longrightarrow>
        computed < offset (mm_position f) + pr_length (mm_position f) \<longrightarrow>
        (\<exists>i \<in> set (encoder_inputs_to_schedule st @ external_load_encoder_input st).
           input_hash r i = mm_identifier f) \<or>
        refers (es_cache st) (request_id r) (mm_identifier f) \<or> no_embeds_in_range f computed new"
proof -
  from reachable_encoder_inv [OF assms(1-3)] have inv: "enc_inv sz c" by simp
  from mmc.try_schedule_ok [OF inv assms(4-6) _ assms(8,9), of cfg computed shift] assms(7)
  obtain st where st: "try_schedule_encoder_inputs mm_methods cfg c r computed new budget shift = Inr st"
    "mmc.scheduled_ok sz False r st" "\<forall>f \<in> set (mm_features r). mmc.input_covered False r computed shift new st f"
    by auto
  have "set (mm_hashes_to_schedule st) =
      input_hash r ` set (encoder_inputs_to_schedule st @ external_load_encoder_input st)"
    using st(2) unfolding mmc.scheduled_ok_def Let_def by blast
  with st(3) show ?thesis unfolding st(1) sum.case mmc.input_covered_def by fastforce
qed

theorem scheduled_range_has_encoder_inputs_witness:
  "case try_schedule_encoder_inputs mm_methods
      \<lparr>is_encoder_decoder = False, disable_chunked_mm_input = False, has_cache_item = None\<rparr>
      (init_encoder_cache 9)
      ((plain_request 0 ''a'' [1, 2, 3])\<lparr>mm_features :=
        [\<lparr>mm_identifier = ''h'', mm_position = \<lparr>offset = 0, pr_length = 3, is_embed = None\<rparr>\<rparr>]\<rparr>) 0 3 5 0 of
     Inl _ \<Rightarrow> False | Inr st \<Rightarrow> True"
  using scheduled_range_has_encoder_inputs [OF reach_init, of "\<lambda>_. 3" 9
      "(plain_request 0 ''a'' [1, 2, 3])\<lparr>mm_features :=
        [\<lparr>mm_identifier = ''h'', mm_position = \<lparr>offset = 0, pr_length = 3, is_embed = None\<rparr>\<rparr>]\<rparr>" 3 5
      "\<lparr>is_encoder_decoder = False, disable_chunked_mm_input = False, has_cache_item = None\<rparr>" 0 0]
  by (auto simp: sized_def get_num_embeds_def embeds_cumsum_def mask_ok_def split: sum.splits)

lemma map_upto_nth: "map (\<lambda>i. g (xs ! nat i)) [0..int (length xs) - 1] = map g xs"
  by (rule nth_equalityI) simp_all

lemma encdec_free_loop:
  assumes "sized sz r" and "0 < num_computed_tokens r" and "\<forall>i \<in> set ids. input_ok r i"
  shows "fold_res (\<lambda>i c'. bindE (py_get (mm_features r) i) (\<lambda>f.
      let start_pos = offset (mm_position f); n = pr_length (mm_position f)
      in if True \<and> 0 < num_computed_tokens r then m_free_encoder_input encdec_methods c' r i
         else if start_pos + n \<le> num_computed_tokens r then m_free_encoder_input encdec_methods c' r i
         else Inr c')) ids c =
    Inr (c\<lparr>ed_num_free_slots := ed_num_free_slots c + (\<Sum>i\<leftarrow>ids. sz (input_hash r i))\<rparr>)"
  using assms(3)
proof (induction ids arbitrary: c)
  case (Cons i ids)
  then have i: "input_ok r i" by simp
  from Cons show ?case
    using assms(2) by (simp add: input_ok_py_get [OF i] encdec_methods_def encdec_free_encoder_input_def
        sized_get_num_encoder_embeds [OF assms(1) i] ac_simps)
qed simp

lemma encdec_free_once:
  assumes "sized sz r" and "0 < num_computed_tokens r" and "set (order [0..int (length (mm_features r)) - 1]) =
      set [0..int (length (mm_features r)) - 1]" and "distinct (order [0..int (length (mm_features r)) - 1])"
  shows "free_encoder_inputs encdec_methods True order c r =
    Inr (c\<lparr>ed_num_free_slots := ed_num_free_slots c + (\<Sum>f\<leftarrow>mm_features r. sz (mm_identifier f))\<rparr>)"
proof -
  let ?ids = "[0..int (length (mm_features r)) - 1]"
  have ids: "m_get_cached_input_ids encdec_methods c r = ?ids"
    by (simp add: encdec_methods_def encdec_get_cached_input_ids_def)
  have "(\<Sum>i\<leftarrow>order ?ids. sz (input_hash r i)) = (\<Sum>i\<leftarrow>?ids. sz (input_hash r i))"
    using assms(3,4) by (simp add: sum_list_distinct_conv_sum_set)
  also have "\<dots> = (\<Sum>f\<leftarrow>mm_features r. sz (mm_identifier f))"
    unfolding input_hash_def by (simp only: map_upto_nth [of "\<lambda>f. sz (mm_identifier f)"])
  finally have total: "(\<Sum>i\<leftarrow>order ?ids. sz (input_hash r i)) = (\<Sum>f\<leftarrow>mm_features r. sz (mm_identifier f))" .
  have ok: "\<forall>i \<in> set (order ?ids). input_ok r i" unfolding assms(3) by (simp add: input_ok_def)
  show ?thesis
  proof (cases "mm_features r = []")
    case True
    then show ?thesis by (simp add: free_encoder_inputs_def ids)
  next
    case False
    then have "?ids \<noteq> []" by simp
    then show ?thesis
      unfolding free_encoder_inputs_def ids Let_def
      by (simp only: if_False encdec_free_loop [OF assms(1,2) ok, unfolded Let_def] total)
  qed
qed

text \<open>
  C40. For an encoder-decoder model the free slots are given back once per step, not once per
  allocation: after every further step of a request that has computed a token, the count of free
  slots has grown by all its embeddings, past the size of the cache.
\<close>

theorem encdec_slots_freed_every_step:
  assumes "sized sz r" and "0 < num_computed_tokens r" and "set (order [0..int (length (mm_features r)) - 1]) =
      set [0..int (length (mm_features r)) - 1]" and "distinct (order [0..int (length (mm_features r)) - 1])"
  shows "((\<lambda>m. bindE m (\<lambda>c. free_encoder_inputs encdec_methods True order c r)) ^^ k) (Inr c) =
    Inr (c\<lparr>ed_num_free_slots := ed_num_free_slots c + int k * (\<Sum>f\<leftarrow>mm_features r. sz (mm_identifier f))\<rparr>)"
proof (induction k)
  case (Suc k)
  then show ?case by (simp add: encdec_free_once [OF assms(1,2), of order, OF assms(3,4)] algebra_simps)
qed simp

theorem encdec_slots_freed_every_step_witness:
  "\<exists>c. ((\<lambda>m. bindE m (\<lambda>c. free_encoder_inputs encdec_methods True id c
        ((plain_request 0 ''a'' [1])\<lparr>num_computed_tokens := 1, mm_features :=
          [\<lparr>mm_identifier = ''h'', mm_position = \<lparr>offset = 0, pr_length = 5, is_embed = None\<rparr>\<rparr>]\<rparr>))) ^^ 3)
      (encdec_allocate (init_encdec_cache 5)
        ((plain_request 0 ''a'' [1])\<lparr>num_computed_tokens := 1, mm_features :=
          [\<lparr>mm_identifier = ''h'', mm_position = \<lparr>offset = 0, pr_length = 5, is_embed = None\<rparr>\<rparr>]\<rparr>) 0) = Inr c \<and>
    ed_cache_size c = 5 \<and> ed_num_free_slots c = 15"
  using encdec_slots_freed_every_step [of "\<lambda>_. 5"
      "(plain_request 0 ''a'' [1])\<lparr>num_computed_tokens := 1, mm_features :=
          [\<lparr>mm_identifier = ''h'', mm_position = \<lparr>offset = 0, pr_length = 5, is_embed = None\<rparr>\<rparr>]\<rparr>" id 3
      "\<lparr>ed_cache_size = 5, ed_num_free_slots = 0, ed_allocated = [''h''], ed_to_free = []\<rparr>"]
  by (simp add: sized_def get_num_embeds_def embeds_cumsum_def encdec_allocate_def init_encdec_cache_def
      get_num_encoder_embeds_def py_get_nonneg)

end
