(* ===== verification/Bon_Plan.thy ===== *)
theory Bon_Plan
  imports Bon_Controller
begin

text \<open>
  What the best-of-N controller of \<open>Bon_Controller\<close> guarantees.

  \<^item> \<open>bon_baseline_simulates\<close>: its protected branches are those of the TAPER planner, so the lemmas
    about \<open>split_ok\<close> carry over.
  \<^item> \<open>bon_scan_best\<close>: a scan never raises and finds a maximal candidate; reading the length predictor
    on the way changes no later prediction (\<open>lp_equiv\<close>).
  \<^item> \<open>bon_greedy_inv\<close>: the loop only adds branches and at most as many as there are slots.
\<close>

section \<open>The protected branches\<close>

lemma bon_baseline_simulates:
  "bb_admitted_req_ids (bon_build_baseline R reqs) = admitted_req_ids (build_baseline R reqs) \<and>
   bb_deferred_by_group (bon_build_baseline R reqs) = deferred_by_group (build_baseline R reqs) \<and>
   bb_active_decode_width (bon_build_baseline R reqs) = active_decode_width (build_baseline R reqs) \<and>
   bb_active_context_tokens (bon_build_baseline R reqs) = active_context_tokens (build_baseline R reqs) \<and>
   (\<forall>g. bb_width_by_group (bon_build_baseline R reqs) g = of_bool (g \<in> set (baseline_groups (build_baseline R reqs))))"
proof (induction reqs rule: rev_induct)
  case Nil
  show ?case by (simp add: bon_build_baseline_def build_baseline_def)
next
  case (snoc r reqs)
  have bon: "bon_build_baseline R (reqs @ [r]) = bon_baseline_step R r (bon_build_baseline R reqs)"
    by (simp add: bon_build_baseline_def)
  show ?case
    unfolding bon build_baseline_snoc
    by (cases rule: baseline_step_cases [of r R "build_baseline R reqs"])
      (use snoc.IH in \<open>simp_all add: bon_baseline_step_def Let_def\<close>)
qed

section \<open>Reading the predictor\<close>

definition lp_equiv :: "len_predictor \<Rightarrow> len_predictor \<Rightarrow> bool" where
  "lp_equiv lp lp' \<longleftrightarrow>
     lp_request_to_group lp = lp_request_to_group lp' \<and>
     (\<forall>g. finished_of (lp_groups lp) g = finished_of (lp_groups lp') g)"

lemma lp_equiv_refl [simp]: "lp_equiv lp lp"
  by (simp add: lp_equiv_def)

lemma lp_equiv_trans: "lp_equiv a b \<Longrightarrow> lp_equiv b c \<Longrightarrow> lp_equiv a c"
  by (simp add: lp_equiv_def)

lemma lp_equiv_registered: "lp_equiv lp lp' \<Longrightarrow> registered_group lp' r = registered_group lp r"
  by (simp add: lp_equiv_def registered_group_def)

definition predicted_total :: "request \<Rightarrow> int list \<Rightarrow> int option" where
  "predicted_total r ls =
     (let m = max 1 (max_tokens r); out = num_output_tokens r
      in if ls = [] then None
         else if m \<le> out then Some m
         else Some (min m (max (projr (predict_from_finished_lengths ls m)) (out + min 256 (m - out)))))"

lemma predict_total_eq:
  "predict_total_output_tokens r lp =
     Inr (predicted_total r (finished_of (lp_groups lp) (registered_group lp r)),
          lp\<lparr>lp_groups := group_entry (registered_group lp r) (lp_groups lp)\<rparr>)"
proof -
  define ls where "ls = finished_of (lp_groups lp) (registered_group lp r)"
  show ?thesis
  proof (cases "ls = []")
    case True
    then show ?thesis unfolding predict_total_output_tokens_def predicted_total_def Let_def ls_def [symmetric] by simp
  next
    case False
    obtain p where "predict_from_finished_lengths ls (max 1 (max_tokens r)) = Inr p"
      by (rule predict_from_finished_lengths_ok [OF False])
    with False show ?thesis
      unfolding predict_total_output_tokens_def predicted_total_def Let_def ls_def [symmetric] by simp
  qed
qed

lemma predict_total_equiv:
  assumes "lp_equiv lp lp'"
  shows "\<exists>lp''. predict_total_output_tokens r lp' =
      Inr (predicted_total r (finished_of (lp_groups lp) (registered_group lp r)), lp'') \<and> lp_equiv lp lp''"
proof -
  have "finished_of (lp_groups lp') (registered_group lp' r) = finished_of (lp_groups lp) (registered_group lp r)"
    using assms lp_equiv_registered [OF assms] by (simp add: lp_equiv_def)
  moreover have "lp_equiv lp (lp'\<lparr>lp_groups := group_entry (registered_group lp' r) (lp_groups lp')\<rparr>)"
    using assms by (simp add: lp_equiv_def)
  ultimately show ?thesis unfolding predict_total_eq by metis
qed

lemma future_footprint_equiv:
  "\<exists>n. \<forall>lp'. lp_equiv lp lp' \<longrightarrow> (\<exists>lp''. bon_future_footprint st bv bs g r lp' = Inr (n, lp'') \<and> lp_equiv lp lp'')"
proof -
  define n where "n = predicted_total r (finished_of (lp_groups lp) (registered_group lp r))"
  define fp where "fp = (if \<not> uses_memory_lifetime st then 0
     else if taper_plus_policy st = PBonTaperLenPredictor \<and> len_predictor_protected_width \<le> bs_width_by_group bs g
     then (case n of None \<Rightarrow> estimate_future_footprint (bv_taper bv) r
           | Some k \<Rightarrow> estimate_future_footprint_for_output_len bv r k)
     else estimate_future_footprint (bv_taper bv) r)"
  show ?thesis
  proof (intro exI [of _ fp] allI impI)
    fix lp'
    assume eqv: "lp_equiv lp lp'"
    from predict_total_equiv [OF eqv, of r, folded n_def] obtain lp'' where "predict_total_output_tokens r lp' = Inr (n, lp'')" "lp_equiv lp lp''" by blast
    then show "\<exists>lp''. bon_future_footprint st bv bs g r lp' = Inr (fp, lp'') \<and> lp_equiv lp lp''"
      using eqv by (simp add: bon_future_footprint_def fp_def split: option.split)
  qed
qed

text \<open>The value of a candidate, whatever reads of the predictor came before.\<close>

definition bon_value ::
    "taper_state \<Rightarrow> bon_view \<Rightarrow> bon_context \<Rightarrow> bon_state \<Rightarrow> string \<Rightarrow> request \<Rightarrow> (real \<times> real \<times> int) option" where
  "bon_value st bv bc bs g r = fst (projr (bon_evaluate st bv bc bs g r (bs_predictor bs)))"

lemma bon_evaluate_exists:
  "\<exists>v. \<forall>lp'. lp_equiv lp lp' \<longrightarrow> (\<exists>lp''. bon_evaluate st bv bc bs g r lp' = Inr (v, lp'') \<and> lp_equiv lp lp'')"
proof -
  obtain n where n: "\<And>lp'. lp_equiv lp lp' \<Longrightarrow>
      \<exists>lp''. bon_future_footprint st bv bs g r lp' = Inr (n, lp'') \<and> lp_equiv lp lp''"
    using future_footprint_equiv [of lp st bv bs g r] by blast
  define v where "v = (if bon_candidate_budget_ms st bc bs g r < bon_predicted_step_ms st bs r then None
    else bon_score st bc bs g r n)"
  show ?thesis
  proof (intro exI [of _ v] allI impI)
    fix lp'
    assume eqv: "lp_equiv lp lp'"
    from n [OF eqv] obtain lp'' where "bon_future_footprint st bv bs g r lp' = Inr (n, lp'')" "lp_equiv lp lp''" by blast
    then show "\<exists>lp''. bon_evaluate st bv bc bs g r lp' = Inr (v, lp'') \<and> lp_equiv lp lp''"
      using eqv by (simp add: bon_evaluate_def v_def)
  qed
qed

lemma bon_evaluate_value:
  assumes "lp_equiv (bs_predictor bs) lp"
  obtains lp' where "bon_evaluate st bv bc bs g r lp = Inr (bon_value st bv bc bs g r, lp')"
    and "lp_equiv (bs_predictor bs) lp'"
proof -
  obtain v where v: "\<And>lp'. lp_equiv (bs_predictor bs) lp' \<Longrightarrow>
      \<exists>lp''. bon_evaluate st bv bc bs g r lp' = Inr (v, lp'') \<and> lp_equiv (bs_predictor bs) lp''"
    using bon_evaluate_exists [of "bs_predictor bs" st bv bc bs g r] by blast
  have "bon_value st bv bc bs g r = v" using v [of "bs_predictor bs"] by (auto simp: bon_value_def)
  with v [OF assms] that show thesis by blast
qed

section \<open>The best candidate\<close>

lemma is_better_trans:
  assumes "is_better_candidate s1 s2 r1 (Some r2) u" and "is_better_candidate s2 s3 r2 (Some r3) u"
  shows "is_better_candidate s1 s3 r1 (Some r3) u"
proof -
  have key: "(arrival_time r1, request_id r1) < (arrival_time r3, request_id r3)"
    if "(arrival_time r1, request_id r1) < (arrival_time r2, request_id r2)"
      "(arrival_time r2, request_id r2) < (arrival_time r3, request_id r3)"
    using that by (rule less_trans)
  show ?thesis
    using assms key unfolding is_better_candidate_def option.case
    by (cases u) (auto simp del: less_prod_simp split: if_splits)
qed

lemma is_better_irrefl: "\<not> is_better_candidate s s r (Some r) u"
  by (simp add: is_better_candidate_def)

text \<open>What a scan of candidates has found: no candidate with a value beats the best one.\<close>

definition best_of ::
    "taper_state \<Rightarrow> bon_view \<Rightarrow> bon_context \<Rightarrow> bon_state \<Rightarrow> (string \<times> request) list \<Rightarrow> bon_best option \<Rightarrow> bool" where
  "best_of st bv bc bs pairs best \<longleftrightarrow>
     (case best of
        None \<Rightarrow> \<forall>(g, r) \<in> set pairs. bon_value st bv bc bs g r = None
      | Some b \<Rightarrow>
          (be_group_id b, be_request b) \<in> set pairs \<and>
          bon_value st bv bc bs (be_group_id b) (be_request b) =
            Some (be_score b, be_predicted_step_ms b, be_future_footprint b) \<and>
          (\<forall>(g, r) \<in> set pairs. \<forall>s p f. bon_value st bv bc bs g r = Some (s, p, f) \<longrightarrow>
             \<not> is_better_candidate s (be_score b) r (Some (be_request b)) (uses_memory_lifetime st)))"

lemma best_of_skip:
  "best_of st bv bc bs pairs best \<Longrightarrow> bon_value st bv bc bs g r = None \<Longrightarrow>
   best_of st bv bc bs (pairs @ [(g, r)]) best"
  by (auto simp: best_of_def split: option.splits)

lemma best_of_keep:
  "best_of st bv bc bs pairs (Some b) \<Longrightarrow> bon_value st bv bc bs g r = Some (s, p, f) \<Longrightarrow>
   \<not> is_better_candidate s (be_score b) r (Some (be_request b)) (uses_memory_lifetime st) \<Longrightarrow>
   best_of st bv bc bs (pairs @ [(g, r)]) (Some b)"
  by (auto simp: best_of_def)

lemma best_of_replace:
  assumes "best_of st bv bc bs pairs best" and v: "bon_value st bv bc bs g r = Some (s, p, f)"
    and better: "\<And>b. best = Some b \<Longrightarrow> is_better_candidate s (be_score b) r (Some (be_request b)) (uses_memory_lifetime st)"
  shows "best_of st bv bc bs (pairs @ [(g, r)])
    (Some \<lparr>be_group_id = g, be_request = r, be_score = s, be_predicted_step_ms = p, be_future_footprint = f\<rparr>)"
proof -
  have "\<not> is_better_candidate s' s r' (Some r) (uses_memory_lifetime st)"
    if "(g', r') \<in> set pairs" "bon_value st bv bc bs g' r' = Some (s', p', f')" for g' r' s' p' f'
  proof (cases best)
    case None
    with assms(1) that show ?thesis by (auto simp: best_of_def)
  next
    case (Some b)
    with assms(1) that have "\<not> is_better_candidate s' (be_score b) r' (Some (be_request b)) (uses_memory_lifetime st)"
      unfolding best_of_def by fastforce
    with better [OF Some] is_better_trans show ?thesis by blast
  qed
  then show ?thesis unfolding best_of_def using v is_better_irrefl by auto
qed

lemma bon_scan_step_best:
  assumes "best_of st bv bc bs pairs best" and "lp_equiv (bs_predictor bs) lp"
  shows "\<exists>best' lp'. bon_scan_step st bv bc bs (g, r) (best, lp) = Inr (best', lp') \<and>
    best_of st bv bc bs (pairs @ [(g, r)]) best' \<and> lp_equiv (bs_predictor bs) lp'"
proof -
  obtain lp' where ev: "bon_evaluate st bv bc bs g r lp = Inr (bon_value st bv bc bs g r, lp')"
    and eqv: "lp_equiv (bs_predictor bs) lp'"
    by (rule bon_evaluate_value [OF assms(2)])
  show ?thesis
  proof (cases "bon_value st bv bc bs g r")
    case None
    with ev eqv best_of_skip [OF assms(1) None] show ?thesis by (simp add: bon_scan_step_def)
  next
    case (Some v)
    obtain s p f where v: "v = (s, p, f)" by (cases v)
    show ?thesis
    proof (cases "is_better_candidate s (case best of None \<Rightarrow> 0 | Some b \<Rightarrow> be_score b) r
        (map_option be_request best) (uses_memory_lifetime st)")
      case True
      then have "best_of st bv bc bs (pairs @ [(g, r)])
          (Some \<lparr>be_group_id = g, be_request = r, be_score = s, be_predicted_step_ms = p, be_future_footprint = f\<rparr>)"
        using Some v by (intro best_of_replace [OF assms(1)]) auto
      with True ev eqv Some v show ?thesis by (simp add: bon_scan_step_def)
    next
      case False
      then obtain b where "best = Some b" by (cases best) (auto simp: is_better_candidate_def)
      with False ev eqv Some v best_of_keep assms(1) show ?thesis by (simp add: bon_scan_step_def)
    qed
  qed
qed

lemma bon_scan_best:
  "\<exists>best lp. bon_scan st bv bc bs = Inr (best, lp) \<and> lp_equiv (bs_predictor bs) lp \<and>
     best_of st bv bc bs (candidate_pairs (bs_deferred_by_group bs)) best"
proof -
  let ?I = "\<lambda>pairs s. best_of st bv bc bs pairs (fst s) \<and> lp_equiv (bs_predictor bs) (snd s)"
  have "\<exists>s'. bon_scan_step st bv bc bs x s = Inr s' \<and> ?I (before @ [x]) s'" if "?I before s" for x before s
    using bon_scan_step_best [of st bv bc bs before "fst s" "snd s" "fst x" "snd x"] that by auto
  then have "\<exists>s'. fold_res (bon_scan_step st bv bc bs) (candidate_pairs (bs_deferred_by_group bs)) (None, bs_predictor bs) = Inr s' \<and>
      ?I (candidate_pairs (bs_deferred_by_group bs)) s'"
    by (intro fold_res_invariant) (auto simp: best_of_def)
  then show ?thesis by (auto simp: bon_scan_def)
qed

section \<open>The loop\<close>

lemma in_candidate_pairs: "(g, r) \<in> set (candidate_pairs d) \<longleftrightarrow> (\<exists>rs. (g, rs) \<in> set d \<and> r \<in> set rs)"
  by (force simp: candidate_pairs_def)

lemma keys_remove_branch [simp]: "map fst (remove_branch g r d) = map fst d"
  by (simp add: remove_branch_def case_prod_beta o_def)

lemma remove_branch_absent: "g \<notin> fst ` set d \<Longrightarrow> remove_branch g r d = d"
  by (force simp: remove_branch_def intro!: map_idI)

lemma mset_remove_branch:
  "distinct (map fst d) \<Longrightarrow> (g, rs) \<in> set d \<Longrightarrow> r \<in> set rs \<Longrightarrow>
   mset (deferred_branches d) = add_mset r (mset (deferred_branches (remove_branch g r d)))"
proof (induction d)
  case (Cons p d)
  obtain k xs where p: "p = (k, xs)" by (cases p)
  show ?case
  proof (cases "k = g")
    case True
    with Cons.prems have "g \<notin> fst ` set d" "xs = rs" by (auto simp: p image_iff)
    moreover have "mset xs = add_mset r (mset (remove1 r xs))" using Cons.prems(3) \<open>xs = rs\<close> by simp
    moreover have "remove_branch g r ((k, xs) # d) = (k, remove1 r xs) # remove_branch g r d"
      using True by (simp add: remove_branch_def)
    ultimately show ?thesis using remove_branch_absent [of g d r] by (simp add: p)
  next
    case False
    have "remove_branch g r ((k, xs) # d) = (k, xs) # remove_branch g r d" using False by (simp add: remove_branch_def)
    moreover have "mset (deferred_branches d) = add_mset r (mset (deferred_branches (remove_branch g r d)))"
      using False Cons.prems by (intro Cons.IH) (auto simp: p)
    ultimately show ?thesis by (simp add: p)
  qed
qed simp

definition bon_inv :: "request list \<Rightarrow> bon_state \<Rightarrow> bool" where
  "bon_inv reqs bs \<longleftrightarrow>
     split_ok reqs (bs_admitted_req_ids bs) (bs_deferred_by_group bs) (bs_active_decode_width bs) (bs_active_context_tokens bs) \<and>
     bs_admitted_req_ids bs \<subseteq> request_id ` set reqs"

lemma bon_admit_inv:
  assumes inv: "bon_inv reqs bs" and ids: "distinct (map request_id reqs)"
    and mem: "(be_group_id b, be_request b) \<in> set (candidate_pairs (bs_deferred_by_group bs))"
  shows "bon_inv reqs (bon_admit st b (bs\<lparr>bs_predictor := lp\<rparr>))"
proof -
  from mem obtain rs where rs: "(be_group_id b, rs) \<in> set (bs_deferred_by_group bs)" "be_request b \<in> set rs"
    by (auto simp: in_candidate_pairs)
  have ok: "split_ok reqs (bs_admitted_req_ids bs) (bs_deferred_by_group bs) (bs_active_decode_width bs) (bs_active_context_tokens bs)"
    and sub: "bs_admitted_req_ids bs \<subseteq> request_id ` set reqs" using inv by (simp_all add: bon_inv_def)
  have keys: "distinct (map fst (remove_branch (be_group_id b) (be_request b) (bs_deferred_by_group bs)))"
    using split_okD(1) [OF ok] by simp
  note admit = split_ok_admit [OF ok ids keys mset_remove_branch [OF split_okD(1) [OF ok] rs]]
  have "request_id (be_request b) \<in> request_id ` set reqs" using admit(2) by simp
  with admit(1) sub show ?thesis by (simp add: bon_inv_def bon_admit_def)
qed

lemma bon_greedy_inv:
  assumes "bon_inv reqs bs" and ids: "distinct (map request_id reqs)"
  shows "\<exists>bs'. bon_greedy st bv bc n bs = Inr bs' \<and> bon_inv reqs bs' \<and>
    bs_admitted_req_ids bs \<subseteq> bs_admitted_req_ids bs' \<and>
    bs_active_decode_width bs' \<le> bs_active_decode_width bs + int n"
  using assms(1)
proof (induction n arbitrary: bs)
  case (Suc n)
  obtain best lp where scan: "bon_scan st bv bc bs = Inr (best, lp)"
    and best: "best_of st bv bc bs (candidate_pairs (bs_deferred_by_group bs)) best"
    using bon_scan_best by blast
  have inv1: "bon_inv reqs (bs\<lparr>bs_predictor := lp\<rparr>)" using Suc.prems by (simp add: bon_inv_def)
  show ?case
  proof (cases "\<exists>b. best = Some b \<and> 0 < be_score b")
    case True
    then obtain b where b: "best = Some b" "0 < be_score b" by blast
    have "bon_inv reqs (bon_admit st b (bs\<lparr>bs_predictor := lp\<rparr>))"
      using best b(1) by (intro bon_admit_inv [OF Suc.prems ids]) (simp add: best_of_def)
    from Suc.IH [OF this] obtain bs' where
      "bon_greedy st bv bc n (bon_admit st b (bs\<lparr>bs_predictor := lp\<rparr>)) = Inr bs'" "bon_inv reqs bs'"
      "bs_admitted_req_ids (bon_admit st b (bs\<lparr>bs_predictor := lp\<rparr>)) \<subseteq> bs_admitted_req_ids bs'"
      "bs_active_decode_width bs' \<le> bs_active_decode_width (bon_admit st b (bs\<lparr>bs_predictor := lp\<rparr>)) + int n"
      by blast
    with scan b show ?thesis by (auto simp: bon_admit_def)
  next
    case False
    then have "bon_greedy st bv bc (Suc n) bs = Inr (bs\<lparr>bs_predictor := lp\<rparr>)"
      using scan by (cases best) (auto simp: Let_def)
    with inv1 show ?thesis by auto
  qed
qed simp

section \<open>The plan\<close>

lemma refresh_ids: "map request_id (fst (refresh_running_requests st reqs lp)) = map request_id reqs"
  by (simp add: refresh_running_requests_def Let_def o_def if_distrib cong: if_cong)

text \<open>The greedy loop started from the protected branches.\<close>

lemma bon_greedy_from_baseline:
  fixes R reqs
  defines "b \<equiv> build_baseline R reqs"
  assumes ids: "distinct (map request_id reqs)"
    and start: "bs_admitted_req_ids bs = admitted_req_ids b" "bs_deferred_by_group bs = deferred_by_group b"
      "bs_active_decode_width bs = active_decode_width b" "bs_active_context_tokens bs = active_context_tokens b"
  obtains bs' where "bon_greedy st bv bc (nat (token_budget - active_decode_width b)) bs = Inr bs'"
    and "admitted_req_ids b \<subseteq> bs_admitted_req_ids bs'" and "bs_admitted_req_ids bs' \<subseteq> request_id ` set reqs"
    and "int (length (admitted_decoders reqs (bs_admitted_req_ids bs'))) \<le> max token_budget (active_decode_width b)"
proof -
  have "bon_inv reqs bs"
    using build_baseline_split [OF ids, of R] build_baseline_admits [of R reqs]
    by (simp add: bon_inv_def start b_def)
  from bon_greedy_inv [OF this ids] obtain bs' where
    bs': "bon_greedy st bv bc (nat (token_budget - active_decode_width b)) bs = Inr bs'" "bon_inv reqs bs'"
    "bs_admitted_req_ids bs \<subseteq> bs_admitted_req_ids bs'"
    "bs_active_decode_width bs' \<le> bs_active_decode_width bs + int (nat (token_budget - active_decode_width b))"
    by blast
  have "int (length (admitted_decoders reqs (bs_admitted_req_ids bs'))) = bs_active_decode_width bs'"
    using bs'(2) split_okD(2) unfolding bon_inv_def by metis
  with bs'(4) have "int (length (admitted_decoders reqs (bs_admitted_req_ids bs'))) \<le> max token_budget (active_decode_width b)"
    unfolding start by linarith
  with bs' show thesis by (intro that) (simp_all add: start bon_inv_def)
qed

lemma ceil_div_bounds:
  fixes a b :: int
  assumes "0 < b"
  shows "a \<le> (a + b - 1) div b * b" and "((a + b - 1) div b - 1) * b < a"
proof -
  have "(a + b - 1) div b * b + (a + b - 1) mod b = a + b - 1" by (rule div_mult_mod_eq)
  moreover have "0 \<le> (a + b - 1) mod b" "(a + b - 1) mod b < b" using assms by simp_all
  ultimately show "a \<le> (a + b - 1) div b * b" "((a + b - 1) div b - 1) * b < a"
    unfolding left_diff_distrib mult_1 by linarith+
qed

lemma parent_cap_iff:
  fixes n k c :: int
  assumes "1 \<le> n" and "0 \<le> k"
  shows "\<not> max 1 (min 8 (c div n)) \<le> k \<longleftrightarrow> k = 0 \<or> k < 8 \<and> (k + 1) * n \<le> c"
proof -
  have "k + 1 \<le> c div n \<longleftrightarrow> (k + 1) * n \<le> c" using assms(1) by (intro le_div_iff_mult_le) simp
  then show ?thesis using assms(2) by linarith
qed

text \<open>
  When the controller admits everything: it is off or has no budget, the policy leaves the width alone,
  no two decode branches have the same parent, or memory is plentiful.
\<close>

definition bon_unregulated :: "taper_state \<Rightarrow> bon_view \<Rightarrow> int \<Rightarrow> request list \<Rightarrow> bool" where
  "bon_unregulated st bv token_budget reqs \<longleftrightarrow>
     \<not> enable_taper_plus st \<or> token_budget \<le> 0 \<or> taper_plus_policy st = PBonTaper \<or>
     distinct (map taper_plus_group_id (decoders reqs)) \<or>
     get_taper_plus_memory_threshold st (bv_taper bv) \<le> remaining_free_blocks (bv_taper bv)"

lemma bon_plan_cases:
  fixes st bv lp0 now_s token_budget
  assumes ids: "distinct (map request_id (running (bv_taper bv)))"
  obtains (none) reqs lp where "bon_plan st bv lp0 now_s token_budget = Inr (None, reqs, lp)"
    "map request_id reqs = map request_id (running (bv_taper bv))" "bon_unregulated st bv token_budget reqs"
  | (plan) A reqs lp b where "bon_plan st bv lp0 now_s token_budget = Inr (Some A, reqs, lp)"
    "map request_id reqs = map request_id (running (bv_taper bv))"
    "b = build_baseline (regulated_groups (group_candidates reqs)) reqs"
    "admitted_req_ids b \<subseteq> A" "A \<subseteq> request_id ` set reqs"
    "int (length (admitted_decoders reqs A)) \<le> max token_budget (active_decode_width b)"
    "\<not> bon_unregulated st bv token_budget reqs"
proof -
  obtain reqs lp where refresh: "refresh_running_requests st (running (bv_taper bv)) lp0 = (reqs, lp)"
    by (cases "refresh_running_requests st (running (bv_taper bv)) lp0")
  have same: "map request_id reqs = map request_id (running (bv_taper bv))"
    using refresh_ids [of st "running (bv_taper bv)" lp0] by (simp add: refresh)
  then have ids': "distinct (map request_id reqs)" using ids by simp
  let ?R = "regulated_groups (group_candidates reqs)"
  define b bb where "b = build_baseline ?R reqs" and "bb = bon_build_baseline ?R reqs"
  have sim: "bb_admitted_req_ids bb = admitted_req_ids b" "bb_deferred_by_group bb = deferred_by_group b"
    "bb_active_decode_width bb = active_decode_width b" "bb_active_context_tokens bb = active_context_tokens b"
    unfolding b_def bb_def using bon_baseline_simulates by blast+
  have split: "split_ok reqs (admitted_req_ids b) (deferred_by_group b) (active_decode_width b) (active_context_tokens b)"
    unfolding b_def by (rule build_baseline_split [OF ids'])
  have sub: "admitted_req_ids b \<subseteq> request_id ` set reqs" unfolding b_def using build_baseline_admits by blast
  have slk: "group_slacks st now_s (group_candidates reqs) (map fst (group_candidates reqs)) =
      Inr (map (\<lambda>g. (g, group_slack st now_s reqs g)) (map fst (group_candidates reqs)))"
    by (rule group_slacks_total) (simp add: group_candidates_keys)
  note plan_def = bon_plan_def [of st bv lp0 now_s token_budget, unfolded Let_def refresh prod.case, folded bb_def, unfolded slk bindE_Inr sim]
  have protected: thesis if "bon_plan st bv lp0 now_s token_budget = Inr (Some (admitted_req_ids b), reqs, lp)"
    and "\<not> bon_unregulated st bv token_budget reqs"
    by (rule plan [OF that(1) same b_def subset_refl sub _ that(2)]) (simp add: split_okD(2) [OF split, symmetric])
  have greedy: thesis if run: "bon_plan st bv lp0 now_s token_budget =
      bindE (bon_greedy st bv bc (nat (token_budget - active_decode_width b)) bs)
        (\<lambda>bs. Inr (Some (bs_admitted_req_ids bs), reqs, bs_predictor bs))"
    and start: "bs_admitted_req_ids bs = admitted_req_ids b" "bs_deferred_by_group bs = deferred_by_group b"
      "bs_active_decode_width bs = active_decode_width b" "bs_active_context_tokens bs = active_context_tokens b"
    and regulated: "\<not> bon_unregulated st bv token_budget reqs" for bc bs
  proof (rule bon_greedy_from_baseline [OF ids' start [unfolded b_def], of st bv bc token_budget, folded b_def])
    fix bs'
    assume bs': "bon_greedy st bv bc (nat (token_budget - active_decode_width b)) bs = Inr bs'"
      and good: "admitted_req_ids b \<subseteq> bs_admitted_req_ids bs'" "bs_admitted_req_ids bs' \<subseteq> request_id ` set reqs"
      "int (length (admitted_decoders reqs (bs_admitted_req_ids bs'))) \<le> max token_budget (active_decode_width b)"
    show thesis by (rule plan [OF _ same b_def good regulated, of "bs_predictor bs'"]) (simp add: run bs')
  qed
  consider "\<not> enable_taper_plus st \<or> token_budget \<le> 0 \<or> taper_plus_policy st = PBonTaper"
    | "enable_taper_plus st" "0 < token_budget" "taper_plus_policy st \<noteq> PBonTaper"
      "?R = [] \<or> get_taper_plus_memory_threshold st (bv_taper bv) \<le> remaining_free_blocks (bv_taper bv)"
    | "enable_taper_plus st" "0 < token_budget" "taper_plus_policy st \<noteq> PBonTaper"
      "?R \<noteq> []" "\<not> get_taper_plus_memory_threshold st (bv_taper bv) \<le> remaining_free_blocks (bv_taper bv)"
    by linarith
  then show thesis
  proof cases
    case 1
    then show thesis by (intro none) (auto simp: bon_plan_def Let_def bon_unregulated_def)
  next
    case 2
    then have "bon_unregulated st bv token_budget reqs" by (auto simp: bon_unregulated_def unregulated_iff)
    with 2 show thesis using none same by (auto simp: plan_def)
  next
    case 3
    then have regulated: "\<not> bon_unregulated st bv token_budget reqs"
      by (simp add: bon_unregulated_def flip: unregulated_iff)
    show thesis
    proof (cases "deferred_by_group b = [] \<or> taper_plus_step_target_ms st \<le> 0 \<or> group_candidates reqs = []")
      case True
      with 3 regulated protected show thesis by (auto simp: plan_def)
    next
      case False
      show thesis
        by (rule greedy, use 3 False in \<open>simp add: plan_def\<close>) (simp_all add: regulated)
    qed
  qed
qed

section \<open>Properties\<close>

text \<open>A view under memory pressure, and a loop state with one deferred branch, for concrete instances.\<close>

definition example_bon_view :: "request list \<Rightarrow> bon_view" where
  "example_bon_view reqs = \<lparr>bv_taper = (example_view reqs)\<lparr>remaining_free_blocks := 0\<rparr>, bv_waiting = [], bv_skipped_waiting = [],
     bv_max_num_running_reqs = 8, bv_max_model_len = 64, bv_block_size = 16,
     estimate_future_footprint_for_output_len = (\<lambda>_ _. 1)\<rparr>"

definition example_bon_state :: bon_state where
  "example_bon_state = \<lparr>bs_admitted_req_ids = {''a''}, bs_deferred_by_group = [(''parent'', [example_branch 1 ''b'' 5])],
     bs_active_decode_width = 1, bs_active_context_tokens = 0, bs_baseline_step_ms = 2,
     bs_width_by_group = (\<lambda>_. 1), bs_virtual_free_blocks = 9, bs_predictor = init_len_predictor\<rparr>"

definition example_bon_context :: bon_context where
  "example_bon_context = \<lparr>bc_now_s = 0, bc_parent_slack_ms = [], bc_min_slack_ms = 1000, bc_global_budget_ms = 1000,
     bc_memory_threshold = 1\<rparr>"

lemma example_bon_view_running [simp]: "running (bv_taper (example_bon_view reqs)) = reqs"
  by (simp add: example_bon_view_def example_view_def)

text \<open>
  C21. A plan of the best-of-N controller never raises and keeps the running requests. It admits
  everything, budget or not, exactly if the controller is off, has no budget or runs the policy that
  leaves the width alone, if no two decode branches have the same parent, or if the free blocks reach the
  memory threshold. Otherwise it admits only running requests, every request that is not a decode branch
  of a parent with several branches, and at least one branch of every parent; and no more decode
  branches than the token budget, or one per parent if there are more parents than that.
\<close>

theorem bon_plan_protects_and_fits:
  assumes "distinct (map request_id (running (bv_taper bv)))"
  shows "case bon_plan st bv lp0 now_s token_budget of
      Inl _ \<Rightarrow> False
    | Inr (None, reqs, lp) \<Rightarrow> map request_id reqs = map request_id (running (bv_taper bv)) \<and>
        bon_unregulated st bv token_budget reqs
    | Inr (Some A, reqs, lp) \<Rightarrow> map request_id reqs = map request_id (running (bv_taper bv)) \<and>
        \<not> bon_unregulated st bv token_budget reqs \<and>
        (A \<subseteq> request_id ` set reqs \<and>
         (\<forall>r \<in> set reqs. \<not> is_taper_plus_decode_candidate r \<or>
            length (branches (taper_plus_group_id r) reqs) \<le> 1 \<longrightarrow> request_id r \<in> A) \<and>
         (\<forall>r \<in> set (decoders reqs). \<exists>r' \<in> set (decoders reqs).
            taper_plus_group_id r' = taper_plus_group_id r \<and> request_id r' \<in> A)) \<and>
        int (length (admitted_decoders reqs A)) \<le>
          max token_budget (int (card (taper_plus_group_id ` set (decoders reqs))))"
proof (cases rule: bon_plan_cases [OF assms, of st lp0 now_s token_budget, case_names none plan])
  case (plan A reqs lp b)
  show ?thesis
    unfolding plan(1) sum.case prod.case option.case
    using plan(2) protected_covers [OF plan(4) [unfolded plan(3)] plan(5)] plan(6) [unfolded plan(3) protected_width] plan(7)
    by (intro conjI) blast+
qed simp

theorem bon_plan_protects_and_fits_witness:
  "case bon_plan example_policy (example_bon_view [example_branch 0 ''a'' 3, example_branch 1 ''b'' 5])
       init_len_predictor 0 8 of
     Inl _ \<Rightarrow> False | Inr (None, reqs, lp) \<Rightarrow> map request_id reqs = [''a'', ''b'']
   | Inr (Some A, reqs, lp) \<Rightarrow> map request_id reqs = [''a'', ''b''] \<and> A \<subseteq> request_id ` set reqs"
  using bon_plan_protects_and_fits [where bv = "example_bon_view [example_branch 0 ''a'' 3, example_branch 1 ''b'' 5]"
      and st = example_policy and ?lp0.0 = init_len_predictor and now_s = 0 and token_budget = 8]
  by (auto split: sum.splits option.splits prod.splits)

text \<open>
  C22. Every round of the controller picks a best deferred branch, whatever the order of the groups and
  of the branches in them, and without raising: no deferred branch that passes the time and memory gates
  has a higher score, or the same score with a higher short-lifetime probability or an earlier arrival.
\<close>

theorem bon_scan_picks_best:
  "case bon_scan st bv bc bs of
     Inl _ \<Rightarrow> False
   | Inr (None, _) \<Rightarrow> \<forall>(g, r) \<in> set (candidate_pairs (bs_deferred_by_group bs)). bon_value st bv bc bs g r = None
   | Inr (Some b, _) \<Rightarrow>
       (be_group_id b, be_request b) \<in> set (candidate_pairs (bs_deferred_by_group bs)) \<and>
       bon_value st bv bc bs (be_group_id b) (be_request b) =
         Some (be_score b, be_predicted_step_ms b, be_future_footprint b) \<and>
       (\<forall>(g, r) \<in> set (candidate_pairs (bs_deferred_by_group bs)). \<forall>s p f. bon_value st bv bc bs g r = Some (s, p, f) \<longrightarrow>
          \<not> is_better_candidate s (be_score b) r (Some (be_request b)) (uses_memory_lifetime st))"
proof -
  obtain best lp where "bon_scan st bv bc bs = Inr (best, lp)"
    and "best_of st bv bc bs (candidate_pairs (bs_deferred_by_group bs)) best"
    using bon_scan_best by blast
  then show ?thesis by (cases best) (simp_all add: best_of_def)
qed

theorem bon_scan_picks_best_witness:
  "case bon_scan example_policy (example_bon_view []) example_bon_context example_bon_state of
     Inr (Some b, _) \<Rightarrow> be_request b = example_branch 1 ''b'' 5
   | Inr (None, _) \<Rightarrow> bon_value example_policy (example_bon_view []) example_bon_context example_bon_state
       ''parent'' (example_branch 1 ''b'' 5) = None
   | Inl _ \<Rightarrow> False"
  using bon_scan_picks_best [where st = example_policy and bv = "example_bon_view []" and bc = example_bon_context
      and bs = example_bon_state]
  by (auto simp: candidate_pairs_def example_bon_state_def split: sum.splits option.splits)

text \<open>
  C23. The controller holds back a waiting request exactly when, under pressure, too many parents are
  active. The block size and the model length are positive. With \<open>C\<close> the number of sequences of full length that fit into the GPU blocks (at least one) and
  \<open>n\<close> the number of waiting siblings (at least one), the decision never raises, and the request is let
  through exactly if the controller is off or does not apply to it, or there is no pressure, or its
  parent is active already, or no parent is active, or fewer than eight parents are and, its own parent
  included, they could all have \<open>n\<close> branches without exceeding four times \<open>C\<close>.
\<close>

theorem bon_admission_exact:
  fixes bv :: bon_view and r :: request
  defines "active \<equiv> active_parent_ids (running (bv_taper bv))"
    and "n \<equiv> max 1 (int (length (filter (\<lambda>q. taper_plus_group_id q = taper_plus_group_id r)
                                    (bv_waiting bv @ bv_skipped_waiting bv))))"
  assumes "0 < bv_block_size bv" and "0 < bv_max_model_len bv" and "0 \<le> num_gpu_blocks (bv_taper bv)"
  shows "\<exists>d blocks C. should_defer_waiting_request st bv r = Inr d \<and>
    bv_max_model_len bv \<le> blocks * bv_block_size bv \<and> (blocks - 1) * bv_block_size bv < bv_max_model_len bv \<and>
    1 \<le> C \<and> (C = 1 \<or> C * blocks \<le> num_gpu_blocks (bv_taper bv)) \<and> num_gpu_blocks (bv_taper bv) < (C + 1) * blocks \<and>
    (\<not> d \<longleftrightarrow> \<not> enable_taper_plus st \<or> \<not> is_bon_policy (taper_plus_policy st) \<or> \<not> has_external_id r \<or>
       \<not> bon_pressured st bv \<or> taper_plus_group_id r \<in> active \<or> active = {} \<or>
       card active < 8 \<and> (int (card active) + 1) * n \<le> 4 * C)"
proof -
  define blocks where "blocks = (bv_max_model_len bv + bv_block_size bv - 1) div bv_block_size bv"
  define C where "C = max 1 (num_gpu_blocks (bv_taper bv) div blocks)"
  have ceil: "bv_max_model_len bv \<le> blocks * bv_block_size bv" "(blocks - 1) * bv_block_size bv < bv_max_model_len bv"
    unfolding blocks_def using ceil_div_bounds [OF assms(3)] by blast+
  have "0 < blocks * bv_block_size bv" using ceil(1) assms(4) by linarith
  then have pos: "1 \<le> blocks" using assms(3) by (simp add: zero_less_mult_iff)
  have capacity: "C = 1 \<or> C * blocks \<le> num_gpu_blocks (bv_taper bv)" "num_gpu_blocks (bv_taper bv) < (C + 1) * blocks"
    using le_div_iff_mult_le [where b = blocks and x = C and n = "num_gpu_blocks (bv_taper bv)"]
      le_div_iff_mult_le [where b = blocks and x = "C + 1" and n = "num_gpu_blocks (bv_taper bv)"] pos unfolding C_def by linarith+
  have fin: "finite active" by (simp add: active_def active_parent_ids_def)
  have n: "n = max 1 (int (length (filter (\<lambda>q. taper_plus_group_id q = taper_plus_group_id r) (bv_waiting bv))) +
      int (length (filter (\<lambda>q. taper_plus_group_id q = taper_plus_group_id r) (bv_skipped_waiting bv))))"
    by (simp add: n_def)
  have cap: "\<not> max 1 (min 8 ((C * 4) div n)) \<le> int (card active) \<longleftrightarrow>
      active = {} \<or> card active < 8 \<and> (int (card active) + 1) * n \<le> 4 * C"
    using fin parent_cap_iff [of n "int (card active)" "C * 4"] by (auto simp: n_def mult.commute)
  define d where "d = (enable_taper_plus st \<and> is_bon_policy (taper_plus_policy st) \<and> has_external_id r \<and>
      bon_pressured st bv \<and> taper_plus_group_id r \<notin> active \<and> max 1 (min 8 ((C * 4) div n)) \<le> int (card active))"
  have "should_defer_waiting_request st bv r = Inr d"
    using assms(3) pos unfolding should_defer_waiting_request_def Let_def active_def [symmetric] n [symmetric]
      blocks_def [symmetric] by (auto simp: d_def C_def max_absorb2)
  moreover have "1 \<le> C" by (simp add: C_def)
  ultimately show ?thesis using ceil capacity cap unfolding d_def by blast
qed

text \<open>
  One parent with two branches runs, three siblings of another wait, and two sequences fit: eight is
  not exceeded by two parents of three branches, but it is by two parents of five.
\<close>

definition example_waiting :: "nat \<Rightarrow> string \<Rightarrow> request" where
  "example_waiting oid rid = (example_branch oid rid 0)\<lparr>external_req_id := Some ''other''\<rparr>"

theorem bon_admission_exact_witness:
  "should_defer_waiting_request example_policy ((example_bon_view [example_branch 0 ''a'' 3, example_branch 1 ''b'' 5])
     \<lparr>bv_waiting := replicate 3 (example_waiting 2 ''c'')\<rparr>) (example_waiting 2 ''c'') = Inr False \<and>
   should_defer_waiting_request example_policy ((example_bon_view [example_branch 0 ''a'' 3, example_branch 1 ''b'' 5])
     \<lparr>bv_waiting := replicate 5 (example_waiting 2 ''c'')\<rparr>) (example_waiting 2 ''c'') = Inr True"
proof -
  define bv where "bv k = (example_bon_view [example_branch 0 ''a'' 3, example_branch 1 ''b'' 5])
     \<lparr>bv_waiting := replicate k (example_waiting 2 ''c'')\<rparr>" for k
  have group: "taper_plus_group_id (example_waiting i x) = ''other''" "has_external_id (example_waiting i x)"
      "has_external_id (example_branch i x t)" for i x t
    by (simp_all add: taper_plus_group_id_def example_waiting_def has_external_id_def example_branch_def)
  have policy: "enable_taper_plus example_policy" "is_bon_policy (taper_plus_policy example_policy)"
    by (simp_all add: example_policy_def example_taper_def is_bon_policy_def)
  have view: "active_parent_ids (running (bv_taper (bv k))) = {''parent''}" "bv_waiting (bv k) = replicate k (example_waiting 2 ''c'')"
      "bv_skipped_waiting (bv k) = []" "bv_block_size (bv k) = 16" "bv_max_model_len (bv k) = 64"
      "num_gpu_blocks (bv_taper (bv k)) = 9" "bon_pressured example_policy (bv k)" for k
    by (simp_all add: bv_def example_bon_view_def example_view_def active_parent_ids_def group bon_pressured_def
        get_taper_plus_memory_threshold_def example_policy_def example_taper_def)
  have "should_defer_waiting_request example_policy (bv k) (example_waiting 2 ''c'') = Inr (\<not> 2 * max 1 (int k) \<le> 8)" for k
  proof -
    from bon_admission_exact [of "bv k" example_policy "example_waiting 2 ''c''"] obtain d blocks C where
        d: "should_defer_waiting_request example_policy (bv k) (example_waiting 2 ''c'') = Inr d"
      and sizes: "64 \<le> blocks * 16" "(blocks - 1) * 16 < (64 :: int)" "C = 1 \<or> C * blocks \<le> 9" "9 < (C + 1) * blocks"
      and iff: "\<not> d \<longleftrightarrow> 2 * max 1 (int k) \<le> 4 * C"
      by (simp add: view group policy) blast
    from sizes(1,2) have "blocks = 4" by simp
    with sizes(3,4) have "C = 2" by auto
    with d iff show ?thesis by auto
  qed
  from this [of 3] this [of 5] show ?thesis by (simp add: bv_def)
qed

end
