(* ===== verification/Planner_View.thy ===== *)
theory Planner_View
  imports Tail_Blend_Properties Bon_Plan
begin

text \<open>
  What the TAPER planner and the best-of-N controller read of the KV cache manager, on the model of the
  manager itself. The views of the planners hold the estimates of the manager as plain numbers; on every
  reachable manager the estimates are computed without an exception, so nothing is lost.
\<close>

definition kv_taper_view :: "kv_cache_manager \<Rightarrow> request list \<Rightarrow> int \<Rightarrow> int \<Rightarrow> taper_view" where
  "kv_taper_view k reqs waiting skipped =
     taper_view.make reqs waiting skipped (get_remaining_free_blocks k) (Block_Pool.num_gpu_blocks (kcm_pool k))
       (\<lambda>r. projr (Kv_Cache_Manager.estimate_future_footprint k r))"

definition kv_bon_view ::
    "kv_cache_manager \<Rightarrow> request list \<Rightarrow> request list \<Rightarrow> request list \<Rightarrow> int \<Rightarrow> int \<Rightarrow> bon_view" where
  "kv_bon_view k reqs waiting skipped limit bs =
     bon_view.make (kv_taper_view k reqs (int (length waiting)) (int (length skipped))) waiting skipped
       limit (kcm_max_model_len k) bs
       (\<lambda>r n. projr (Kv_Cache_Manager.estimate_future_footprint_for_output_len k r n))"

lemma kv_view_estimates:
  assumes "kv_reachable k"
  shows "Kv_Cache_Manager.estimate_future_footprint k r =
      Inr (taper_view.estimate_future_footprint (kv_taper_view k reqs waiting skipped) r)"
    and "Kv_Cache_Manager.estimate_future_footprint_for_output_len k r n =
      Inr (bon_view.estimate_future_footprint_for_output_len (kv_bon_view k reqs ws ss limit bs) r n)"
  using footprint_for_total [OF kv_reachable_inv [OF assms]]
  by (simp_all add: Let_def kv_taper_view_def kv_bon_view_def taper_view.make_def bon_view.make_def
      Kv_Cache_Manager.estimate_future_footprint_def Kv_Cache_Manager.estimate_future_footprint_for_output_len_def)

end
