(* ===== verification/Spec2Isabelle.thy ===== *)
theory Spec2Isabelle
  imports External_Hit Tail_Blend_Properties Sched_Utils Request_Queue Encoder_Schedule Planner_View
begin

text \<open>
  A verification development for the key-value cache management and the scheduling policies of vLLM's V1
  engine core, as they stand in this repository under \<^verbatim>\<open>src/vllm/v1\<close>.

  \<^bold>\<open>The program.\<close> The scheduler keeps requests in queues, asks its policies which of them run in the next
  step, and asks the KV cache manager for memory. The manager hands the work to a coordinator with one manager
  per group of layers; all of them share one pool of blocks, whose free blocks form a queue in eviction order
  and whose full blocks are found again by a hash of their contents.

  \<^bold>\<open>Conventions.\<close> An operation that may raise returns \<open>'a res\<close>, \<open>Inl\<close> of the exception or \<open>Inr\<close> of the
  result. Objects that are shared and mutated are references into a store (\<open>ref\<close>); everything else is passed as
  a value. Python integers are \<open>int\<close>, floats are real numbers, so rounding is not modelled. Dictionaries are
  association lists where their order matters and maps where it does not. Readings of the clock, hash functions,
  connectors and caches of other processes are parameters. Attributes that no modelled operation reads (connector
  parameters, trace headers) are left out, and a multi-modal identifier is a string, never missing, as its type says.
  A block size is positive in every configuration: theorems assume it, a loop that would not end for another
  one stops, and a division by the block size of a manager is not checked for zero.

  \<^bold>\<open>Blocks and hashes\<close>
  \<^item> \<open>Vllm_Prelude\<close>: exceptions as values, loops that may raise, Python indexing, \<^verbatim>\<open>cdiv\<close>.
  \<^item> \<open>Request_Model\<close>: \<^verbatim>\<open>Request\<close> of \<^verbatim>\<open>request.py\<close> and what it reads.
  \<^item> \<open>Free_Block_Queue\<close>: \<^verbatim>\<open>KVCacheBlock\<close> and \<^verbatim>\<open>FreeKVCacheBlockQueue\<close> (\<^verbatim>\<open>kv_cache_utils.py\<close>); the doubly linked
    list refines a plain list.
  \<^item> \<open>Block_Hash\<close>: packed keys, extra keys and the hash chain of the same file. For \<open>served_request\<close>s, as the
    constructor and appended outputs leave them, every full block is hashed and equal hashes mean equal prefixes,
    provided that no multi-modal item but the last reaches into a partly filled last prompt block
    (\<open>mm_settled\<close>); without that, and for LoRA names and salts, contents that differ are hashed alike.
  \<^item> \<open>Block_Map\<close>, \<open>Block_Pool\<close>, \<open>Block_Pool_Caching\<close>: \<^verbatim>\<open>block_pool.py\<close>; conservation of blocks in every reachable
    pool, safe allocation, a cached block is found again.

  \<^bold>\<open>Managers\<close>
  \<^item> \<open>Cache_Hit\<close>, \<open>Single_Type_Manager\<close>: \<^verbatim>\<open>single_type_kv_cache_manager.py\<close> and the specifications it reads from
    \<^verbatim>\<open>kv_cache_interface.py\<close>; a lookup returns the longest usable prefix, or covers the window.
  \<^item> \<open>Kv_Coordinator\<close>: \<^verbatim>\<open>kv_cache_coordinator.py\<close>; the fixed-point search over several groups terminates.
  \<^item> \<open>Kv_Cache_Manager\<close>: \<^verbatim>\<open>kv_cache_manager.py\<close> and \<^verbatim>\<open>PrefixCacheStats\<close>.
  \<^item> \<open>Manager_Accounting\<close>, \<open>Manager_Caching\<close>: one manager keeps reference counts equal to table entries.
  \<^item> \<open>Coordinator_Accounting\<close>: the locale \<open>manager_op\<close> states what an operation owes to the managers that run
    after it, and derives the loop over all managers once; it is interpreted on the five operations of the coordinator.
  \<^item> \<open>Slot_Allocation\<close>, \<open>Kv_Invariant\<close>, \<open>Kv_Reachable\<close>, \<open>Kv_Properties\<close>: the stages of \<^verbatim>\<open>allocate_slots\<close>, the invariant
    \<open>kv_inv\<close>, the step relation \<open>kv_step\<close> over all operations, and what follows for reachable managers: no block is
    lost, \<^verbatim>\<open>allocate_slots\<close> and \<^verbatim>\<open>free\<close> are correct.
  \<^item> \<open>External_Hit\<close>: with several groups, blocks for external tokens can be taken from a pending hit.

  \<^bold>\<open>Scheduling\<close>
  \<^item> \<open>Sched_Utils\<close>: \<^verbatim>\<open>sched/utils.py\<close>; the stop conditions and the detection of repetition.
  \<^item> \<open>Heapq\<close>, \<open>Request_Queue\<close>: \<^verbatim>\<open>sched/request_queue.py\<close> with the heap functions of the standard library; the
    priority queue refines a sorted list.
  \<^item> \<open>Encoder_Cache\<close>, \<open>Encoder_Schedule\<close>: \<^verbatim>\<open>encoder_cache_manager.py\<close> and the encoder part of \<^verbatim>\<open>sched/scheduler.py\<close>;
    what is scheduled together fits together.
  \<^item> \<open>Taper\<close>, \<open>Taper_Plan\<close>: the TAPER planner of \<^verbatim>\<open>sched/scheduler.py\<close>; every parent keeps a branch, and the
    token budget and the slack hold except for overdue branches and the low-pressure guardrail.
  \<^item> \<open>Bon_Length\<close>, \<open>Bon_Controller\<close>, \<open>Bon_Plan\<close>: \<^verbatim>\<open>bon_taper_len_predictor.py\<close> and \<^verbatim>\<open>bon_taper_controller.py\<close>;
    when waiting parents are held back, what a plan admits, and that the order of the candidates does not matter.
  \<^item> \<open>Planner_View\<close>: the planners take the footprint estimates of the KV cache manager as numbers; on reachable
    managers of the model the estimates are computed without an exception.
  \<^item> \<open>Tail_Blend\<close>, \<open>Tail_Blend_Preemption\<close>, \<open>Tail_Blend_Properties\<close>: \<^verbatim>\<open>tail_blend_controller.py\<close> over the model of
    the KV cache manager; reservations are bounded and leave a branch, first branches are admitted, the victim
    of a preemption is a best one, and a preempted branch can wait for itself.

  \<^bold>\<open>Loops.\<close> Loops over lists are structural recursion or folds. The greedy planners take a round count, the token budget
  that the protected branches leave: their loops run while the width is below the budget, and every round that does not
  end the loop widens the step by one. The walk through the free queue and the fixed-point
  search of the hybrid coordinator are partial functions; that they return is proved. The locale \<open>selection\<close> gives
  the laws of \<^verbatim>\<open>min\<close> and \<^verbatim>\<open>max\<close> with a key.

  \<^bold>\<open>Scope of the invariant.\<close> \<open>kv_inv\<close> covers attention layers (full, sliding-window, chunked) with hash-sized blocks if
  prefix caching is on. Mamba, cross-attention and sink managers are modelled but not covered: Mamba
  reserves and reuses speculative state blocks, cross-attention allocates for encoder tokens, and a sink manager takes
  blocks out of the free queue without a reference.
  Calls with external tokens are covered for one group; \<open>External_Hit\<close> shows that the restriction is needed.

  \<^bold>\<open>Not modelled.\<close> The step loop of the scheduler (\<^verbatim>\<open>schedule\<close>, \<^verbatim>\<open>update_from_output\<close>) and its asynchronous variant, which
  tie the parts above to connectors, LoRA slots, structured output and speculative decoding; the computation
  of the KV cache configuration from byte sizes; metrics, which no decision reads; offloading, connectors, engine
  processes, workers, kernels, models, samplers and entry points, which are input and output or tensor programs.
\<close>

end
